(* ===== verification/Prelude.thy ===== *)
theory Prelude
  imports Main "HOL-Library.Word" "HOL-Library.Monad_Syntax"
begin

unbundle bit_operations_syntax

section \<open>Prelude: bytes, buffers and the facts every component shares\<close>

text \<open>
  The C sources of this repository keep most of their data in flat byte buffers that are
  read and written through casted pointers.  This theory fixes how such a buffer is seen
  in HOL:

  \<^item> a byte is an \<open>8 word\<close>, a buffer a list of bytes whose length is the size of the
    allocation;
  \<^item> \<open>mem_read\<close>, \<open>mem_write\<close> and \<open>mem_move\<close> are \<open>memcpy\<close> and \<open>memmove\<close>; an access
    outside of the allocation is undefined behaviour in C and is the value \<open>None\<close> here,
    so that a theorem of the form \<open>f x = Some y\<close> includes memory safety;
  \<^item> \<open>mem_resize\<close> is \<open>realloc\<close>; the bytes it adds are not initialised, they come from an
    arbitrary function \<open>junk\<close> that every theorem quantifies over;
  \<^item> \<open>le_bytes\<close> and \<open>le_word\<close> are the little-endian layout of an integer.

  Errors and undefined behaviour are values of \<open>option\<close>; the definitions of the component
  theories are written in the \<open>do\<close> notation of the option monad.
\<close>

type_synonym byte = "8 word"
type_synonym bytes = "8 word list"

named_theorems mem_simps \<open>rewrite rules for buffer accesses\<close>

named_theorems fit_simps \<open>ranges of machine integers\<close>

subsection \<open>Reading, writing and moving bytes\<close>

definition mem_read :: "nat \<Rightarrow> nat \<Rightarrow> 'a list \<Rightarrow> 'a list option" where
  "mem_read off n buf = (if off + n \<le> length buf then Some (take n (drop off buf)) else None)"

definition mem_write :: "nat \<Rightarrow> 'a list \<Rightarrow> 'a list \<Rightarrow> 'a list option" where
  "mem_write off bs buf =
     (if off + length bs \<le> length buf
      then Some (take off buf @ bs @ drop (off + length bs) buf) else None)"

definition mem_move :: "nat \<Rightarrow> nat \<Rightarrow> nat \<Rightarrow> 'a list \<Rightarrow> 'a list option" where
  "mem_move dst src n buf = do { bs \<leftarrow> mem_read src n buf; mem_write dst bs buf }"

definition mem_get :: "nat \<Rightarrow> 'a list \<Rightarrow> 'a option" where
  "mem_get i buf = (if i < length buf then Some (buf ! i) else None)"

definition mem_resize :: "(nat \<Rightarrow> 'a) \<Rightarrow> nat \<Rightarrow> 'a list \<Rightarrow> 'a list" where
  "mem_resize junk n buf = take n buf @ map junk [length buf..<n]"

text \<open>A loop that may fail, and the addition of two \<open>int\<close>s, whose overflow is undefined.\<close>

primrec foldl_opt :: "('s \<Rightarrow> 'a \<Rightarrow> 's option) \<Rightarrow> 's \<Rightarrow> 'a list \<Rightarrow> 's option" where
  "foldl_opt f s [] = Some s"
| "foldl_opt f s (x # xs) = do { s \<leftarrow> f s x; foldl_opt f s xs }"

lemma foldl_opt_total: "\<forall>s. \<forall>x \<in> set xs. f s x = Some (g s x) \<Longrightarrow> foldl_opt f s xs = Some (foldl g s xs)"
  by (induction xs arbitrary: s) auto

definition int_add :: "int \<Rightarrow> int \<Rightarrow> int option" where
  "int_add a b = (if - (2 ^ 31) \<le> a + b \<and> a + b < 2 ^ 31 then Some (a + b) else None)"

lemma length_mem_resize [simp]: "length (mem_resize junk n buf) = n"
  by (simp add: mem_resize_def)

lemma mem_resize_shrink: "n \<le> length buf \<Longrightarrow> mem_resize junk n buf = take n buf"
  by (simp add: mem_resize_def)

lemma mem_resize_prefix: "length A = n \<Longrightarrow> mem_resize junk n (A @ post) = A"
  by (simp add: mem_resize_def)

lemma mem_resize_grow:
  "length buf \<le> n \<Longrightarrow> mem_resize junk n buf = buf @ map junk [length buf..<n]"
  by (simp add: mem_resize_def)

lemma mem_get_Some [mem_simps]: "i < length buf \<Longrightarrow> mem_get i buf = Some (buf ! i)"
  by (simp add: mem_get_def)

lemma mem_get_None [mem_simps]: "length buf \<le> i \<Longrightarrow> mem_get i buf = None"
  by (simp add: mem_get_def)

lemma mem_read_append [mem_simps]:
  "length pre = off \<Longrightarrow> length mid = n \<Longrightarrow> mem_read off n (pre @ mid @ post) = Some mid"
  by (simp add: mem_read_def)

lemma mem_write_append [mem_simps]:
  "length pre = off \<Longrightarrow> length mid = length bs \<Longrightarrow>
   mem_write off bs (pre @ mid @ post) = Some (pre @ bs @ post)"
  by (simp add: mem_write_def)

lemma length_mem_write: "mem_write off bs buf = Some buf' \<Longrightarrow> length buf' = length buf"
  by (auto simp: mem_write_def split: if_splits)

lemma length_mem_read: "mem_read off n buf = Some bs \<Longrightarrow> length bs = n"
  by (auto simp: mem_read_def split: if_splits)

lemma mem_read_write_same:
  "mem_write off bs buf = Some buf' \<Longrightarrow> mem_read off (length bs) buf' = Some bs"
  by (auto simp: mem_write_def mem_read_def split: if_splits)

lemma mem_move_right:
  assumes "length A = off" and "length J = k" and "length B = n"
  shows "mem_move (off + k) off n (A @ B @ J) = Some (A @ take k (B @ J) @ B)"
  using assms by (simp add: mem_move_def mem_read_append mem_write_def take_append)

lemma mem_move_left:
  assumes "length A = off" and "length M = k" and "length B = n"
  shows "mem_move off (off + k) n (A @ M @ B) = Some (A @ B @ drop n (M @ B))"
proof -
  have "mem_read (off + k) n (A @ M @ B) = Some B"
    using mem_read_append [of "A @ M" "off + k" B n "[]"] assms by simp
  then show ?thesis using assms by (simp add: mem_move_def mem_write_def)
qed

lemma set_take_nth: "y \<in> set (take n xs) \<longleftrightarrow> (\<exists>i < n. i < length xs \<and> xs ! i = y)"
  by (auto simp: in_set_conv_nth)

lemma set_drop_nth: "y \<in> set (drop n xs) \<longleftrightarrow> (\<exists>i. n \<le> i \<and> i < length xs \<and> xs ! i = y)"
proof
  assume "y \<in> set (drop n xs)"
  then obtain i where "i < length xs - n" "drop n xs ! i = y" by (auto simp: in_set_conv_nth)
  then show "\<exists>i. n \<le> i \<and> i < length xs \<and> xs ! i = y" by (intro exI [of _ "n + i"]) auto
next
  assume "\<exists>i. n \<le> i \<and> i < length xs \<and> xs ! i = y"
  then obtain i where "n \<le> i" "i < length xs" "xs ! i = y" by blast
  then have "drop n xs ! (i - n) = y" and "i - n < length (drop n xs)" by auto
  then show "y \<in> set (drop n xs)" using nth_mem by blast
qed

subsection \<open>Little-endian integers\<close>

definition le_bytes :: "nat \<Rightarrow> 'a::len word \<Rightarrow> bytes" where
  "le_bytes n w = map (\<lambda>i. ucast (drop_bit (8 * i) w)) [0..<n]"

primrec le_word :: "bytes \<Rightarrow> 'a::len word" where
  "le_word [] = 0"
| "le_word (b # bs) = ucast b OR push_bit 8 (le_word bs)"

lemma length_le_bytes [simp]: "length (le_bytes n w) = n"
  by (simp add: le_bytes_def)

lemma nth_le_bytes [simp]: "i < n \<Longrightarrow> le_bytes n w ! i = ucast (drop_bit (8 * i) w)"
  by (simp add: le_bytes_def)

lemma bit_le_word:
  "bit (le_word bs :: 'a::len word) k \<longleftrightarrow>
     k < LENGTH('a) \<and> k div 8 < length bs \<and> bit (bs ! (k div 8)) (k mod 8)"
proof (induction bs arbitrary: k)
  case Nil
  then show ?case by simp
next
  case (Cons b bs)
  show ?case
  proof (cases "k < 8")
    case True
    then show ?thesis by (auto simp: bit_simps)
  next
    case False
    then obtain j where j: "k = j + 8" by (metis add.commute le_add_diff_inverse not_less)
    have "\<not> bit b k" using False bit_imp_le_length [of b k] by auto
    moreover have "k div 8 = Suc (j div 8)" using j by simp
    ultimately show ?thesis using j Cons.IH [of j]
      by (auto simp: bit_simps)
  qed
qed

lemma le_word_le_bytes:
  assumes "LENGTH('a) = 8 * n"
  shows "le_word (le_bytes n w) = (w :: 'a::len word)"
proof (rule bit_word_eqI)
  fix k assume k: "k < LENGTH('a)"
  then have "k div 8 < n" using assms by auto
  then show "bit (le_word (le_bytes n w) :: 'a word) k \<longleftrightarrow> bit w k"
    using k by (auto simp: bit_le_word bit_simps)
qed

lemma le_bytes_ucast:
  assumes "8 * n \<le> LENGTH('b)"
  shows "le_bytes n (ucast (w :: 'a::len word) :: 'b::len word) = le_bytes n w"
proof (rule nth_equalityI)
  fix i assume "i < length (le_bytes n (ucast w :: 'b word))"
  then have i: "i < n" by simp
  show "le_bytes n (ucast w :: 'b word) ! i = le_bytes n w ! i"
    by (rule bit_word_eqI) (use i assms in \<open>auto simp: bit_simps\<close>)
qed simp


lemma unat_less: "unat (v :: 'a::len word) < 2 ^ LENGTH('a)"
  by (rule unsigned_less)

lemma unat_word_of_nat [fit_simps]: "n < 2 ^ LENGTH('a) \<Longrightarrow> unat (of_nat n :: 'a::len word) = n"
  by (simp add: unat_of_nat take_bit_nat_eq_self)

lemma uint_word_of_int_small [fit_simps]:
  "0 \<le> x \<Longrightarrow> x < 2 ^ LENGTH('a) \<Longrightarrow> uint (word_of_int x :: 'a::len word) = x"
  by (simp add: uint_word_of_int_eq take_bit_int_eq_self)

lemma unat_mult_small:
  "m * n < 2 ^ LENGTH('a) \<Longrightarrow> unat (of_nat m * of_nat n :: 'a::len word) = m * n"
  using unat_word_of_nat [of "m * n"] by (metis of_nat_mult)

lemma sint_eq_iff: "sint (a :: 'a::len word) = sint b \<longleftrightarrow> a = b"
  by (auto intro: signed_word_eqI)

lemma sint_word_of_int [fit_simps]:
  "- (2 ^ (LENGTH('a) - 1)) \<le> x \<Longrightarrow> x < 2 ^ (LENGTH('a) - 1) \<Longrightarrow>
   sint (word_of_int x :: 'a::len word) = x"
  by (simp add: sint_sbintrunc' signed_take_bit_int_eq_self)

lemma sint_word_of_nat [fit_simps]:
  "n < 2 ^ (LENGTH('a) - 1) \<Longrightarrow> sint (of_nat n :: 'a::len word) = int n"
proof -
  assume n: "n < 2 ^ (LENGTH('a) - 1)"
  then have "int n < 2 ^ (LENGTH('a) - 1)" by (metis of_nat_less_iff of_nat_numeral of_nat_power)
  moreover have "- (2 ^ (LENGTH('a) - 1)) \<le> int n" by (simp add: order.trans [of _ 0])
  ultimately have "sint (word_of_int (int n) :: 'a word) = int n" by (intro sint_word_of_int)
  then show ?thesis by simp
qed

lemma scast_word_of_int [fit_simps]:
  "- (2 ^ (LENGTH('a) - 1)) \<le> x \<Longrightarrow> x < 2 ^ (LENGTH('a) - 1) \<Longrightarrow>
   (scast (word_of_int x :: 'a::len word) :: 'b::len word) = word_of_int x"
  by (metis scast_eq sint_word_of_int)

lemma ucast_word_of_int:
  "LENGTH('b) \<le> LENGTH('a) \<Longrightarrow>
   (ucast (word_of_int x :: 'a::len word) :: 'b::len word) = word_of_int x"
  by (rule bit_word_eqI) (auto simp: bit_simps)

subsection \<open>Arrays of fixed-width elements inside a buffer\<close>

text \<open>
  A buffer that holds an array is the concatenation of the encodings of its elements; an
  access at the byte offset \<open>w * i\<close> is an access to element \<open>i\<close>.
\<close>

lemma length_chunks: "\<forall>x. length (f x) = w \<Longrightarrow> length (concat (map f xs)) = w * length xs"
  by (induction xs) auto

lemma mem_read_chunk:
  assumes w: "\<forall>x. length (f x) = w" and i: "i < length xs"
  shows "mem_read (w * i) w (concat (map f xs) @ post) = Some (f (xs ! i))"
proof -
  have "xs = take i xs @ xs ! i # drop (Suc i) xs" by (rule id_take_nth_drop [OF i])
  then have "concat (map f xs) @ post
      = concat (map f (take i xs)) @ f (xs ! i) @ (concat (map f (drop (Suc i) xs)) @ post)"
    by (metis (no_types, opaque_lifting) append.assoc concat.simps(2) concat_append list.simps(9)
        map_append)
  moreover have "length (concat (map f (take i xs))) = w * i"
    using i by (simp add: length_chunks [OF w])
  ultimately show ?thesis using w by (simp add: mem_read_append)
qed

lemma concat_map_insert:
  "concat (map f (take i xs @ x # drop j xs))
   = concat (map f (take i xs)) @ f x @ concat (map f (drop j xs))"
  by simp

lemma of_nat_mask: "(of_nat (2 ^ k - 1) :: 'a::len word) = mask k"
  by (simp add: mask_eq_exp_minus_1 of_nat_diff)

subsection \<open>Pieces of a flattened list\<close>

text \<open>Where each piece of a concatenation starts, and that cutting there gives the piece.\<close>

definition offsets :: "'a list list \<Rightarrow> nat list" where
  "offsets xs = map (\<lambda>i. length (concat (take i xs))) [0..<length xs]"

lemma offsets_simps [simp]:
  "offsets [] = []" "length (offsets xs) = length xs" "offsets xs = [] \<longleftrightarrow> xs = []"
  "offsets (xs @ [x]) = offsets xs @ [length (concat xs)]"
  by (auto simp: offsets_def)

lemma offsets_nth: "i \<le> length xs \<Longrightarrow> (offsets xs @ [length (concat xs)]) ! i = length (concat (take i xs))"
  by (auto simp: offsets_def nth_append)

lemma piece:
  assumes "i < length xs"
  shows "take (length (concat (take (Suc i) xs)) - length (concat (take i xs))) (drop (length (concat (take i xs))) (concat xs)) = xs ! i"
proof -
  have "concat xs = concat (take i xs) @ xs ! i @ concat (drop (Suc i) xs)"
    using assms by (metis append_take_drop_id concat.simps(2) concat_append id_take_nth_drop)
  with assms show ?thesis by (simp add: take_Suc_conv_app_nth)
qed

lemma piece_le: "i \<le> length xs \<Longrightarrow> length (concat (take i xs)) \<le> length (concat xs)"
  by (metis append_take_drop_id concat_append length_append le_add1)

lemma piece_mono: "length (concat (take i xs)) \<le> length (concat (take (Suc i) xs))"
  by (cases "i < length xs") (simp_all add: take_Suc_conv_app_nth)

end
