(* ===== verification/Interfaces.thy ===== *)
theory Interfaces
  imports Prelude
begin

section \<open>Interfaces between the components\<close>

text \<open>
  The contracts that one component offers and another relies on, as locales.  Every locale
  is interpreted on the model of the code in the theory of the component that provides it;
  the lemmas proved here hold for all providers.
\<close>

subsection \<open>Stores of distinct elements\<close>

text \<open>
  \<open>set_store\<close>: a mutable collection of distinct elements with a capacity (the number of
  elements its size fields can count) and with the elements it admits.  The operations are
  partial: \<open>None\<close> is undefined behaviour of the C code, and the laws say that it does not
  happen, as long as only admitted elements are added.
\<close>

datatype 'e set_op = SAdd 'e | SRemove 'e

fun run_set_ops ::
    "('s \<Rightarrow> 'e \<Rightarrow> ('s \<times> bool) option) \<Rightarrow> ('s \<Rightarrow> 'e \<Rightarrow> ('s \<times> bool) option) \<Rightarrow>
     's \<Rightarrow> 'e set_op list \<Rightarrow> ('s \<times> bool list) option" where
  "run_set_ops add rem s [] = Some (s, [])"
| "run_set_ops add rem s (SAdd x # ops) =
     do { (s, b) \<leftarrow> add s x; (s, bs) \<leftarrow> run_set_ops add rem s ops; Some (s, b # bs) }"
| "run_set_ops add rem s (SRemove x # ops) =
     do { (s, b) \<leftarrow> rem s x; (s, bs) \<leftarrow> run_set_ops add rem s ops; Some (s, b # bs) }"

fun spec_set_ops :: "'e set \<Rightarrow> 'e set_op list \<Rightarrow> 'e set \<times> bool list" where
  "spec_set_ops A [] = (A, [])"
| "spec_set_ops A (SAdd x # ops) =
     (let (B, bs) = spec_set_ops (insert x A) ops in (B, (x \<notin> A) # bs))"
| "spec_set_ops A (SRemove x # ops) =
     (let (B, bs) = spec_set_ops (A - {x}) ops in (B, (x \<in> A) # bs))"

definition added :: "'e set_op list \<Rightarrow> 'e set" where
  "added ops = {x. SAdd x \<in> set ops}"

lemma added_simps [simp]:
  "added [] = {}" "added (SAdd x # ops) = insert x (added ops)" "added (SRemove x # ops) = added ops"
  by (auto simp: added_def)

lemma finite_added [simp]: "finite (added ops)"
  by (rule finite_subset [of _ "(\<lambda>op. case op of SAdd x \<Rightarrow> x | SRemove x \<Rightarrow> x) ` set ops"]) (force simp: added_def)+

locale set_store =
  fixes invar :: "'s \<Rightarrow> bool"
    and elems :: "'s \<Rightarrow> 'e set"
    and capacity :: nat
    and admits :: "'e \<Rightarrow> bool"
    and add :: "'s \<Rightarrow> 'e \<Rightarrow> ('s \<times> bool) option"
    and rem :: "'s \<Rightarrow> 'e \<Rightarrow> ('s \<times> bool) option"
    and mem :: "'s \<Rightarrow> 'e \<Rightarrow> bool option"
  assumes finite_elems: "invar s \<Longrightarrow> finite (elems s)"
    and add_law: "invar s \<Longrightarrow> card (elems s) < capacity \<Longrightarrow> admits x \<Longrightarrow>
      \<exists>s'. add s x = Some (s', x \<notin> elems s) \<and> invar s' \<and> elems s' = insert x (elems s)"
    and rem_law: "invar s \<Longrightarrow>
      \<exists>s'. rem s x = Some (s', x \<in> elems s) \<and> invar s' \<and> elems s' = elems s - {x}"
    and mem_law: "invar s \<Longrightarrow> mem s x = Some (x \<in> elems s)"
begin

lemma run_refines:
  "invar s \<Longrightarrow> card (elems s \<union> added ops) < capacity \<Longrightarrow> \<forall>x \<in> added ops. admits x \<Longrightarrow>
   \<exists>s'. run_set_ops add rem s ops = Some (s', snd (spec_set_ops (elems s) ops)) \<and> invar s' \<and>
        elems s' = fst (spec_set_ops (elems s) ops)"
proof (induction ops arbitrary: s)
  case Nil
  then show ?case by simp
next
  case (Cons op ops)
  have fin: "finite (elems s)" by (rule finite_elems [OF Cons.prems(1)])
  have room: "card A < capacity" if "A \<subseteq> elems s \<union> added (op # ops)" for A
    using card_mono [OF _ that] fin Cons.prems(2) by simp
  show ?case
  proof (cases op)
    case (SAdd x)
    obtain s1 where s1: "add s x = Some (s1, x \<notin> elems s)" "invar s1" "elems s1 = insert x (elems s)"
      using add_law [OF Cons.prems(1) room, of x] Cons.prems(3) SAdd by auto
    have "card (elems s1 \<union> added ops) < capacity" by (rule room) (auto simp: s1(3) SAdd)
    from Cons.IH [OF s1(2) this] Cons.prems(3) s1 SAdd show ?thesis
      by (auto split: prod.splits)
  next
    case (SRemove x)
    obtain s1 where s1: "rem s x = Some (s1, x \<in> elems s)" "invar s1" "elems s1 = elems s - {x}"
      using rem_law [OF Cons.prems(1), of x] by auto
    have "card (elems s1 \<union> added ops) < capacity" by (rule room) (auto simp: s1(3) SRemove)
    from Cons.IH [OF s1(2) this] Cons.prems(3) s1 SRemove show ?thesis
      by (auto split: prod.splits)
  qed
qed

end

subsection \<open>Stores of key-value pairs\<close>

text \<open>
  \<open>map_store\<close>: a mutable finite map.  \<open>add\<close> refuses a key that is present, \<open>put\<close> overwrites its
  value, \<open>del\<close> removes it and \<open>get\<close> looks it up; all of them may reorganise the store.
  \<open>map_as_set\<close> uses the keys of such a store, with a dummy value, as a set, which is how the
  set type uses hash tables: it provides the contract \<open>set_store\<close>.
\<close>

datatype ('k, 'v) map_op = MAdd 'k 'v | MPut 'k 'v | MDel 'k | MGet 'k

datatype 'v map_res = RFlag bool | RVal "'v option"

fun run_map_op ::
    "('s \<Rightarrow> 'k \<Rightarrow> 'v \<Rightarrow> ('s \<times> bool) option) \<Rightarrow> ('s \<Rightarrow> 'k \<Rightarrow> 'v \<Rightarrow> ('s \<times> bool) option) \<Rightarrow>
     ('s \<Rightarrow> 'k \<Rightarrow> ('s \<times> bool) option) \<Rightarrow> ('s \<Rightarrow> 'k \<Rightarrow> ('s \<times> 'v option) option) \<Rightarrow>
     's \<Rightarrow> ('k, 'v) map_op \<Rightarrow> ('s \<times> 'v map_res) option" where
  "run_map_op add put del get s (MAdd k v) = map_option (map_prod id RFlag) (add s k v)"
| "run_map_op add put del get s (MPut k v) = map_option (map_prod id RFlag) (put s k v)"
| "run_map_op add put del get s (MDel k) = map_option (map_prod id RFlag) (del s k)"
| "run_map_op add put del get s (MGet k) = map_option (map_prod id RVal) (get s k)"

fun spec_map_op :: "('k \<Rightarrow> 'v option) \<Rightarrow> ('k, 'v) map_op \<Rightarrow> ('k \<Rightarrow> 'v option) \<times> 'v map_res" where
  "spec_map_op m (MAdd k v) = (if m k = None then m(k \<mapsto> v) else m, RFlag (m k = None))"
| "spec_map_op m (MPut k v) = (m(k \<mapsto> v), RFlag (m k = None))"
| "spec_map_op m (MDel k) = (m(k := None), RFlag (m k \<noteq> None))"
| "spec_map_op m (MGet k) = (m, RVal (m k))"

fun run_ops :: "('s \<Rightarrow> 'o \<Rightarrow> ('s \<times> 'r) option) \<Rightarrow> 's \<Rightarrow> 'o list \<Rightarrow> ('s \<times> 'r list) option" where
  "run_ops step s [] = Some (s, [])"
| "run_ops step s (x # xs) =
     do { (s, r) \<leftarrow> step s x; (s, rs) \<leftarrow> run_ops step s xs; Some (s, r # rs) }"

fun spec_ops :: "('m \<Rightarrow> 'o \<Rightarrow> 'm \<times> 'r) \<Rightarrow> 'm \<Rightarrow> 'o list \<Rightarrow> 'm \<times> 'r list" where
  "spec_ops step m [] = (m, [])"
| "spec_ops step m (x # xs) =
     (let (m, r) = step m x; (m, rs) = spec_ops step m xs in (m, r # rs))"

locale map_store =
  fixes invar :: "'s \<Rightarrow> bool"
    and amap :: "'s \<Rightarrow> 'k \<Rightarrow> 'v option"
    and capacity :: nat
    and add :: "'s \<Rightarrow> 'k \<Rightarrow> 'v \<Rightarrow> ('s \<times> bool) option"
    and put :: "'s \<Rightarrow> 'k \<Rightarrow> 'v \<Rightarrow> ('s \<times> bool) option"
    and del :: "'s \<Rightarrow> 'k \<Rightarrow> ('s \<times> bool) option"
    and get :: "'s \<Rightarrow> 'k \<Rightarrow> ('s \<times> 'v option) option"
  assumes finite_amap: "invar s \<Longrightarrow> finite (dom (amap s))"
    and add_law: "invar s \<Longrightarrow> card (dom (amap s)) < capacity \<Longrightarrow>
      \<exists>s'. add s k v = Some (s', amap s k = None) \<and> invar s' \<and>
           amap s' = (if amap s k = None then (amap s)(k \<mapsto> v) else amap s)"
    and put_law: "invar s \<Longrightarrow> card (dom (amap s)) < capacity \<Longrightarrow>
      \<exists>s'. put s k v = Some (s', amap s k = None) \<and> invar s' \<and> amap s' = (amap s)(k \<mapsto> v)"
    and del_law: "invar s \<Longrightarrow>
      \<exists>s'. del s k = Some (s', amap s k \<noteq> None) \<and> invar s' \<and> amap s' = (amap s)(k := None)"
    and get_law: "invar s \<Longrightarrow> \<exists>s'. get s k = Some (s', amap s k) \<and> invar s' \<and> amap s' = amap s"
begin

lemma op_refines:
  assumes "invar s" "card (dom (amap s)) < capacity"
  shows "\<exists>s'. run_map_op add put del get s x = Some (s', snd (spec_map_op (amap s) x)) \<and> invar s' \<and>
    amap s' = fst (spec_map_op (amap s) x)"
proof (cases x)
  case (MAdd k v)
  then show ?thesis using add_law [OF assms, of k v] by auto
next
  case (MPut k v)
  then show ?thesis using put_law [OF assms, of k v] by auto
next
  case (MDel k)
  then show ?thesis using del_law [OF assms(1), of k] by auto
next
  case (MGet k)
  then show ?thesis using get_law [OF assms(1), of k] by auto
qed

lemma card_dom_spec:
  "finite (dom m) \<Longrightarrow> card (dom (fst (spec_map_op m x))) \<le> Suc (card (dom m))"
  by (cases x) (auto simp: card_insert_if card_Diff1_le intro: le_SucI)

lemma map_run_refines:
  "invar s \<Longrightarrow> card (dom (amap s)) + length xs \<le> capacity \<Longrightarrow>
   \<exists>s'. run_ops (run_map_op add put del get) s xs = Some (s', snd (spec_ops spec_map_op (amap s) xs)) \<and>
        invar s' \<and> amap s' = fst (spec_ops spec_map_op (amap s) xs)"
proof (induction xs arbitrary: s)
  case (Cons x xs)
  obtain s1 where s1: "run_map_op add put del get s x = Some (s1, snd (spec_map_op (amap s) x))"
      "invar s1" "amap s1 = fst (spec_map_op (amap s) x)"
    using op_refines [OF Cons.prems(1), of x] Cons.prems(2) by auto
  have "card (dom (amap s1)) + length xs \<le> capacity"
    using card_dom_spec [OF finite_amap [OF Cons.prems(1)], of x] Cons.prems(2) s1(3) by simp
  from Cons.IH [OF s1(2) this] s1 show ?case by (auto simp: split_def Let_def)
qed simp

end

locale map_as_set = map_store invar amap capacity add put del get
  for invar :: "'s \<Rightarrow> bool" and amap :: "'s \<Rightarrow> 'k \<Rightarrow> 'v option" and capacity add put del get +
  fixes dummy :: 'v

sublocale map_as_set \<subseteq> keys: set_store invar "\<lambda>s. dom (amap s)" capacity "\<lambda>_. True"
  "\<lambda>s k. add s k dummy" del "\<lambda>s k. map_option (\<lambda>(s, v). v \<noteq> None) (get s k)"
proof
  fix s k
  assume i: "invar s"
  show "finite (dom (amap s))" by (rule finite_amap [OF i])
  show "\<exists>s'. del s k = Some (s', k \<in> dom (amap s)) \<and> invar s' \<and> dom (amap s') = dom (amap s) - {k}"
    using del_law [OF i, of k] by (auto simp: domIff)
  show "map_option (\<lambda>(s, v). v \<noteq> None) (get s k) = Some (k \<in> dom (amap s))"
    using get_law [OF i, of k] by (auto simp: domIff)
  assume "card (dom (amap s)) < capacity"
  from add_law [OF i this, of k dummy]
  show "\<exists>s'. add s k dummy = Some (s', k \<notin> dom (amap s)) \<and> invar s' \<and> dom (amap s') = insert k (dom (amap s))"
    by (auto simp: domIff)
qed

subsection \<open>Partial codecs\<close>

text \<open>
  \<open>partial_codec\<close>: an encoder and a decoder that accepts exactly the encodings.  The client
  that stores decoded values (the integer set behind a set of strings) needs that decoding is
  injective and that membership can be moved through the codec.
\<close>

locale partial_codec =
  fixes encode :: "'a \<Rightarrow> 'b" and decode :: "'b \<Rightarrow> 'a option"
  assumes decode_iff: "decode b = Some a \<longleftrightarrow> b = encode a"
begin

lemma decode_encode [simp]: "decode (encode a) = Some a"
  by (simp add: decode_iff)

lemma encode_inj: "encode a = encode b \<longleftrightarrow> a = b"
  by (metis decode_encode option.inject)

lemma decode_None: "decode b = None \<longleftrightarrow> b \<notin> range encode"
  by (metis decode_iff not_None_eq rangeE rangeI)

lemma decode_mem: "decode b = Some a \<Longrightarrow> b \<in> encode ` A \<longleftrightarrow> a \<in> A"
  by (auto simp: decode_iff encode_inj)

lemma encode_insert: "decode b = Some a \<Longrightarrow> encode ` insert a A = insert b (encode ` A)"
  by (simp add: decode_iff)

lemma encode_remove: "decode b = Some a \<Longrightarrow> encode ` (A - {a}) = encode ` A - {b}"
  by (auto simp: decode_iff encode_inj)

end

subsection \<open>Codecs for parts of a message\<close>

text \<open>
  \<open>prefix_codec\<close>: an encoder whose output can be read back in front of any other bytes, which is
  what a format needs that writes one field after the other.  \<open>codec_pair\<close> composes two of them.
\<close>

locale prefix_codec =
  fixes valid :: "'a \<Rightarrow> bool" and enc :: "'a \<Rightarrow> 'b list" and dec :: "'b list \<Rightarrow> ('a \<times> 'b list) option"
  assumes dec_enc: "valid a \<Longrightarrow> dec (enc a @ rest) = Some (a, rest)"
begin

lemma dec_enc_end: "valid a \<Longrightarrow> dec (enc a) = Some (a, [])"
  using dec_enc [of a "[]"] by simp

lemma prefix_free: "valid a \<Longrightarrow> valid b \<Longrightarrow> enc a @ r = enc b @ s \<longleftrightarrow> a = b \<and> r = s"
  by (metis dec_enc option.inject prod.inject)

end

locale codec_pair = a: prefix_codec valid_a enc_a dec_a + b: prefix_codec valid_b enc_b dec_b
  for valid_a :: "'a \<Rightarrow> bool" and enc_a :: "'a \<Rightarrow> 'c list" and dec_a
    and valid_b :: "'b \<Rightarrow> bool" and enc_b :: "'b \<Rightarrow> 'c list" and dec_b

sublocale codec_pair \<subseteq> pair: prefix_codec "\<lambda>(x, y). valid_a x \<and> valid_b y" "\<lambda>(x, y). enc_a x @ enc_b y"
  "\<lambda>bs. do { (x, bs) \<leftarrow> dec_a bs; (y, bs) \<leftarrow> dec_b bs; Some ((x, y), bs) }"
  by unfold_locales (auto simp: a.dec_enc b.dec_enc)

end
