(* ===== verification/Util.thy ===== *)
theory Util
  imports Interfaces
begin

section \<open>String and number conversions (\<open>redis-5.0/src/util.c\<close>)\<close>

text \<open>
  Decimal conversion of 64-bit integers in both directions (\<open>digits10\<close>, \<open>sdigits10\<close>,
  \<open>ll2string\<close>, \<open>string2ll\<close>, \<open>string2l\<close>).  \<open>long\<close> and \<open>long long\<close> are 64 bits wide.
  Characters are bytes; \<open>ch\<close> gives the byte of a character constant.
\<close>

definition ch :: "char \<Rightarrow> byte" where
  "ch c = of_char c"

lemma ch_simps [simp]:
  "ch CHR ''-'' = 45" "ch CHR ''0'' = 48" "ch CHR ''1'' = 49" "ch CHR ''9'' = 57"
  by (simp_all add: ch_def)

definition ULLONG_MAX :: "64 word" where "ULLONG_MAX = - 1"
definition LLONG_MAX :: "64 word" where "LLONG_MAX = 2 ^ 63 - 1"
definition LLONG_MIN :: "64 word" where "LLONG_MIN = - (2 ^ 63)"

lemmas ll_limits = ULLONG_MAX_def LLONG_MAX_def LLONG_MIN_def

subsection \<open>Number of digits\<close>

definition b2w :: "bool \<Rightarrow> 32 word" where
  "b2w b = (if b then 1 else 0)"

function digits10 :: "64 word \<Rightarrow> 32 word" where
  "digits10 v =
     (if v < 10 then 1
      else if v < 100 then 2
      else if v < 1000 then 3
      else if v < 1000000000000 then
        (if v < 100000000 then
           (if v < 1000000 then
              (if v < 10000 then 4 else 5 + b2w (v \<ge> 100000))
            else 7 + b2w (v \<ge> 10000000))
         else if v < 10000000000 then 9 + b2w (v \<ge> 1000000000)
         else 11 + b2w (v \<ge> 100000000000))
      else 12 + digits10 (v div 1000000000000))"
  by pat_completeness auto
termination
proof (relation "measure unat")
  fix v :: "64 word"
  assume "\<not> v < 1000"
  then have "0 < unat v" by (simp add: word_less_nat_alt)
  then show "(v div 1000000000000, v) \<in> measure unat" by (simp add: unat_div_distrib)
qed simp

declare digits10.simps [simp del]

definition sdigits10 :: "64 word \<Rightarrow> 32 word" where
  "sdigits10 v =
     (if sint v < 0 then
        (let uv = (if v \<noteq> LLONG_MIN then - v else LLONG_MAX + 1) in digits10 uv + 1)
      else digits10 v)"

subsection \<open>From number to string\<close>

definition digits :: bytes where
  "digits = map ch (''0001020304050607080910111213141516171819'' @
                    ''2021222324252627282930313233343536373839'' @
                    ''4041424344454647484950515253545556575859'' @
                    ''6061626364656667686970717273747576777879'' @
                    ''8081828384858687888990919293949596979899'')"

function ll2string_loop :: "64 word \<Rightarrow> 32 word \<Rightarrow> bytes \<Rightarrow> (64 word \<times> 32 word \<times> bytes) option" where
  "ll2string_loop value next dst =
     (if value \<ge> 100 then
        (let i = unat ((value mod 100) * 2);
             value = value div 100
         in do {
           d1 \<leftarrow> mem_get (i + 1) digits;
           dst \<leftarrow> mem_write (unat next) [d1] dst;
           d0 \<leftarrow> mem_get i digits;
           dst \<leftarrow> mem_write (unat (next - 1)) [d0] dst;
           ll2string_loop value (next - 2) dst })
      else Some (value, next, dst))"
  by pat_completeness auto
termination
proof (relation "measure (\<lambda>(value, next, dst). unat value)", goal_cases)
  case (2 v)
  then have "0 < unat v" by (simp add: word_le_nat_alt)
  then show ?case using 2 by (simp add: unat_div_distrib)
qed simp

declare ll2string_loop.simps [simp del]

text \<open>\<open>ll2string_last\<close>: the last one or two digits.\<close>

definition ll2string_last :: "64 word \<Rightarrow> 32 word \<Rightarrow> bytes \<Rightarrow> bytes option" where
  "ll2string_last value next dst =
     (if value < 10 then mem_write (unat next) [ch CHR ''0'' + ucast value] dst
      else (let i = unat (ucast value * 2 :: 32 word) in
        do { d1 \<leftarrow> mem_get (i + 1) digits;
             dst \<leftarrow> mem_write (unat next) [d1] dst;
             d0 \<leftarrow> mem_get i digits;
             mem_write (unat (next - 1)) [d0] dst }))"

text \<open>
  \<open>ll2string\<close> returns the number of characters (0 when they and the terminator do not fit)
  and the buffer it wrote.
\<close>

definition ll2string :: "bytes \<Rightarrow> nat \<Rightarrow> 64 word \<Rightarrow> (nat \<times> bytes) option" where
  "ll2string dst dstlen svalue =
     (let negative = (sint svalue < 0);
          value = (if negative then (if svalue \<noteq> LLONG_MIN then - svalue else LLONG_MAX + 1)
                   else svalue);
          len = digits10 value + b2w negative
      in if unat len \<ge> dstlen then Some (0, dst)
         else do {
           dst \<leftarrow> mem_write (unat len) [0] dst;
           (value, next, dst) \<leftarrow> ll2string_loop value (len - 1) dst;
           dst \<leftarrow> ll2string_last value next dst;
           dst \<leftarrow> (if negative then mem_write 0 [ch CHR ''-''] dst else Some dst);
           Some (unat len, dst) })"

subsection \<open>From string to number\<close>

text \<open>
  The digit loop of \<open>string2ll\<close>: \<open>None\<close> is the return on overflow, otherwise the value and
  the rest of the string at the first byte that is not a digit.
\<close>

fun string2ll_loop :: "64 word \<Rightarrow> bytes \<Rightarrow> (64 word \<times> bytes) option" where
  "string2ll_loop v [] = Some (v, [])"
| "string2ll_loop v (c # p) =
     (if ch CHR ''0'' \<le> c \<and> c \<le> ch CHR ''9'' then
        (if v > ULLONG_MAX div 10 then None
         else if v * 10 > ULLONG_MAX - ucast (c - ch CHR ''0'') then None
         else string2ll_loop (v * 10 + ucast (c - ch CHR ''0'')) p)
      else Some (v, c # p))"

definition string2ll :: "bytes \<Rightarrow> 64 word option" where
  "string2ll s =
     (if s = [] then None
      else if s = [ch CHR ''0''] then Some 0
      else
        (let negative = (hd s = ch CHR ''-'');
             p = (if negative then tl s else s)
         in case p of
              [] \<Rightarrow> None
            | c # p' \<Rightarrow>
                if ch CHR ''1'' \<le> c \<and> c \<le> ch CHR ''9'' then
                  do {
                    (v, rest) \<leftarrow> string2ll_loop (ucast (c - ch CHR ''0'')) p';
                    (if rest \<noteq> [] then None
                     else if negative then
                       (if v > - (LLONG_MIN + 1) + 1 then None else Some (- v))
                     else if v > LLONG_MAX then None else Some v) }
                else None))"

definition string2l :: "bytes \<Rightarrow> 64 word option" where
  "string2l s =
     do { llval \<leftarrow> string2ll s;
          (if sint llval < sint LLONG_MIN \<or> sint llval > sint LLONG_MAX then None else Some llval) }"


subsection \<open>Decimal notation\<close>

text \<open>The reference: decimal digits of a natural number and of an integer.\<close>

fun dec :: "nat \<Rightarrow> bytes" where
  "dec n = (if n < 10 then [48 + of_nat n] else dec (n div 10) @ [48 + of_nat (n mod 10)])"

declare dec.simps [simp del]

definition sdec :: "int \<Rightarrow> bytes" where
  "sdec x = (if x < 0 then 45 # dec (nat (- x)) else dec (nat x))"

lemma dec_small: "n < 10 \<Longrightarrow> dec n = [48 + of_nat n]"
  by (simp add: dec.simps)

lemma dec_step: "10 \<le> n \<Longrightarrow> dec n = dec (n div 10) @ [48 + of_nat (n mod 10)]"
  by (subst dec.simps) simp

lemma length_dec_pos: "0 < length (dec n)"
  by (subst dec.simps) simp

lemma length_dec_shift: "10 ^ k \<le> n \<Longrightarrow> length (dec n) = k + length (dec (n div 10 ^ k))"
proof (induction k arbitrary: n)
  case 0
  then show ?case by simp
next
  case (Suc k)
  have "10 ^ k \<le> n div 10" using Suc.prems by (simp add: less_eq_div_iff_mult_less_eq mult.commute)
  moreover have "(10 :: nat) * 1 \<le> 10 * 10 ^ k" by (intro mult_le_mono2) simp
  then have "10 \<le> n" using Suc.prems by (simp only: power_Suc)
  ultimately show ?case using Suc.IH [of "n div 10"] dec_step [of n]
    by (simp add: div_mult2_eq mult.commute)
qed

lemma length_dec: "10 ^ k \<le> n \<Longrightarrow> n < 10 ^ Suc k \<Longrightarrow> length (dec n) = Suc k"
  using length_dec_shift [of k n] dec_small [of "n div 10 ^ k"]
  by (simp add: less_mult_imp_div_less)

lemma length_dec_le: "n < 10 ^ k \<Longrightarrow> 0 < k \<Longrightarrow> length (dec n) \<le> k"
proof (induction k arbitrary: n)
  case 0
  then show ?case by simp
next
  case (Suc k)
  show ?case
  proof (cases "n < 10")
    case True
    then show ?thesis by (simp add: dec_small)
  next
    case False
    then have "n div 10 < 10 ^ k" and "0 < k"
      using Suc.prems by (auto simp: less_mult_imp_div_less mult.commute intro: Nat.gr0I)
    with Suc.IH False show ?thesis by (simp add: dec_step)
  qed
qed

lemma length_dec_word: "length (dec (unat (v :: 64 word))) \<le> 20"
  by (rule length_dec_le) (use unat_less [of v] in simp_all)

lemma unat_b2w: "unat (b2w b) = of_bool b"
  by (simp add: b2w_def)

lemma length_dec_1: "n < 10 \<Longrightarrow> length (dec n) = 1"
  by (simp add: dec_small)

lemma digits10_len: "unat (digits10 v) = length (dec (unat v))"
proof (induction v rule: digits10.induct)
  case (1 v)
  have ld: "length (dec (unat v)) = Suc k" if "10 ^ k \<le> unat v" "unat v < 10 ^ Suc k" for k
    using that by (rule length_dec)
  show ?case
  proof (cases "v < 1000000000000")
    case True
    then show ?thesis
      using ld [of 1] ld [of 2] ld [of 3] ld [of 4] ld [of 5] ld [of 6] ld [of 7] ld [of 8] ld [of 9]
        ld [of 10] ld [of 11] length_dec_1 [of "unat v"]
      by (subst digits10.simps) (auto simp: word_less_nat_alt word_le_nat_alt b2w_def)
  next
    case False
    let ?q = "v div 1000000000000"
    have ih: "unat (digits10 ?q) = length (dec (unat ?q))"
      using False by (intro "1.IH") (auto simp: word_less_nat_alt)
    have "length (dec (unat v)) = 12 + length (dec (unat v div 10 ^ 12))"
      using False by (intro length_dec_shift) (simp add: word_less_nat_alt)
    moreover have "unat ?q = unat v div 10 ^ 12" by (simp add: unat_div_distrib)
    moreover have "unat (12 + digits10 ?q) = 12 + unat (digits10 ?q)"
      using length_dec_word [of ?q] ih by (simp add: unat_word_ariths)
    ultimately show ?thesis using False ih
      by (subst digits10.simps) (auto simp: word_less_nat_alt)
  qed
qed


subsection \<open>Correctness of \<open>ll2string\<close>\<close>

lemma length_digits: "length digits = 200"
  by (simp add: digits_def)

lemma digits_table:
  "digits = concat (map (\<lambda>r. [48 + of_nat (r div 10), 48 + of_nat (r mod 10)]) [0..<100])"
  by (simp add: digits_def ch_def upt_conv_Cons)

lemma digits_nth:
  assumes "r < 100"
  shows "mem_get (2 * r) digits = Some (48 + of_nat (r div 10))"
    "mem_get (Suc (2 * r)) digits = Some (48 + of_nat (r mod 10))"
proof -
  have "mem_read (2 * r) 2 digits = Some [48 + of_nat (r div 10), 48 + of_nat (r mod 10)]"
    using mem_read_chunk [of "\<lambda>r. [48 + of_nat (r div 10), 48 + of_nat (r mod 10)]" 2 r "[0..<100]" "[]"] assms
    unfolding digits_table by simp
  then show "mem_get (2 * r) digits = Some (48 + of_nat (r div 10))"
    "mem_get (Suc (2 * r)) digits = Some (48 + of_nat (r mod 10))"
    using assms
    by (auto simp: mem_read_def mem_get_def length_digits take_Suc_conv_app_nth numeral_2_eq_2 hd_drop_conv_nth split: if_splits)
qed

lemma mem_write_one: "length A = off \<Longrightarrow> mem_write off [b] (A @ x # C) = Some (A @ b # C)"
  using mem_write_append [of A off "[x]" "[b]" C] by simp

lemma dec_two: "10 \<le> n \<Longrightarrow> n < 100 \<Longrightarrow> dec n = [48 + of_nat (n div 10), 48 + of_nat (n mod 10)]"
  by (simp add: dec_step dec_small)

lemma dec_hundred:
  assumes "100 \<le> n"
  shows "dec n = dec (n div 100) @ [48 + of_nat (n mod 100 div 10), 48 + of_nat (n mod 100 mod 10)]"
proof -
  have "dec n = (dec (n div 10 div 10) @ [48 + of_nat (n div 10 mod 10)]) @ [48 + of_nat (n mod 10)]"
    using assms by (simp add: dec_step)
  moreover have "n div 10 mod 10 = n mod 100 div 10" and "n mod 100 mod 10 = n mod 10"
    using mod_mult2_eq [of n 10 10] by (simp_all add: mod_mod_cancel)
  ultimately show ?thesis by (simp add: div_mult2_eq [symmetric])
qed

lemma write_two:
  assumes "r < 100" and "length A = off" and nx: "unat (next :: 32 word) = Suc off"
  shows "(do { d1 \<leftarrow> mem_get (2 * r + 1) digits;
               dst \<leftarrow> mem_write (unat next) [d1] (A @ h0 # h1 # C);
               d0 \<leftarrow> mem_get (2 * r) digits;
               dst \<leftarrow> mem_write (unat (next - 1)) [d0] dst;
               k dst })
         = k (A @ [48 + of_nat (r div 10), 48 + of_nat (r mod 10)] @ C)"
proof -
  have "next \<noteq> 0" using nx by auto
  then have u: "unat (next - 1) = off" using nx by (simp add: unat_minus_one)
  have w1: "mem_write (Suc off) [b] (A @ h0 # h1 # C) = Some (A @ h0 # b # C)" for b
    using mem_write_one [of "A @ [h0]" "Suc off" b h1 C] assms(2) by simp
  show ?thesis
    using assms(2) by (simp add: u nx w1 digits_nth [OF assms(1)] mem_write_one)
qed

lemma snoc2:
  assumes "length xs = n + 2"
  shows "\<exists>ys a b. xs = ys @ [a, b] \<and> length ys = n"
proof -
  have "length (drop n xs) = 2" using assms by simp
  then obtain a b where "drop n xs = [a, b]" by (metis length_0_conv length_Suc_conv numeral_2_eq_2)
  then have "xs = take n xs @ [a, b]" by (metis append_take_drop_id)
  moreover have "length (take n xs) = n" using assms by simp
  ultimately show ?thesis by blast
qed

lemma ll2string_digits:
  assumes "dst = A @ H @ R" and "length H = length (dec (unat v))"
    and "unat nx + 1 = length A + length H"
  shows "(do { (v, nx, dst) \<leftarrow> ll2string_loop v nx dst; ll2string_last v nx dst })
         = Some (A @ dec (unat v) @ R)"
  using assms
proof (induction "unat v" arbitrary: v nx dst H R rule: less_induct)
  case less
  let ?n = "unat v"
  show ?case
  proof (cases "v \<ge> 100")
    case True
    then have n: "100 \<le> ?n" by (simp add: word_le_nat_alt)
    obtain H' h0 h1 where H: "H = H' @ [h0, h1]" "length H' = length (dec (?n div 100))"
      using snoc2 [of H "length (dec (?n div 100))"] less.prems(2) dec_hundred [OF n] by auto
    have q: "unat (v div 100) = ?n div 100" by (simp add: unat_div_distrib)
    have r: "unat (v mod 100 * 2) = 2 * (?n mod 100)"
      by (simp add: unat_word_ariths unat_mod_distrib)
    have pos: "0 < length H'" using H(2) length_dec_pos by simp
    have nx: "unat nx = Suc (length (A @ H'))" using less.prems(3) H(1) by simp
    then have nx2: "unat (nx - 2) + 1 = length A + length H'"
      using pos by (subst unat_sub) (simp_all add: word_le_nat_alt Suc_le_eq)
    let ?R = "[48 + of_nat (?n mod 100 div 10), 48 + of_nat (?n mod 100 mod 10)] @ R"
    have ih: "(do { (v, nx, dst) \<leftarrow> ll2string_loop (v div 100) (nx - 2) (A @ H' @ ?R);
                    ll2string_last v nx dst }) = Some (A @ dec (unat (v div 100)) @ ?R)"
      using n q H(2) nx2 by (intro less.hyps [where H = H']) simp_all
    have "ll2string_loop v nx dst = ll2string_loop (v div 100) (nx - 2) (A @ H' @ ?R)"
      using True less.prems(1) H(1)
        write_two [of "?n mod 100" "A @ H'" "length (A @ H')" nx h0 h1 R
          "\<lambda>dst. ll2string_loop (v div 100) (nx - 2) dst", OF _ refl nx]
      by (subst ll2string_loop.simps) (simp add: Let_def r)
    then show ?thesis using ih q dec_hundred [OF n] by simp
  next
    case False
    then have n: "?n < 100" by (simp add: word_le_nat_alt)
    have loop: "ll2string_loop v nx dst = Some (v, nx, dst)"
      using False by (subst ll2string_loop.simps) simp
    have "ll2string_last v nx dst = Some (A @ dec ?n @ R)"
    proof (cases "v < 10")
      case True
      then have n: "?n < 10" by (simp add: word_less_nat_alt)
      obtain h where "H = [h]" using less.prems(2) n by (auto simp: dec_small length_Suc_conv)
      moreover have "ucast v = (of_nat ?n :: byte)" by simp
      ultimately show ?thesis using True n less.prems(1,3)
        by (simp add: ll2string_last_def mem_write_one dec_small)
    next
      case False
      then have n10: "10 \<le> ?n" by (simp add: word_less_nat_alt)
      obtain h0 h1 where H: "H = [h0, h1]"
        using less.prems(2) snoc2 [of H 0] n n10 by (auto simp: dec_two)
      have r: "unat (ucast v * 2 :: 32 word) = 2 * ?n"
        using n by (simp add: unat_word_ariths unsigned_ucast_eq take_bit_nat_eq_self)
      have nx: "unat nx = Suc (length A)" using less.prems(3) H by simp
      then show ?thesis
        using False less.prems(1) H n n10 r write_two [of ?n A "length A" nx h0 h1 R Some, OF n refl nx]
        by (simp add: ll2string_last_def dec_two)
    qed
    then show ?thesis using loop by simp
  qed
qed

lemma ll_magnitude:
  "unat (if sint v < 0 then (if v \<noteq> LLONG_MIN then - v else LLONG_MAX + 1) else v) = nat \<bar>sint v\<bar>"
proof -
  have mn: "LLONG_MAX + 1 = LLONG_MIN" by (simp add: ll_limits)
  have neg: "- LLONG_MIN = LLONG_MIN" by (simp add: ll_limits)
  have "uint (- v) = - sint v" if "sint v < 0"
  proof -
    have "uint (- v) = uint (word_of_int (- sint v) :: 64 word)" by simp
    also have "\<dots> = - sint v"
      using that sint_range_size [of v] by (intro uint_word_of_int_small) (simp_all add: word_size)
    finally show ?thesis .
  qed
  moreover have "uint v = sint v" if "\<not> sint v < 0"
  proof -
    have "uint v = uint (word_of_int (sint v) :: 64 word)" by simp
    also have "\<dots> = sint v"
      using that sint_range_size [of v] by (intro uint_word_of_int_small) (simp_all add: word_size)
    finally show ?thesis .
  qed
  ultimately show ?thesis using mn neg by (cases "sint v < 0"; cases "v = LLONG_MIN") (simp_all flip: nat_uint_eq)
qed

lemma length_sdec: "length (sdec x) = length (dec (nat \<bar>x\<bar>)) + of_bool (x < 0)"
  by (auto simp: sdec_def)

lemma ll2string_spec:
  assumes "length (sdec (sint v)) < dstlen" and "dstlen \<le> length dst"
  shows "ll2string dst dstlen v = Some (length (sdec (sint v)),
           sdec (sint v) @ 0 # drop (length (sdec (sint v)) + 1) dst)"
proof -
  define uv where "uv = (if sint v < 0 then (if v \<noteq> LLONG_MIN then - v else LLONG_MAX + 1) else v)"
  define d where "d = dec (unat uv)"
  let ?neg = "sint v < 0"
  have uv: "unat uv = nat \<bar>sint v\<bar>" unfolding uv_def by (rule ll_magnitude)
  have d: "sdec (sint v) = (if ?neg then 45 # d else d)" by (simp add: sdec_def d_def uv)
  have dl: "length d \<le> 20" "0 < length d" unfolding d_def by (rule length_dec_word, rule length_dec_pos)
  define len where "len = digits10 uv + b2w ?neg"
  have ul: "unat len = length (sdec (sint v))"
    using dl digits10_len [of uv] by (simp add: len_def unat_word_ariths unat_b2w d d_def)
  let ?n = "length (sdec (sint v))"
  have n: "?n < length dst" using assms by simp
  define H where "H = drop (of_bool ?neg) (take ?n dst)"
  define A where "A = take (of_bool ?neg) (take ?n dst)"
  define R where "R = 0 # drop (Suc ?n) dst"
  have lA: "length A = of_bool ?neg" using n d by (auto simp: A_def)
  have lH: "length H = length d" using n d by (auto simp: H_def)
  have AH: "A @ H = take ?n dst" unfolding A_def H_def by (rule append_take_drop_id)
  have "mem_write (unat len) [0] dst = Some ((A @ H) @ R)"
    unfolding AH using n by (simp add: mem_write_def ul R_def)
  then have w0: "mem_write (unat len) [0] dst = Some (A @ H @ R)" by simp
  have "len \<noteq> 0" using ul d dl by (auto split: if_splits)
  then have nx: "unat (len - 1) + 1 = length A + length H"
    using ul d dl lA lH by (auto simp: unat_minus_one)
  have dig: "(do { (v, nx, dst) \<leftarrow> ll2string_loop uv (len - 1) (A @ H @ R); ll2string_last v nx dst })
      = Some (A @ d @ R)"
    unfolding d_def by (rule ll2string_digits [OF refl _ nx]) (use lH in \<open>simp add: d_def\<close>)
  have sgn: "(if ?neg then mem_write 0 [ch CHR ''-''] (A @ d @ R) else Some (A @ d @ R))
      = Some (sdec (sint v) @ R)"
    using lA by (auto simp: d mem_write_def)
  obtain v' nx' dst' where l: "ll2string_loop uv (len - 1) (A @ H @ R) = Some (v', nx', dst')"
    using dig by (cases "ll2string_loop uv (len - 1) (A @ H @ R)") auto
  have la: "ll2string_last v' nx' dst' = Some (A @ d @ R)" using dig l by simp
  have "ll2string dst dstlen v = Some (unat len, sdec (sint v) @ R)"
    unfolding ll2string_def Let_def uv_def [symmetric] len_def [symmetric]
    using assms(1) ul w0 l la sgn by (simp add: not_le split del: if_split)
  then show ?thesis by (simp add: ul R_def)
qed


subsection \<open>Correctness of \<open>string2ll\<close>\<close>

definition is_digit :: "byte \<Rightarrow> bool" where
  "is_digit c \<longleftrightarrow> 48 \<le> c \<and> c \<le> 57"

fun undec :: "nat \<Rightarrow> bytes \<Rightarrow> nat" where
  "undec a [] = a"
| "undec a (c # p) = undec (a * 10 + unat (c - 48)) p"

lemma undec_append: "undec a (p @ q) = undec (undec a p) q"
  by (induction a p rule: undec.induct) auto

lemma undec_mono: "a \<le> undec a p"
proof (induction p arbitrary: a)
  case (Cons c p)
  have "a \<le> a * 10 + unat (c - 48)" by simp
  also have "\<dots> \<le> undec (a * 10 + unat (c - 48)) p" by (rule Cons.IH)
  finally show ?case by simp
qed simp

lemma digit_val: "is_digit c \<Longrightarrow> unat (c - 48) < 10 \<and> 48 + of_nat (unat (c - 48)) = c"
  by (auto simp: is_digit_def word_le_nat_alt unat_sub)

lemma digit_of_nat: "d < 10 \<Longrightarrow> is_digit (48 + of_nat d) \<and> unat (48 + of_nat d - 48 :: byte) = d"
  by (auto simp: is_digit_def word_le_nat_alt unat_word_ariths unat_word_of_nat)

lemma dec_digits: "list_all is_digit (dec n)"
proof (induction n rule: dec.induct)
  case (1 n)
  then show ?case using digit_of_nat [of n] digit_of_nat [of "n mod 10"] by (cases "n < 10") (auto simp: dec_small dec_step)
qed

lemma undec_dec: "undec 0 (dec n) = n"
proof (induction n rule: dec.induct)
  case (1 n)
  then show ?case using digit_of_nat [of n] digit_of_nat [of "n mod 10"]
    by (cases "n < 10") (auto simp: dec_small dec_step undec_append)
qed

lemma dec_undec: "0 < a \<Longrightarrow> list_all is_digit p \<Longrightarrow> dec (undec a p) = dec a @ p"
proof (induction p arbitrary: a)
  case (Cons c p)
  have c: "unat (c - 48) < 10" "48 + of_nat (unat (c - 48)) = c" using Cons.prems digit_val by auto
  have "dec (a * 10 + unat (c - 48)) = dec a @ [c]"
    using Cons.prems(1) c by (subst dec_step) simp_all
  then show ?case using Cons.IH [of "a * 10 + unat (c - 48)"] Cons.prems by simp
qed simp

lemma ullong_step:
  fixes v :: "64 word" and c :: byte
  assumes "is_digit c"
  shows "v \<le> ULLONG_MAX div 10 \<and> v * 10 \<le> ULLONG_MAX - ucast (c - 48) \<longleftrightarrow>
           unat v * 10 + unat (c - 48) < 2 ^ 64"
    and "unat v * 10 + unat (c - 48) < 2 ^ 64 \<Longrightarrow>
           unat (v * 10 + ucast (c - 48)) = unat v * 10 + unat (c - 48)"
proof -
  have d: "unat (c - 48) < 10" using assms digit_val by blast
  have u: "unat (ucast (c - 48) :: 64 word) = unat (c - 48)"
    using d by (simp add: unsigned_ucast_eq take_bit_nat_eq_self)
  have mx: "unat ULLONG_MAX = 2 ^ 64 - 1" by (simp add: ULLONG_MAX_def unsigned_minus_1_eq_mask mask_eq_exp_minus_1)
  have v10: "v \<le> ULLONG_MAX div 10 \<longleftrightarrow> unat v \<le> (2 ^ 64 - 1) div 10"
    by (simp add: word_le_nat_alt unat_div_distrib mx)
  have sub: "unat (ULLONG_MAX - ucast (c - 48)) = 2 ^ 64 - 1 - unat (c - 48)"
    using d by (subst unat_sub) (simp_all add: word_le_nat_alt u mx)
  have m: "unat (v * 10) = unat v * 10" if "unat v \<le> (2 ^ 64 - 1) div 10"
    using that by (simp add: unat_word_ariths)
  have "v * 10 \<le> ULLONG_MAX - ucast (c - 48) \<longleftrightarrow> unat v * 10 + unat (c - 48) < 2 ^ 64"
    if "unat v \<le> (2 ^ 64 - 1) div 10"
    using d by (simp add: word_le_nat_alt sub m [OF that]) arith
  moreover have "unat v \<le> (2 ^ 64 - 1) div 10" if "unat v * 10 + unat (c - 48) < 2 ^ 64"
    using that by simp
  ultimately show "v \<le> ULLONG_MAX div 10 \<and> v * 10 \<le> ULLONG_MAX - ucast (c - 48) \<longleftrightarrow>
           unat v * 10 + unat (c - 48) < 2 ^ 64"
    using v10 by blast
  show "unat (v * 10 + ucast (c - 48)) = unat v * 10 + unat (c - 48)"
    if "unat v * 10 + unat (c - 48) < 2 ^ 64"
    using that m by (simp add: unat_word_ariths u)
qed

lemma string2ll_loop_iff:
  "string2ll_loop v p = Some (v', []) \<longleftrightarrow> list_all is_digit p \<and> unat v' = undec (unat v) p"
proof (induction v p rule: string2ll_loop.induct)
  case (1 v)
  then show ?case by (auto simp: word_unat_eq_iff)
next
  case (2 v c p)
  let ?v = "v * 10 + ucast (c - 48)"
  show ?case
  proof (cases "is_digit c \<and> unat v * 10 + unat (c - 48) < 2 ^ 64")
    case True
    then have ok: "\<not> v > ULLONG_MAX div 10" "\<not> v * 10 > ULLONG_MAX - ucast (c - 48)"
      using ullong_step(1) [of c v] by (simp_all add: not_less)
    then have "string2ll_loop v (c # p) = string2ll_loop ?v p"
      using True by (simp add: is_digit_def)
    moreover have "string2ll_loop ?v p = Some (v', []) \<longleftrightarrow> list_all is_digit p \<and> unat v' = undec (unat ?v) p"
      using "2.IH" True ok by (simp add: is_digit_def [of c])
    ultimately show ?thesis using True ullong_step(2) [of c v] by simp
  next
    case False
    have "undec (unat v) (c # p) \<ge> unat v * 10 + unat (c - 48)" by (simp add: undec_mono)
    moreover have "unat v' < 2 ^ 64" using unat_less [of v'] by simp
    ultimately have "\<not> (list_all is_digit (c # p) \<and> unat v' = undec (unat v) (c # p))"
      using False by auto
    moreover have "string2ll_loop v (c # p) \<noteq> Some (v', [])"
      using False ullong_step(1) [of c v] by (auto simp: is_digit_def not_less)
    ultimately show ?thesis by blast
  qed
qed


lemma dec_hd: "0 < n \<Longrightarrow> hd (dec n) \<noteq> 48"
proof (induction n rule: dec.induct)
  case (1 n)
  show ?case
  proof (cases "n < 10")
    case True
    then have "(of_nat n :: byte) \<noteq> 0" using 1(2) unat_word_of_nat [where 'a = 8, of n] by force
    then show ?thesis using True by (simp add: dec_small)
  next
    case False
    then have "hd (dec n) = hd (dec (n div 10))"
      using length_dec_pos [of "n div 10"] by (simp add: dec_step)
    then show ?thesis using 1(1) False by simp
  qed
qed

lemma string2ll_digits:
  "(case p of [] \<Rightarrow> None
    | c # p' \<Rightarrow> if 49 \<le> c \<and> c \<le> 57 then
        do { (v, rest) \<leftarrow> string2ll_loop (ucast (c - 48)) p'; (if rest \<noteq> [] then None else k v) }
      else None) = Some r \<longleftrightarrow> (\<exists>v. p = dec (unat v) \<and> 0 < unat v \<and> k v = Some r)"
  (is "?l = Some r \<longleftrightarrow> ?rhs")
proof
  assume l: "?l = Some r"
  then obtain c p' v where p: "p = c # p'" "49 \<le> c" "c \<le> 57"
    and loop: "string2ll_loop (ucast (c - 48)) p' = Some (v, [])" and k: "k v = Some r"
    by (auto split: list.splits if_splits bind_splits)
  have c: "is_digit c" using p by (auto simp: is_digit_def word_le_nat_alt)
  have u: "unat (ucast (c - 48) :: 64 word) = unat (c - 48)" "0 < unat (c - 48)"
    using digit_val [OF c] p(2)
    by (auto simp: unsigned_ucast_eq take_bit_nat_eq_self word_le_nat_alt unat_sub intro: Nat.gr0I)
  have v: "list_all is_digit p'" "unat v = undec (unat (c - 48)) p'"
    using loop u by (auto simp: string2ll_loop_iff)
  then have "dec (unat v) = dec (unat (c - 48)) @ p'" using dec_undec u(2) by simp
  also have "dec (unat (c - 48)) = [c]" using digit_val [OF c] by (simp add: dec_small)
  finally have "p = dec (unat v)" using p(1) by simp
  moreover have "0 < unat v" using v(2) u(2) undec_mono [of "unat (c - 48)" p'] by simp
  ultimately show ?rhs using k by blast
next
  assume ?rhs
  then obtain v where v: "p = dec (unat v)" "0 < unat v" "k v = Some r" by blast
  obtain c p' where p: "p = c # p'" using length_dec_pos [of "unat v"] v(1) by (metis length_greater_0_conv neq_Nil_conv)
  have dg: "is_digit c" "list_all is_digit p'" using dec_digits [of "unat v", folded v(1)] p by simp_all
  have "c \<noteq> 48" using dec_hd [OF v(2)] v(1) p by (metis list.sel(1))
  then have c: "49 \<le> c" "c \<le> 57" using dg(1) by (auto simp: is_digit_def word_le_nat_alt word_unat_eq_iff)
  have u: "unat (ucast (c - 48) :: 64 word) = unat (c - 48)"
    using digit_val [OF dg(1)] by (auto simp: unsigned_ucast_eq take_bit_nat_eq_self)
  have "unat v = undec (unat (c - 48)) p'" using undec_dec [of "unat v", folded v(1)] p by simp
  then have "string2ll_loop (ucast (c - 48)) p' = Some (v, [])"
    using dg(2) by (simp add: string2ll_loop_iff u)
  then show "?l = Some r" using p c v(3) by simp
qed

lemma nonneg_word: "0 \<le> sint (v :: 64 word) \<longleftrightarrow> unat v < 2 ^ 63"
  and nonneg_sint: "unat v < 2 ^ 63 \<Longrightarrow> sint v = int (unat v)"
proof -
  have a: "sint v = int (unat v)" if "unat v < 2 ^ 63"
    using sint_word_of_nat [where 'a = 64, of "unat v"] that by simp
  then show "unat v < 2 ^ 63 \<Longrightarrow> sint v = int (unat v)" .
  have "unat v = nat (sint v)" if "0 \<le> sint v" using ll_magnitude [of v] that by simp
  then show "0 \<le> sint v \<longleftrightarrow> unat v < 2 ^ 63"
    using a sint_range_size [of v] by (auto simp: word_size)
qed

lemma neg_sint:
  assumes "0 < unat w" and "unat (w :: 64 word) \<le> 2 ^ 63"
  shows "sint (- w) = - int (unat w)"
proof -
  define n where "n = unat w"
  have w: "- w = word_of_int (- int n)" by (simp add: n_def)
  have "n \<le> 2 ^ 63" using assms(2) unfolding n_def .
  then have "int n \<le> 2 ^ 63" by simp
  then show ?thesis unfolding w n_def [symmetric] by (intro sint_word_of_int) simp_all
qed

lemma neg_word: "sint (v :: 64 word) < 0 \<Longrightarrow> 0 < unat (- v) \<and> unat (- v) \<le> 2 ^ 63 \<and> unat (- v) = nat (- sint v)"
proof -
  assume n: "sint v < 0"
  have "unat (- v) = nat (- sint v)"
  proof (cases "v = LLONG_MIN")
    case True
    then show ?thesis by (simp add: ll_limits)
  next
    case False
    then show ?thesis using ll_magnitude [of v] n by simp
  qed
  then show ?thesis using n sint_range_size [of v] by (auto simp: word_size)
qed

lemma sdec_zero: "[48] = sdec x \<longleftrightarrow> x = 0"
proof
  assume a: "[48] = sdec x"
  then have "\<not> x < 0" by (auto simp: sdec_def)
  then have "dec (nat x) = [48]" using a by (simp add: sdec_def)
  then have "nat x = 0" using undec_dec [of "nat x"] by simp
  then show "x = 0" using \<open>\<not> x < 0\<close> by simp
qed (simp add: sdec_def dec_small)

lemma sdec_hd: "hd (sdec x) = 45 \<longleftrightarrow> x < 0"
proof -
  have "hd (dec n) \<noteq> 45" for n
    using dec_digits [of n] length_dec_pos [of n] by (cases "dec n") (auto simp: is_digit_def)
  then show ?thesis by (simp add: sdec_def)
qed

lemma sdec_neg: "0 < n \<Longrightarrow> sdec (- int n) = 45 # dec n"
  by (simp add: sdec_def)

lemma sdec_pos: "sdec (int n) = dec n"
  by (simp add: sdec_def)

lemma sdec_ne: "sdec x \<noteq> []"
  using length_dec_pos by (simp add: sdec_def)

lemma string2ll_cases:
  assumes "s \<noteq> []" and "s \<noteq> [48]"
  shows "string2ll s = Some r \<longleftrightarrow>
    (\<exists>v. (if hd s = 45 then tl s else s) = dec (unat v) \<and> 0 < unat v \<and>
         (if hd s = 45 then (if v > - (LLONG_MIN + 1) + 1 then None else Some (- v))
          else if v > LLONG_MAX then None else Some v) = Some r)"
  using assms
    string2ll_digits [where p = "if hd s = 45 then tl s else s" and r = r and
      k = "\<lambda>v. if hd s = 45 then (if v > - (LLONG_MIN + 1) + 1 then None else Some (- v))
                else if v > LLONG_MAX then None else Some v"]
  unfolding string2ll_def Let_def ch_simps by (simp only: if_False)

lemma string2ll_iff: "string2ll s = Some v \<longleftrightarrow> s = sdec (sint v)"
proof -
  consider "s = []" | "s = [48]" | (neg) "s \<noteq> []" "s \<noteq> [48]" "hd s = 45"
    | (pos) "s \<noteq> []" "s \<noteq> [48]" "hd s \<noteq> 45" by blast
  then show ?thesis
  proof cases
    case 1
    then show ?thesis using sdec_ne [of "sint v"] by (auto simp: string2ll_def)
  next
    case 2
    have "sint v = 0 \<longleftrightarrow> v = 0" by (metis sint_0 sint_eq_iff)
    then show ?thesis using 2 sdec_zero [of "sint v"] by (auto simp: string2ll_def)
  next
    case neg
    let ?k = "\<lambda>v. if v > - (LLONG_MIN + 1) + 1 then None else Some (- v)"
    have lim: "w > - LLONG_MIN \<longleftrightarrow> unat w > 2 ^ 63" for w
      by (simp add: ll_limits word_less_nat_alt)
    have "string2ll s = Some v \<longleftrightarrow> (\<exists>w. tl s = dec (unat w) \<and> 0 < unat w \<and> ?k w = Some v)"
      using neg string2ll_cases [OF neg(1,2), of v] by simp
    also have "\<dots> \<longleftrightarrow> (\<exists>w. tl s = dec (unat w) \<and> 0 < unat w \<and> unat w \<le> 2 ^ 63 \<and> v = - w)"
      by (auto simp: lim not_less intro!: exI [of _ "- v"])
    also have "\<dots> \<longleftrightarrow> s = sdec (sint v)"
    proof
      assume "\<exists>w. tl s = dec (unat w) \<and> 0 < unat w \<and> unat w \<le> 2 ^ 63 \<and> v = - w"
      then obtain w where w: "tl s = dec (unat w)" "0 < unat w" "unat w \<le> 2 ^ 63" "v = - w" by blast
      then have "sdec (sint v) = 45 # tl s" by (simp only: neg_sint sdec_neg)
      then show "s = sdec (sint v)" using neg by (metis list.collapse)
    next
      assume a: "s = sdec (sint v)"
      then have n: "sint v < 0" using neg(3) sdec_hd by simp
      then have "tl s = dec (unat (- v))" using a neg_word [OF n] by (simp add: sdec_def)
      then show "\<exists>w. tl s = dec (unat w) \<and> 0 < unat w \<and> unat w \<le> 2 ^ 63 \<and> v = - w"
        using neg_word [OF n] n by (intro exI [of _ "- v"]) simp
    qed
    finally show ?thesis .
  next
    case pos
    let ?k = "\<lambda>v. if v > LLONG_MAX then None else Some v"
    have lim: "w > LLONG_MAX \<longleftrightarrow> \<not> unat w < 2 ^ 63" for w
      by (simp add: ll_limits word_less_nat_alt) linarith
    have "string2ll s = Some v \<longleftrightarrow> (\<exists>w. s = dec (unat w) \<and> 0 < unat w \<and> ?k w = Some v)"
      using pos string2ll_cases [OF pos(1,2), of v] by simp
    also have "\<dots> \<longleftrightarrow> s = dec (unat v) \<and> 0 < unat v \<and> unat v < 2 ^ 63"
      by (auto simp: lim)
    also have "\<dots> \<longleftrightarrow> s = sdec (sint v)"
    proof
      assume "s = dec (unat v) \<and> 0 < unat v \<and> unat v < 2 ^ 63"
      then show "s = sdec (sint v)" by (simp only: nonneg_sint sdec_pos)
    next
      assume a: "s = sdec (sint v)"
      have "\<not> sint v < 0" using a pos(3) sdec_hd by simp
      then have n: "unat v < 2 ^ 63" using nonneg_word [of v] by simp
      moreover have "unat v \<noteq> 0"
      proof
        assume "unat v = 0"
        then have "sint v = 0" using nonneg_sint [OF n] by simp
        then show False using a pos(2) sdec_zero by metis
      qed
      moreover have "s = dec (unat v)" using a by (simp only: nonneg_sint [OF n] sdec_pos)
      ultimately show "s = dec (unat v) \<and> 0 < unat v \<and> unat v < 2 ^ 63" by simp
    qed
    finally show ?thesis .
  qed
qed

interpretation ll_codec: partial_codec "\<lambda>v :: 64 word. sdec (sint v)" string2ll
  by unfold_locales (rule string2ll_iff)

lemma sdigits10_len: "unat (sdigits10 v) = length (sdec (sint v))"
proof -
  have "unat (digits10 u + 1) = unat (digits10 u) + 1" for u
    using digits10_len [of u] length_dec_word [of u] by (simp add: unat_word_ariths)
  then show ?thesis
    using ll_magnitude [of v] digits10_len by (auto simp: sdigits10_def length_sdec Let_def split: if_splits)
qed

lemma length_sdec_le: "length (sdec (sint (v :: 64 word))) \<le> 20"
proof -
  have "length (dec (nat \<bar>sint v\<bar>)) \<le> 19"
    using sint_range_size [of v] by (intro length_dec_le) (auto simp: word_size)
  then show ?thesis by (cases "sint v < 0") (simp_all add: length_sdec)
qed

lemma string2l_eq: "string2l s = string2ll s"
proof -
  have "sint LLONG_MIN = - (2 ^ 63)" "sint LLONG_MAX = 2 ^ 63 - 1" by (simp_all add: ll_limits)
  then have "\<not> (sint v < sint LLONG_MIN \<or> sint v > sint LLONG_MAX)" for v :: "64 word"
    using sint_range_size [of v] by (simp add: word_size)
  then show ?thesis by (cases "string2ll s") (simp_all add: string2l_def)
qed

subsection \<open>Properties\<close>

text \<open>
  C32. \<open>ll2string\<close> writes exactly the decimal representation of the value and a terminating
  NUL at the start of the buffer, leaves the rest of the buffer alone and returns the length;
  when the text and the terminator do not fit it returns 0 and writes nothing.  No write
  leaves the buffer.
\<close>
theorem ll2string_correct:
  assumes "dstlen \<le> length dst"
  shows "ll2string dst dstlen v =
    Some (if length (sdec (sint v)) < dstlen
          then (length (sdec (sint v)), sdec (sint v) @ 0 # drop (length (sdec (sint v)) + 1) dst)
          else (0, dst))"
proof (cases "length (sdec (sint v)) < dstlen")
  case True
  then show ?thesis using ll2string_spec [OF True assms] by simp
next
  case False
  define uv where "uv = (if sint v < 0 then (if v \<noteq> LLONG_MIN then - v else LLONG_MAX + 1) else v)"
  have uv: "unat uv = nat \<bar>sint v\<bar>" unfolding uv_def by (rule ll_magnitude)
  have "unat (digits10 uv + b2w (sint v < 0)) = length (sdec (sint v))"
    using digits10_len [of uv] length_dec_word [of uv]
    by (cases "sint v < 0") (simp_all add: unat_word_ariths unat_b2w length_sdec uv)
  then show ?thesis unfolding ll2string_def Let_def uv_def [symmetric] using False by simp
qed

theorem ll2string_correct_witness:
  "ll2string (replicate 21 7) 21 (- 120) = Some (4, sdec (- 120) @ 0 # replicate 16 7) \<and>
   ll2string (replicate 4 7) 4 (- 120) = Some (0, replicate 4 7)"
proof -
  have d: "sdec (- 120) = [45, 49, 50, 48]" by (simp add: sdec_def dec_step dec_small)
  show ?thesis
    using ll2string_correct [of 21 "replicate 21 7" "- 120"] ll2string_correct [of 4 "replicate 4 7" "- 120"] d
    by simp
qed

text \<open>
  C22. \<open>string2ll\<close> accepts a string exactly when it is the canonical decimal representation of
  a 64-bit signed integer, and returns that integer: no leading zeroes, no sign but \<open>-\<close>, no
  other bytes, no overflow in either direction.
\<close>
theorem string2ll_strict: "string2ll s = Some v \<longleftrightarrow> s = sdec (sint v)"
  by (rule string2ll_iff)

text \<open>
  C23. Printing and parsing are inverse: what \<open>ll2string\<close> writes is parsed back to the value by
  \<open>string2ll\<close> and \<open>string2l\<close>, and a string that \<open>string2ll\<close> accepts is what \<open>ll2string\<close> writes
  for its value into any buffer of at least 21 bytes.
\<close>
theorem ll_string_roundtrip:
  assumes "21 \<le> dstlen" and "dstlen \<le> length dst"
  shows "\<exists>n dst'. ll2string dst dstlen v = Some (n, dst') \<and> 0 < n \<and>
           string2ll (take n dst') = Some v \<and> string2l (take n dst') = Some v \<and>
           (\<forall>s. string2ll s = Some v \<longrightarrow> take n dst' = s)"
proof -
  let ?n = "length (sdec (sint v))" and ?dst = "sdec (sint v) @ 0 # drop (length (sdec (sint v)) + 1) dst"
  have "ll2string dst dstlen v = Some (?n, ?dst)"
    using length_sdec_le [of v] assms by (intro ll2string_spec) simp_all
  moreover have "0 < ?n" using sdec_ne by simp
  ultimately show ?thesis by (auto simp: string2l_eq string2ll_iff)
qed

theorem ll_string_roundtrip_witness:
  "\<exists>n dst'. ll2string (replicate 21 7) 21 (- (2 ^ 63)) = Some (n, dst') \<and> 0 < n \<and>
     string2ll (take n dst') = Some (- (2 ^ 63)) \<and> string2l (take n dst') = Some (- (2 ^ 63)) \<and>
     (\<forall>s. string2ll s = Some (- (2 ^ 63)) \<longrightarrow> take n dst' = s)"
  by (rule ll_string_roundtrip) simp_all

text \<open>
  The digit counts used to size buffers are exact: \<open>digits10\<close> is the length of the decimal
  representation of an unsigned value, \<open>sdigits10\<close> that of a signed value with its sign.
\<close>
theorem digits_count_correct:
  "unat (digits10 u) = length (dec (unat u)) \<and> unat (sdigits10 v) = length (sdec (sint v))"
  by (simp add: digits10_len sdigits10_len)

end
