(* ===== verification/Glob.thy ===== *)
theory Glob
  imports Util
begin

section \<open>Glob-style pattern matching (\<open>redis-5.0/src/util.c\<close>)\<close>

text \<open>
  \<open>stringmatchlen\<close> with its inner loops.  A pattern is a pointer into memory: the buffer
  \<open>P\<close>, an index \<open>i\<close> and the number \<open>pl\<close> of pattern bytes that are left; the code reads
  \<open>pattern[0]\<close> and \<open>pattern[1]\<close> also where \<open>patternLen\<close> is 0 or 1, so the byte behind the
  pattern matters.  A read outside of the buffer is \<open>None\<close>.  The theory shows that a pattern
  followed by a NUL byte is never read beyond it, and that the code computes the meaning of
  the pattern as a list of tokens (\<open>tokens\<close>, \<open>glob\<close>).
\<close>

subsection \<open>The code\<close>


lemma ch_glob_simps [simp]:
  "ch CHR ''*'' = 42" "ch CHR ''?'' = 63" "ch CHR ''['' = 91" "ch CHR '']'' = 93" "ch CHR ''^'' = 94"
  "ch CHR 0x5C = 92"
  by (simp_all add: ch_def)

definition tolower :: "int \<Rightarrow> int" where
  "tolower c = (if 65 \<le> c \<and> c \<le> 90 then c + 32 else c)"

definition same_char :: "bool \<Rightarrow> byte \<Rightarrow> byte \<Rightarrow> bool" where
  "same_char nocase a b =
     (if \<not> nocase then a = b else tolower (sint a) = tolower (sint b))"

text \<open>\<open>while (pattern[1] == '*') { pattern++; patternLen--; }\<close>\<close>

function skip_stars :: "bytes \<Rightarrow> nat \<Rightarrow> int \<Rightarrow> (nat \<times> int) option" where
  "skip_stars P i pl =
     (case mem_get (i + 1) P of
        None \<Rightarrow> None
      | Some c \<Rightarrow> if c = ch CHR ''*'' then skip_stars P (i + 1) (pl - 1) else Some (i, pl))"
  by pat_completeness auto
termination
  by (relation "measure (\<lambda>(P, i, pl). length P - i)") (auto simp: mem_get_def split: if_splits)

declare skip_stars.simps [simp del]

text \<open>The loop over the items of a \<open>[...]\<close> class; it returns the pointer and \<open>match\<close>.\<close>

function class_loop :: "bytes \<Rightarrow> nat \<Rightarrow> int \<Rightarrow> byte \<Rightarrow> bool \<Rightarrow> bool \<Rightarrow> (nat \<times> int \<times> bool) option" where
  "class_loop P i pl s0 nocase match =
     (case mem_get i P of
        None \<Rightarrow> None
      | Some c0 \<Rightarrow>
          if c0 = ch CHR 0x5C \<and> pl \<ge> 2 then
            (case mem_get (i + 1) P of
               None \<Rightarrow> None
             | Some e \<Rightarrow> class_loop P (i + 2) (pl - 2) s0 nocase (match \<or> e = s0))
          else if c0 = ch CHR '']'' then Some (i, pl, match)
          else if pl = 0 then Some (i - 1, pl + 1, match)
          else
            (case mem_get (i + 1) P of
               None \<Rightarrow> None
             | Some c1 \<Rightarrow>
                 if c1 = ch CHR ''-'' \<and> pl \<ge> 3 then
                   (case mem_get (i + 2) P of
                      None \<Rightarrow> None
                    | Some c2 \<Rightarrow>
                        (let start = sint c0; end' = sint c2; c = sint s0;
                             (start, end') = (if start > end' then (end', start) else (start, end'));
                             (start, end', c) = (if nocase then (tolower start, tolower end', tolower c)
                                                 else (start, end', c))
                         in class_loop P (i + 3) (pl - 3) s0 nocase
                              (match \<or> (c \<ge> start \<and> c \<le> end'))))
                 else class_loop P (i + 1) (pl - 1) s0 nocase (match \<or> same_char nocase c0 s0)))"
  by pat_completeness auto
termination
  by (relation "measure (\<lambda>(P, i, pl, s0, nocase, match). length P - i)")
    (auto simp: mem_get_def split: if_splits)

declare class_loop.simps [simp del]

text \<open>\<open>while (*pattern == '*') { pattern++; patternLen--; }\<close> at the end of the string.\<close>

function trail_stars :: "bytes \<Rightarrow> nat \<Rightarrow> int \<Rightarrow> (nat \<times> int) option" where
  "trail_stars P i pl =
     (case mem_get i P of
        None \<Rightarrow> None
      | Some c \<Rightarrow> if c = ch CHR ''*'' then trail_stars P (i + 1) (pl - 1) else Some (i, pl))"
  by pat_completeness auto
termination
  by (relation "measure (\<lambda>(P, i, pl). length P - i)") (auto simp: mem_get_def split: if_splits)

declare trail_stars.simps [simp del]

text \<open>The loop that tries the rest of the pattern at every position of the string.\<close>

primrec try_suffixes :: "(nat \<Rightarrow> nat \<Rightarrow> bool option) \<Rightarrow> nat \<Rightarrow> nat \<Rightarrow> bool option" where
  "try_suffixes rec j 0 = Some False"
| "try_suffixes rec j (Suc sl) =
     (case rec j (Suc sl) of
        None \<Rightarrow> None
      | Some b \<Rightarrow> if b then Some True else try_suffixes rec (Suc j) sl)"

lemma try_suffixes_cong [fundef_cong]:
  "(\<And>j sl. f j sl = g j sl) \<Longrightarrow> j = j' \<Longrightarrow> sl = sl' \<Longrightarrow> try_suffixes f j sl = try_suffixes g j' sl'"
  by (induction sl arbitrary: j j' sl') (auto split: option.splits)

lemma skip_stars_ge: "skip_stars P i pl = Some (i', pl') \<Longrightarrow> i \<le> i'"
proof (induction P i pl rule: skip_stars.induct)
  case (1 P i pl)
  then show ?case by (subst (asm) (2) skip_stars.simps) (auto split: option.splits if_splits)
qed

lemma class_loop_ge: "class_loop P i pl s0 nocase match = Some (i', pl', m) \<Longrightarrow> i - 1 \<le> i'"
proof (induction P i pl s0 nocase match rule: class_loop.induct)
  case (1 P i pl s0 nocase match)
  show ?case using "1.prems" "1.IH"
    by (subst (asm) (1) class_loop.simps)
      (fastforce simp: Let_def split: option.splits if_splits prod.splits)
qed

text \<open>
  One character of the string against the pattern at \<open>i\<close> (every case but \<open>*\<close>): the inner
  \<open>None\<close> is \<open>return 0\<close>, otherwise the pattern pointer at the last byte that was used.
\<close>

definition match_one :: "bytes \<Rightarrow> nat \<Rightarrow> int \<Rightarrow> byte \<Rightarrow> bytes \<Rightarrow> nat \<Rightarrow> bool \<Rightarrow> (nat \<times> int) option option" where
  "match_one P i pl c0 S j nocase =
     (if c0 = ch CHR ''?'' then Some (Some (i, pl))
      else if c0 = ch CHR ''['' then
        do {
          c \<leftarrow> mem_get (i + 1) P;
          s0 \<leftarrow> mem_get j S;
          let neg = (c = ch CHR ''^'');
          (i, pl, match) \<leftarrow> (if neg then class_loop P (i + 2) (pl - 2) s0 nocase False
                            else class_loop P (i + 1) (pl - 1) s0 nocase False);
          (if (if neg then \<not> match else match) then Some (Some (i, pl)) else Some None) }
      else
        do {
          let (i, pl) = (if c0 = ch CHR 0x5C \<and> pl \<ge> 2 then (i + 1, pl - 1) else (i, pl));
          c \<leftarrow> mem_get i P;
          s0 \<leftarrow> mem_get j S;
          (if same_char nocase c s0 then Some (Some (i, pl)) else Some None) })"

lemma match_one_ge:
  assumes "match_one P i pl c0 S j nocase = Some (Some (i', pl'))"
  shows "i \<le> i'"
  using assms
  by (auto simp: match_one_def Let_def split: if_splits bind_splits dest!: class_loop_ge)

function stringmatch_at :: "bytes \<Rightarrow> nat \<Rightarrow> int \<Rightarrow> bytes \<Rightarrow> nat \<Rightarrow> nat \<Rightarrow> bool \<Rightarrow> bool option" where
  "stringmatch_at P i pl S j sl nocase =
     (if pl \<noteq> 0 \<and> sl \<noteq> 0 then
        (case mem_get i P of
           None \<Rightarrow> None
         | Some c0 \<Rightarrow>
           if c0 = ch CHR ''*'' then
             (case skip_stars P i pl of
                None \<Rightarrow> None
              | Some (i, pl) \<Rightarrow>
                  if pl = 1 then Some True
                  else try_suffixes (\<lambda>j sl. stringmatch_at P (i + 1) (pl - 1) S j sl nocase) j sl)
           else
             (case match_one P i pl c0 S j nocase of
                None \<Rightarrow> None
              | Some None \<Rightarrow> Some False
              | Some (Some (i, pl)) \<Rightarrow>
                  if sl - 1 = 0 then
                    (case trail_stars P (i + 1) (pl - 1) of
                       None \<Rightarrow> None
                     | Some (i, pl) \<Rightarrow> Some (pl = 0))
                  else stringmatch_at P (i + 1) (pl - 1) S (j + 1) (sl - 1) nocase))
      else Some (pl = 0 \<and> sl = 0))"
  by pat_completeness auto
termination
  by (relation "measure (\<lambda>(P, i, pl, S, j, sl, nocase). length P - i)")
   (auto simp: mem_get_def split: if_splits dest!: skip_stars_ge match_one_ge)

declare stringmatch_at.simps [simp del]

definition stringmatchlen :: "bytes \<Rightarrow> nat \<Rightarrow> bytes \<Rightarrow> nat \<Rightarrow> bool \<Rightarrow> bool option" where
  "stringmatchlen pattern patternLen string stringLen nocase =
     stringmatch_at pattern 0 (int patternLen) string 0 stringLen nocase"


subsection \<open>Glob patterns: tokens and their meaning\<close>

datatype gtok = Star | Single "byte \<Rightarrow> bool"

definition in_range :: "bool \<Rightarrow> byte \<Rightarrow> byte \<Rightarrow> byte \<Rightarrow> bool" where
  "in_range nocase a b s =
     (let lo = min (sint a) (sint b); hi = max (sint a) (sint b)
      in if nocase then tolower lo \<le> tolower (sint s) \<and> tolower (sint s) \<le> tolower hi
         else lo \<le> sint s \<and> sint s \<le> hi)"

function class_items :: "bool \<Rightarrow> bytes \<Rightarrow> (byte \<Rightarrow> bool) \<times> bytes" where
  "class_items nc [] = (\<lambda>_. False, [])"
| "class_items nc (c # p) =
     (if c = 92 \<and> p \<noteq> [] then
        (let fr = class_items nc (tl p) in (\<lambda>s. hd p = s \<or> fst fr s, snd fr))
      else if c = 93 then (\<lambda>_. False, p)
      else if 2 \<le> length p \<and> hd p = 45 then
        (let fr = class_items nc (drop 2 p) in (\<lambda>s. in_range nc c (p ! 1) s \<or> fst fr s, snd fr))
      else (let fr = class_items nc p in (\<lambda>s. same_char nc c s \<or> fst fr s, snd fr)))"
  by pat_completeness auto
termination
  by (relation "measure (\<lambda>(nc, p). length p)") auto

declare class_items.simps(2) [simp del]

lemma class_items_len: "length (snd (class_items nc p)) \<le> length p"
proof (induction nc p rule: class_items.induct)
  case (2 nc c p)
  then show ?case by (subst class_items.simps) (auto simp: Let_def)
qed simp

function tokens :: "bool \<Rightarrow> bytes \<Rightarrow> gtok list" where
  "tokens nc [] = []"
| "tokens nc (c # p) =
     (if c = 42 then Star # tokens nc p
      else if c = 63 then Single (\<lambda>_. True) # tokens nc p
      else if c = 91 then
        (let neg = (p \<noteq> [] \<and> hd p = 94);
             fr = class_items nc (if neg then tl p else p)
         in Single (\<lambda>s. fst fr s \<noteq> neg) # tokens nc (snd fr))
      else if c = 92 \<and> p \<noteq> [] then Single (same_char nc (hd p)) # tokens nc (tl p)
      else Single (same_char nc c) # tokens nc p)"
  by pat_completeness auto
termination
proof (relation "measure (\<lambda>(nc, p). length p)", goal_cases)
  case (4 nc c p x xa)
  have "length (snd xa) \<le> length (if x then tl p else p)" using 4 class_items_len by metis
  also have "\<dots> \<le> length p" by simp
  finally show ?case by simp
qed auto

fun glob :: "gtok list \<Rightarrow> bytes \<Rightarrow> bool" where
  "glob [] s = (s = [])"
| "glob (Star # ts) s = list_ex (\<lambda>n. glob ts (drop n s)) [0..<Suc (length s)]"
| "glob (Single f # ts) [] = False"
| "glob (Single f # ts) (c # s) = (f c \<and> glob ts s)"

lemma glob_star: "glob (Star # ts) s \<longleftrightarrow> (\<exists>n \<le> length s. glob ts (drop n s))"
  by (auto simp: list_ex_iff less_Suc_eq_le simp del: upt_Suc)

declare glob.simps(2) [simp del]

lemma glob_star_star: "glob (Star # Star # ts) s = glob (Star # ts) s"
proof
  assume "glob (Star # Star # ts) s"
  then obtain n m where "n \<le> length s" "m \<le> length (drop n s)" "glob ts (drop m (drop n s))"
    by (auto simp: glob_star)
  then show "glob (Star # ts) s" unfolding glob_star by (intro exI [of _ "n + m"]) (auto simp: add.commute)
next
  assume "glob (Star # ts) s"
  then show "glob (Star # Star # ts) s" unfolding glob_star [of "Star # ts"]
    by (intro exI [of _ 0]) simp
qed

primrec strip_stars :: "bytes \<Rightarrow> bytes" where
  "strip_stars [] = []"
| "strip_stars (c # p) = (if c = 42 then strip_stars p else c # p)"

lemma glob_skip_stars: "glob (Star # tokens nc q) s = glob (Star # tokens nc (strip_stars q)) s"
proof (induction q arbitrary: s)
  case (Cons c q)
  then show ?case by (cases "c = 42") (simp_all add: glob_star_star)
qed simp

lemma glob_all_stars: "glob (tokens nc p) [] \<longleftrightarrow> strip_stars p = []"
proof (induction p)
  case (Cons c p)
  then show ?case by (auto simp: glob_star Let_def)
qed simp

lemma tokens_single: "c \<noteq> 42 \<Longrightarrow> \<exists>f ts. tokens nc (c # p) = Single f # ts"
  by (auto simp: Let_def)

subsection \<open>The pattern pointer\<close>

definition at :: "bytes \<Rightarrow> nat \<Rightarrow> int \<Rightarrow> bytes \<Rightarrow> bool" where
  "at P i pl p \<longleftrightarrow> (\<exists>pre post. P = pre @ p @ 0 # post \<and> i = length pre \<and> pl = int (length p))"

lemma at_Cons: "at P i pl (c # p) \<Longrightarrow> mem_get i P = Some c \<and> at P (i + 1) (pl - 1) p"
  unfolding at_def
proof (elim exE conjE, intro conjI)
  fix pre post assume P: "P = pre @ (c # p) @ 0 # post" "i = length pre" "pl = int (length (c # p))"
  then show "mem_get i P = Some c" by (simp add: mem_get_def nth_append)
  show "\<exists>pre post. P = pre @ p @ 0 # post \<and> i + 1 = length pre \<and> pl - 1 = int (length p)"
    using P by (intro exI [of _ "pre @ [c]"] exI [of _ post]) simp
qed

lemma at_Nil: "at P i pl [] \<Longrightarrow> mem_get i P = Some 0 \<and> pl = 0"
  by (auto simp: at_def mem_get_def nth_append)

lemma at_len: "at P i pl p \<Longrightarrow> pl = int (length p)"
  by (auto simp: at_def)

lemma at_get: "at P i pl p \<Longrightarrow> mem_get i P = Some (case p of [] \<Rightarrow> 0 | c # _ \<Rightarrow> c)"
  using at_Cons at_Nil by (cases p) auto

lemma skip_stars_at:
  "at P i pl (c # q) \<Longrightarrow>
   \<exists>i' pl'. skip_stars P i pl = Some (i', pl') \<and> at P (i' + 1) (pl' - 1) (strip_stars q)"
proof (induction q arbitrary: i pl c)
  case Nil
  then show ?case using at_Cons [OF Nil] at_Nil [of P "i + 1"]
    by (subst skip_stars.simps) auto
next
  case (Cons d q)
  have a: "at P (i + 1) (pl - 1) (d # q)" using at_Cons [OF Cons.prems] by simp
  show ?case
  proof (cases "d = 42")
    case True
    then show ?thesis using Cons.IH [OF a] at_Cons [OF a] by (subst skip_stars.simps) simp
  next
    case False
    then show ?thesis using a at_Cons [OF a] by (subst skip_stars.simps) auto
  qed
qed

lemma trail_stars_at:
  "at P i pl q \<Longrightarrow> \<exists>i' pl'. trail_stars P i pl = Some (i', pl') \<and> (pl' = 0 \<longleftrightarrow> strip_stars q = [])"
proof (induction q arbitrary: i pl)
  case Nil
  then show ?case using at_Nil [OF Nil] by (subst trail_stars.simps) auto
next
  case (Cons d q)
  show ?case
  proof (cases "d = 42")
    case True
    then show ?thesis using Cons.IH at_Cons [OF Cons.prems] by (subst trail_stars.simps) simp
  next
    case False
    then show ?thesis using at_Cons [OF Cons.prems] at_len [OF Cons.prems] by (subst trail_stars.simps) auto
  qed
qed


lemma class_loop_at:
  assumes "at P i pl p" and "0 < i"
  shows "\<exists>i' pl'. class_loop P i pl s0 nc m = Some (i', pl', m \<or> fst (class_items nc p) s0) \<and>
           at P (i' + 1) (pl' - 1) (snd (class_items nc p))"
  using assms
proof (induction p arbitrary: i pl m rule: length_induct)
  case (1 p)
  note IH = "1.IH" [rule_format]
  show ?case
  proof (cases p)
    case Nil
    then show ?thesis using "1.prems" at_Nil [of P i pl] by (subst class_loop.simps) auto
  next
    case p: (Cons c q)
    have a: "mem_get i P = Some c" "at P (i + 1) (pl - 1) q" "pl = 1 + int (length q)"
      using at_Cons [of P i pl c q] at_len [of P i pl p] "1.prems" p by auto
    have g1: "mem_get (i + 1) P = Some (case q of [] \<Rightarrow> 0 | d # _ \<Rightarrow> d)" by (rule at_get [OF a(2)])
    consider (esc) d r where "c = 92" "q = d # r" | (close) "\<not> (c = 92 \<and> q \<noteq> [])" "c = 93"
      | (range) e r where "\<not> (c = 92 \<and> q \<noteq> [])" "c \<noteq> 93" "q = 45 # e # r"
      | (single) "\<not> (c = 92 \<and> q \<noteq> [])" "c \<noteq> 93" "\<not> (2 \<le> length q \<and> hd q = 45)"
      by (cases q; cases "tl q") auto
    then show ?thesis
    proof cases
      case esc
      have "at P (i + 2) (pl - 2) r" using at_Cons [of P "i + 1" "pl - 1" d r] a(2) esc by simp
      then have "\<exists>i' pl'. class_loop P (i + 2) (pl - 2) s0 nc (m \<or> d = s0)
            = Some (i', pl', (m \<or> d = s0) \<or> fst (class_items nc r) s0) \<and>
          at P (i' + 1) (pl' - 1) (snd (class_items nc r))"
        using p esc by (intro IH) auto
      then show ?thesis using a g1 esc p
        by (subst class_loop.simps) (auto simp: class_items.simps(2) Let_def)
    next
      case close
      then show ?thesis using a p
        by (subst class_loop.simps) (auto simp: class_items.simps(2))
    next
      case range
      have b: "at P (i + 2) (pl - 2) (e # r)" using at_Cons [of P "i + 1" "pl - 1" 45 "e # r"] a(2) range by simp
      then have g2: "mem_get (i + 2) P = Some e" and "at P (i + 3) (pl - 3) r"
        using at_Cons [of P "i + 2" "pl - 2" e r] by (simp_all add: numeral_3_eq_3)
      then have "\<exists>i' pl'. class_loop P (i + 3) (pl - 3) s0 nc (m \<or> in_range nc c e s0)
            = Some (i', pl', (m \<or> in_range nc c e s0) \<or> fst (class_items nc r) s0) \<and>
          at P (i' + 1) (pl' - 1) (snd (class_items nc r))"
        using p range by (intro IH) auto
      then show ?thesis using a g1 g2 range p
        by (subst class_loop.simps)
          (auto simp: class_items.simps(2) Let_def in_range_def min_def max_def)
    next
      case single
      have "\<exists>i' pl'. class_loop P (i + 1) (pl - 1) s0 nc (m \<or> same_char nc c s0)
            = Some (i', pl', (m \<or> same_char nc c s0) \<or> fst (class_items nc q) s0) \<and>
          at P (i' + 1) (pl' - 1) (snd (class_items nc q))"
        using p a(2) by (intro IH) auto
      moreover have "\<not> (c = 92 \<and> 2 \<le> pl)" using single(1) a(3) by (cases q) auto
      moreover have "\<not> ((case q of [] \<Rightarrow> 0 | d # _ \<Rightarrow> d) = 45 \<and> 3 \<le> pl)"
        using single(3) a(3) by (cases q) auto
      ultimately show ?thesis using a g1 single p
        by (subst class_loop.simps) (auto simp: class_items.simps(2) Let_def)
    qed
  qed
qed


definition str_at :: "bytes \<Rightarrow> nat \<Rightarrow> nat \<Rightarrow> bytes \<Rightarrow> bool" where
  "str_at S j sl s \<longleftrightarrow> (\<exists>pre post. S = pre @ s @ post \<and> j = length pre \<and> sl = length s)"

lemma str_at_Cons: "str_at S j sl (c # s) \<Longrightarrow> mem_get j S = Some c \<and> str_at S (Suc j) (sl - 1) s \<and> sl = Suc (length s)"
  unfolding str_at_def
proof (elim exE conjE, intro conjI)
  fix pre post assume S: "S = pre @ (c # s) @ post" "j = length pre" "sl = length (c # s)"
  then show "mem_get j S = Some c" and "sl = Suc (length s)" by (simp_all add: mem_get_def nth_append)
  show "\<exists>pre post. S = pre @ s @ post \<and> Suc j = length pre \<and> sl - 1 = length s"
    using S by (intro exI [of _ "pre @ [c]"] exI [of _ post]) simp
qed

lemma match_one_at:
  assumes p: "at P i pl (c # q)" and s: "mem_get j S = Some s0" and c: "c \<noteq> 42"
  shows "\<exists>f r i' pl'. tokens nc (c # q) = Single f # tokens nc r \<and> length r \<le> length q \<and>
           match_one P i pl c S j nc = Some (if f s0 then Some (i', pl') else None) \<and>
           at P (i' + 1) (pl' - 1) r"
proof -
  have a: "mem_get i P = Some c" "at P (i + 1) (pl - 1) q" "pl = 1 + int (length q)"
    using at_Cons [OF p] at_len [OF p] by auto
  have g1: "mem_get (i + 1) P = Some (case q of [] \<Rightarrow> 0 | d # _ \<Rightarrow> d)" by (rule at_get [OF a(2)])
  consider (one) "c = 63" | (cls) "c = 91" | (esc) d r where "c = 92" "q = d # r"
    | (lit) "c \<noteq> 63" "c \<noteq> 91" "\<not> (c = 92 \<and> q \<noteq> [])" by (cases q) auto
  then show ?thesis
  proof cases
    case one
    then show ?thesis using a
      by (intro exI [of _ "\<lambda>_. True"] exI [of _ q] exI [of _ i] exI [of _ pl]) (simp add: match_one_def)
  next
    case cls
    define neg where "neg = (q \<noteq> [] \<and> hd q = 94)"
    let ?q = "if neg then tl q else q"
    let ?i = "if neg then i + 2 else i + 1" and ?pl = "if neg then pl - 2 else pl - 1"
    have n: "(case q of [] \<Rightarrow> 0 | d # _ \<Rightarrow> d) = 94 \<longleftrightarrow> neg" by (cases q) (auto simp: neg_def)
    have pos: "0 < ?i" by simp
    have at: "at P ?i ?pl ?q" using a(2) at_Cons [of P "i + 1" "pl - 1" "hd q" "tl q"]
      by (cases q) (auto simp: neg_def)
    obtain i' pl' where l: "class_loop P ?i ?pl s0 nc False = Some (i', pl', fst (class_items nc ?q) s0)"
      "at P (i' + 1) (pl' - 1) (snd (class_items nc ?q))"
      using class_loop_at [OF at pos, of s0 nc False] by auto
    have "length (snd (class_items nc ?q)) \<le> length q"
      using class_items_len [of nc ?q] by (cases neg) (auto intro: order.trans)
    moreover have "match_one P i pl c S j nc
        = Some (if fst (class_items nc ?q) s0 \<noteq> neg then Some (i', pl') else None)"
      using cls g1 s l(1) n by (cases neg) (auto simp: match_one_def)
    ultimately show ?thesis using cls l(2)
      by (intro exI [of _ "\<lambda>s. fst (class_items nc ?q) s \<noteq> neg"] exI [of _ "snd (class_items nc ?q)"]
          exI [of _ i'] exI [of _ pl']) (simp add: Let_def neg_def)
  next
    case esc
    have "at P (i + 2) (pl - 2) r" using at_Cons [of P "i + 1" "pl - 1" d r] a(2) esc by simp
    then show ?thesis using esc g1 s a(3)
      by (intro exI [of _ "same_char nc d"] exI [of _ r] exI [of _ "i + 1"] exI [of _ "pl - 1"])
        (simp add: match_one_def)
  next
    case lit
    have "\<not> (c = 92 \<and> 2 \<le> pl)" using lit(3) a(3) by (cases q) auto
    then show ?thesis using lit c a s
      by (intro exI [of _ "same_char nc c"] exI [of _ q] exI [of _ i] exI [of _ pl])
        (auto simp: match_one_def)
  qed
qed

lemma try_suffixes_glob:
  assumes rec: "\<And>j sl s. str_at S j sl s \<Longrightarrow> s \<noteq> [] \<Longrightarrow> rec j sl = Some (glob ts s)"
    and ts: "\<not> glob ts []" and "str_at S j sl s"
  shows "try_suffixes rec j sl = Some (glob (Star # ts) s)"
  using assms(3)
proof (induction s arbitrary: j sl)
  case Nil
  then have "sl = 0" by (auto simp: str_at_def)
  then show ?case using ts by (simp add: glob_star)
next
  case (Cons c s)
  have a: "str_at S (Suc j) (sl - 1) s" "sl = Suc (length s)" using str_at_Cons [OF Cons.prems] by auto
  have "glob (Star # ts) (c # s) \<longleftrightarrow> glob ts (c # s) \<or> glob (Star # ts) s"
  proof
    assume "glob (Star # ts) (c # s)"
    then obtain n where "n \<le> length (c # s)" "glob ts (drop n (c # s))" by (auto simp: glob_star)
    then show "glob ts (c # s) \<or> glob (Star # ts) s" by (cases n) (auto simp: glob_star)
  next
    assume "glob ts (c # s) \<or> glob (Star # ts) s"
    then show "glob (Star # ts) (c # s)"
    proof
      assume "glob ts (c # s)"
      then show ?thesis unfolding glob_star by (intro exI [of _ 0]) simp
    next
      assume "glob (Star # ts) s"
      then obtain n where "n \<le> length s" "glob ts (drop n s)" by (auto simp: glob_star)
      then show ?thesis unfolding glob_star by (intro exI [of _ "Suc n"]) simp
    qed
  qed
  then show ?case using rec [OF Cons.prems] Cons.IH [OF a(1)] a(2) by simp
qed

lemma stringmatch_at_correct:
  assumes "at P i pl p" and "str_at S j sl s"
  shows "stringmatch_at P i pl S j sl nc = Some (if s = [] then p = [] else glob (tokens nc p) s)"
  using assms
proof (induction p arbitrary: i pl j sl s rule: length_induct)
  case (1 p)
  note IH = "1.IH" [rule_format]
  show ?case
  proof (cases "p = [] \<or> s = []")
    case True
    then show ?thesis using at_len [OF "1.prems"(1)] "1.prems"(2)
      by (subst stringmatch_at.simps) (auto simp: str_at_def)
  next
    case False
    then obtain c q s0 s' where p: "p = c # q" and s: "s = s0 # s'" by (meson neq_Nil_conv)
    have a: "mem_get i P = Some c" "at P (i + 1) (pl - 1) q" "pl = 1 + int (length q)"
      using at_Cons [of P i pl c q] at_len [of P i pl p] "1.prems"(1) p by auto
    have b: "mem_get j S = Some s0" "str_at S (Suc j) (sl - 1) s'" "sl = Suc (length s')"
      using str_at_Cons [of S j sl s0 s'] "1.prems"(2) s by auto
    have nz: "pl \<noteq> 0 \<and> sl \<noteq> 0" using a(3) b(3) by simp
    show ?thesis
    proof (cases "c = 42")
      case True
      obtain i' pl' where sk: "skip_stars P i pl = Some (i', pl')" "at P (i' + 1) (pl' - 1) (strip_stars q)"
        using skip_stars_at "1.prems"(1) p by blast
      have len: "length (strip_stars q) \<le> length q" by (induction q) auto
      show ?thesis
      proof (cases "strip_stars q = []")
        case all: True
        have "glob (Star # tokens nc (strip_stars q)) s"
          unfolding all glob_star by (intro exI [of _ "length s"]) simp
        moreover have "pl' = 1" using at_len [OF sk(2)] all by simp
        ultimately show ?thesis using nz a(1) True sk(1) p s glob_skip_stars [of nc q s]
          by (subst stringmatch_at.simps) simp
      next
        case ne: False
        have "pl' \<noteq> 1" using at_len [OF sk(2)] ne by auto
        moreover have "try_suffixes (\<lambda>j sl. stringmatch_at P (i' + 1) (pl' - 1) S j sl nc) j sl
            = Some (glob (Star # tokens nc (strip_stars q)) s)"
        proof (rule try_suffixes_glob)
          show "\<not> glob (tokens nc (strip_stars q)) []"
            using ne by (simp add: glob_all_stars) (induction q, auto)
          show "stringmatch_at P (i' + 1) (pl' - 1) S j sl nc = Some (glob (tokens nc (strip_stars q)) s)"
            if "str_at S j sl s" "s \<noteq> []" for j sl s
            using IH [of "strip_stars q", OF _ sk(2) that(1)] that(2) len p by simp
          show "str_at S j sl s" by (rule "1.prems"(2))
        qed
        ultimately show ?thesis using nz a(1) True sk(1) p s glob_skip_stars [of nc q s]
          by (subst stringmatch_at.simps) simp
      qed
    next
      case False
      obtain f r i' pl' where m: "tokens nc p = Single f # tokens nc r" "length r \<le> length q"
        "match_one P i pl c S j nc = Some (if f s0 then Some (i', pl') else None)"
        "at P (i' + 1) (pl' - 1) r"
        using match_one_at [OF _ b(1) False, of P i pl q nc] "1.prems"(1) p by blast
      show ?thesis
      proof (cases "s' = []")
        case True
        obtain i2 pl2 where "trail_stars P (i' + 1) (pl' - 1) = Some (i2, pl2)"
          "pl2 = 0 \<longleftrightarrow> strip_stars r = []" using trail_stars_at [OF m(4)] by blast
        then show ?thesis using nz a(1) False m True b(3) s
          by (subst stringmatch_at.simps) (auto simp: glob_all_stars)
      next
        case ne: False
        have "stringmatch_at P (i' + 1) (pl' - 1) S (Suc j) (sl - 1) nc = Some (glob (tokens nc r) s')"
          using IH [of r, OF _ m(4) b(2)] ne m(2) p by simp
        then show ?thesis using nz a(1) False m ne b(3) s
          by (subst stringmatch_at.simps) auto
      qed
    qed
  qed
qed

subsection \<open>Properties\<close>

text \<open>
  C8. For every pattern stored with a NUL byte behind it and every string, \<open>stringmatchlen\<close>
  terminates without reading outside of the two buffers and returns whether the string
  matches the tokens of the pattern (\<open>*\<close>, \<open>?\<close>, classes with ranges, negation and escapes,
  escaped and plain characters, with and without case folding); the empty string is matched
  by the empty pattern only.
\<close>
theorem stringmatchlen_correct:
  "stringmatchlen (pat @ 0 # post) (length pat) (str @ spost) (length str) nocase
   = Some (if str = [] then pat = [] else glob (tokens nocase pat) str)"
proof -
  have "at (pat @ 0 # post) 0 (int (length pat)) pat" by (auto simp: at_def)
  moreover have "str_at (str @ spost) 0 (length str) str" by (auto simp: str_at_def)
  ultimately show ?thesis unfolding stringmatchlen_def by (rule stringmatch_at_correct)
qed

end
