(* ===== verification/Dict.thy ===== *)
theory Dict
  imports Interfaces "HOL-Library.While_Combinator" "HOL-Library.Multiset"
begin

section \<open>Hash tables with incremental rehashing (\<open>redis-5.0/src/dict.c\<close>)\<close>

text \<open>
  A dictionary has two chained hash tables.  While it is rehashing (\<open>rehashidx\<close> is not -1)
  every operation moves a bucket from the first table to the second one.  A chain of
  \<open>dictEntry\<close> nodes is the list of its entries, a table that is \<open>NULL\<close> is the empty list of
  buckets, a pointer to an entry is its table, bucket and position.  Counters and sizes are
  natural numbers; hashes are 64-bit words and bucket indices are computed with the size
  mask as in the code.  An access outside of a table and a failed assertion are \<open>None\<close>.
  Keys and values are HOL values: \<open>keyDup\<close>, \<open>valDup\<close> and the destructors, which only manage
  memory, are left out.
\<close>

subsection \<open>State\<close>

record 'k dictType =
  hashFunction :: "'k \<Rightarrow> 64 word"
  keyCompare :: "'k \<Rightarrow> 'k \<Rightarrow> bool"

record ('k, 'v) dictht =
  ht_table :: "('k \<times> 'v) list list"
  ht_size :: nat
  ht_sizemask :: nat
  ht_used :: nat

record ('k, 'v) dict =
  dtype :: "'k dictType"
  ht0 :: "('k, 'v) dictht"
  ht1 :: "('k, 'v) dictht"
  rehashidx :: int
  iterators :: nat

type_synonym eref = "nat \<times> nat \<times> nat"

definition DICT_HT_INITIAL_SIZE :: nat where "DICT_HT_INITIAL_SIZE = 4"

definition dict_force_resize_ratio :: nat where "dict_force_resize_ratio = 5"

text \<open>The global switch \<open>dict_can_resize\<close> is an argument of the operations that read it.\<close>

definition dictEnableResize :: bool where "dictEnableResize = True"
definition dictDisableResize :: bool where "dictDisableResize = False"

definition dictReset :: "('k, 'v) dictht" where
  "dictReset = \<lparr>ht_table = [], ht_size = 0, ht_sizemask = 0, ht_used = 0\<rparr>"

definition dictCreate :: "'k dictType \<Rightarrow> ('k, 'v) dict" where
  "dictCreate t = \<lparr>dtype = t, ht0 = dictReset, ht1 = dictReset, rehashidx = -1, iterators = 0\<rparr>"

definition dictIsRehashing :: "('k, 'v) dict \<Rightarrow> bool" where
  "dictIsRehashing d \<longleftrightarrow> rehashidx d \<noteq> -1"

definition dictSize :: "('k, 'v) dict \<Rightarrow> nat" where
  "dictSize d = ht_used (ht0 d) + ht_used (ht1 d)"

definition dictGetHash :: "('k, 'v) dict \<Rightarrow> 'k \<Rightarrow> 64 word" where
  "dictGetHash d key = hashFunction (dtype d) key"

definition key_eq :: "('k, 'v) dict \<Rightarrow> 'k \<Rightarrow> 'k \<Rightarrow> bool" where
  "key_eq d a b \<longleftrightarrow> a = b \<or> keyCompare (dtype d) a b"

definition slot :: "('k, 'v) dictht \<Rightarrow> 64 word \<Rightarrow> nat" where
  "slot ht h = unat (h AND of_nat (ht_sizemask ht))"

definition the_ht :: "('k, 'v) dict \<Rightarrow> nat \<Rightarrow> ('k, 'v) dictht" where
  "the_ht d t = (if t = 0 then ht0 d else ht1 d)"

definition upd_ht :: "nat \<Rightarrow> (('k, 'v) dictht \<Rightarrow> ('k, 'v) dictht) \<Rightarrow> ('k, 'v) dict \<Rightarrow> ('k, 'v) dict" where
  "upd_ht t f d = (if t = 0 then d\<lparr>ht0 := f (ht0 d)\<rparr> else d\<lparr>ht1 := f (ht1 d)\<rparr>)"

definition put_bucket :: "nat \<Rightarrow> ('k \<times> 'v) list \<Rightarrow> ('k, 'v) dictht \<Rightarrow> ('k, 'v) dictht" where
  "put_bucket i es ht = ht\<lparr>ht_table := (ht_table ht)[i := es]\<rparr>"

subsection \<open>Growing\<close>

definition dictNextPower :: "nat \<Rightarrow> nat" where
  "dictNextPower sz =
     (if sz \<ge> 2 ^ 63 - 1 then 2 ^ 63
      else while (\<lambda>i. \<not> i \<ge> sz) (\<lambda>i. i * 2) DICT_HT_INITIAL_SIZE)"

text \<open>\<open>dictExpand\<close>: the flag is \<open>True\<close> for \<open>DICT_OK\<close> and \<open>False\<close> for \<open>DICT_ERR\<close>.\<close>

definition dictExpand :: "('k, 'v) dict \<Rightarrow> nat \<Rightarrow> ('k, 'v) dict \<times> bool" where
  "dictExpand d sz =
     (if dictIsRehashing d \<or> ht_used (ht0 d) > sz then (d, False)
      else (let realsize = dictNextPower sz in
        if realsize = ht_size (ht0 d) then (d, False)
        else (let n = \<lparr>ht_table = replicate realsize [], ht_size = realsize,
                       ht_sizemask = realsize - 1, ht_used = 0\<rparr>
              in if ht_table (ht0 d) = [] then (d\<lparr>ht0 := n\<rparr>, True)
                 else (d\<lparr>ht1 := n, rehashidx := 0\<rparr>, True))))"

text \<open>\<open>dictResize\<close>: \<open>minimal\<close> is an \<open>int\<close>, so the counter is cut to 32 bits.\<close>

definition dictResize :: "bool \<Rightarrow> ('k, 'v) dict \<Rightarrow> ('k, 'v) dict \<times> bool" where
  "dictResize can_resize d =
     (if \<not> can_resize \<or> dictIsRehashing d then (d, False)
      else (let minimal = sint (of_nat (ht_used (ht0 d)) :: 32 word);
                minimal = (if minimal < int DICT_HT_INITIAL_SIZE then int DICT_HT_INITIAL_SIZE
                           else minimal)
            in dictExpand d (nat minimal)))"

definition dictExpandIfNeeded :: "bool \<Rightarrow> ('k, 'v) dict \<Rightarrow> ('k, 'v) dict \<times> bool" where
  "dictExpandIfNeeded can_resize d =
     (if dictIsRehashing d then (d, True)
      else if ht_size (ht0 d) = 0 then dictExpand d DICT_HT_INITIAL_SIZE
      else if ht_used (ht0 d) \<ge> ht_size (ht0 d) \<and>
              (can_resize \<or> ht_used (ht0 d) div ht_size (ht0 d) > dict_force_resize_ratio)
      then dictExpand d (ht_used (ht0 d) * 2)
      else (d, True))"

subsection \<open>Rehashing\<close>

text \<open>
  The loop over empty buckets: \<open>Some (idx, ev, True)\<close> is \<open>return 1\<close> because the budget of
  empty visits is used up, \<open>Some (idx, ev, False)\<close> a bucket that is not empty.
\<close>

function skip_empty :: "'a list list \<Rightarrow> nat \<Rightarrow> int \<Rightarrow> (nat \<times> int \<times> bool) option" where
  "skip_empty tab idx ev =
     (case mem_get idx tab of
        None \<Rightarrow> None
      | Some es \<Rightarrow>
          if es = [] then
            (if ev - 1 = 0 then Some (idx + 1, ev - 1, True) else skip_empty tab (idx + 1) (ev - 1))
          else Some (idx, ev, False))"
  by pat_completeness auto
termination
  by (relation "measure (\<lambda>(tab, idx, ev). length tab - idx)") (auto simp: mem_get_def split: if_splits)

declare skip_empty.simps [simp del]

text \<open>Move the entries of a bucket, from its head, to the front of their new buckets.\<close>

primrec move_bucket :: "('k \<times> 'v) list \<Rightarrow> ('k, 'v) dict \<Rightarrow> ('k, 'v) dict option" where
  "move_bucket [] d = Some d"
| "move_bucket (e # es) d =
     (let h = slot (ht1 d) (dictGetHash d (fst e)) in
      do { old \<leftarrow> mem_get h (ht_table (ht1 d));
           move_bucket es
             (d\<lparr>ht0 := (ht0 d)\<lparr>ht_used := ht_used (ht0 d) - 1\<rparr>,
                ht1 := (put_bucket h (e # old) (ht1 d))\<lparr>ht_used := ht_used (ht1 d) + 1\<rparr>\<rparr>) })"

definition rehash_finish :: "('k, 'v) dict \<Rightarrow> ('k, 'v) dict \<times> bool" where
  "rehash_finish d =
     (if ht_used (ht0 d) = 0 then (d\<lparr>ht0 := ht1 d, ht1 := dictReset, rehashidx := -1\<rparr>, False)
      else (d, True))"

primrec rehash_loop :: "nat \<Rightarrow> int \<Rightarrow> ('k, 'v) dict \<Rightarrow> (('k, 'v) dict \<times> bool) option" where
  "rehash_loop 0 ev d = Some (rehash_finish d)"
| "rehash_loop (Suc n) ev d =
     (if ht_used (ht0 d) = 0 then Some (rehash_finish d)
      else if \<not> int (ht_size (ht0 d)) > rehashidx d then None
      else do {
        (idx, ev, out) \<leftarrow> skip_empty (ht_table (ht0 d)) (nat (rehashidx d)) ev;
        (if out then Some (d\<lparr>rehashidx := int idx\<rparr>, True)
         else do {
           es \<leftarrow> mem_get idx (ht_table (ht0 d));
           d \<leftarrow> move_bucket es d;
           rehash_loop n ev (d\<lparr>ht0 := put_bucket idx [] (ht0 d), rehashidx := int idx + 1\<rparr>) }) })"

text \<open>\<open>empty_visits\<close> is an \<open>int\<close>: a multiplication \<open>n*10\<close> that does not fit is undefined.\<close>

definition dictRehash :: "('k, 'v) dict \<Rightarrow> nat \<Rightarrow> (('k, 'v) dict \<times> bool) option" where
  "dictRehash d n =
     (if n * 10 \<ge> 2 ^ 31 then None
      else let empty_visits = int n * 10 in
        if \<not> dictIsRehashing d then Some (d, False) else rehash_loop n empty_visits d)"

definition dictRehashStep :: "('k, 'v) dict \<Rightarrow> ('k, 'v) dict option" where
  "dictRehashStep d = (if iterators d = 0 then map_option fst (dictRehash d 1) else Some d)"

definition rehash_if :: "('k, 'v) dict \<Rightarrow> ('k, 'v) dict option" where
  "rehash_if d = (if dictIsRehashing d then dictRehashStep d else Some d)"

subsection \<open>Lookup, insertion, deletion\<close>

fun chain_find :: "('k \<Rightarrow> bool) \<Rightarrow> nat \<Rightarrow> ('k \<times> 'v) list \<Rightarrow> nat option" where
  "chain_find p n [] = None"
| "chain_find p n (e # es) = (if p (fst e) then Some n else chain_find p (Suc n) es)"

text \<open>
  The loop over both tables that \<open>_dictKeyIndex\<close>, \<open>dictFind\<close> and \<open>dictGenericDelete\<close> share:
  the entry, if there is one, and the last bucket index that was computed.
\<close>

definition find_entry :: "('k, 'v) dict \<Rightarrow> 'k \<Rightarrow> 64 word \<Rightarrow> (eref option \<times> nat) option" where
  "find_entry d key hash =
     (let i0 = slot (ht0 d) hash in
      do {
        b0 \<leftarrow> mem_get i0 (ht_table (ht0 d));
        (case chain_find (key_eq d key) 0 b0 of
           Some p \<Rightarrow> Some (Some (0, i0, p), i0)
         | None \<Rightarrow>
             if \<not> dictIsRehashing d then Some (None, i0)
             else (let i1 = slot (ht1 d) hash in
               do {
                 b1 \<leftarrow> mem_get i1 (ht_table (ht1 d));
                 (case chain_find (key_eq d key) 0 b1 of
                    Some p \<Rightarrow> Some (Some (1, i1, p), i1)
                  | None \<Rightarrow> Some (None, i1)) })) })"

text \<open>\<open>_dictKeyIndex\<close>: the index for a new entry (\<open>None\<close> for -1) and the existing entry.\<close>

definition dictKeyIndex ::
    "bool \<Rightarrow> ('k, 'v) dict \<Rightarrow> 'k \<Rightarrow> 64 word \<Rightarrow> (('k, 'v) dict \<times> nat option \<times> eref option) option" where
  "dictKeyIndex can_resize d key hash =
     (let (d, ok) = dictExpandIfNeeded can_resize d in
      if \<not> ok then Some (d, None, None)
      else do {
        (existing, idx) \<leftarrow> find_entry d key hash;
        Some (d, (if existing = None then Some idx else None), existing) })"

text \<open>
  \<open>dictAddRaw\<close>: the new entry (its value field, uninitialised in C, is the argument \<open>junk\<close>)
  or the existing one.
\<close>

definition dictAddRaw ::
    "bool \<Rightarrow> 'v \<Rightarrow> ('k, 'v) dict \<Rightarrow> 'k \<Rightarrow> (('k, 'v) dict \<times> eref option \<times> eref option) option" where
  "dictAddRaw can_resize junk d key =
     do {
       d \<leftarrow> rehash_if d;
       (d, index, existing) \<leftarrow> dictKeyIndex can_resize d key (dictGetHash d key);
       (case index of
          None \<Rightarrow> Some (d, None, existing)
        | Some i \<Rightarrow>
            (let t = (if dictIsRehashing d then 1 else 0) in
             do {
               old \<leftarrow> mem_get i (ht_table (the_ht d t));
               Some (upd_ht t (\<lambda>ht. (put_bucket i ((key, junk) # old) ht)\<lparr>ht_used := ht_used ht + 1\<rparr>) d,
                     Some (t, i, 0), None) })) }"

definition dictSetVal :: "('k, 'v) dict \<Rightarrow> eref \<Rightarrow> 'v \<Rightarrow> ('k, 'v) dict option" where
  "dictSetVal d = (\<lambda>(t, i, p) val.
     do {
       es \<leftarrow> mem_get i (ht_table (the_ht d t));
       e \<leftarrow> mem_get p es;
       Some (upd_ht t (put_bucket i (es[p := (fst e, val)])) d) })"

definition dictGetEntry :: "('k, 'v) dict \<Rightarrow> eref \<Rightarrow> ('k \<times> 'v) option" where
  "dictGetEntry d = (\<lambda>(t, i, p). do { es \<leftarrow> mem_get i (ht_table (the_ht d t)); mem_get p es })"

definition dictAdd :: "bool \<Rightarrow> 'v \<Rightarrow> ('k, 'v) dict \<Rightarrow> 'k \<Rightarrow> 'v \<Rightarrow> (('k, 'v) dict \<times> bool) option" where
  "dictAdd can_resize junk d key val =
     do {
       (d, entry, existing) \<leftarrow> dictAddRaw can_resize junk d key;
       (case entry of
          None \<Rightarrow> Some (d, False)
        | Some r \<Rightarrow> do { d \<leftarrow> dictSetVal d r val; Some (d, True) }) }"

definition dictReplace :: "bool \<Rightarrow> 'v \<Rightarrow> ('k, 'v) dict \<Rightarrow> 'k \<Rightarrow> 'v \<Rightarrow> (('k, 'v) dict \<times> bool) option" where
  "dictReplace can_resize junk d key val =
     do {
       (d, entry, existing) \<leftarrow> dictAddRaw can_resize junk d key;
       (case entry of
          Some r \<Rightarrow> do { d \<leftarrow> dictSetVal d r val; Some (d, True) }
        | None \<Rightarrow> do { r \<leftarrow> existing; d \<leftarrow> dictSetVal d r val; Some (d, False) }) }"

definition dictAddOrFind :: "bool \<Rightarrow> 'v \<Rightarrow> ('k, 'v) dict \<Rightarrow> 'k \<Rightarrow> (('k, 'v) dict \<times> eref option) option" where
  "dictAddOrFind can_resize junk d key =
     do {
       (d, entry, existing) \<leftarrow> dictAddRaw can_resize junk d key;
       Some (d, if entry \<noteq> None then entry else existing) }"

definition dictFind :: "('k, 'v) dict \<Rightarrow> 'k \<Rightarrow> (('k, 'v) dict \<times> eref option) option" where
  "dictFind d key =
     (if ht_used (ht0 d) + ht_used (ht1 d) = 0 then Some (d, None)
      else do {
        d \<leftarrow> rehash_if d;
        (r, idx) \<leftarrow> find_entry d key (dictGetHash d key);
        Some (d, r) })"

definition dictFetchValue :: "('k, 'v) dict \<Rightarrow> 'k \<Rightarrow> (('k, 'v) dict \<times> 'v option) option" where
  "dictFetchValue d key =
     do {
       (d, he) \<leftarrow> dictFind d key;
       (case he of
          None \<Rightarrow> Some (d, None)
        | Some r \<Rightarrow> do { e \<leftarrow> dictGetEntry d r; Some (d, Some (snd e)) }) }"

definition dictGenericDelete :: "('k, 'v) dict \<Rightarrow> 'k \<Rightarrow> (('k, 'v) dict \<times> ('k \<times> 'v) option) option" where
  "dictGenericDelete d key =
     (if ht_used (ht0 d) = 0 \<and> ht_used (ht1 d) = 0 then Some (d, None)
      else do {
        d \<leftarrow> rehash_if d;
        (r, idx) \<leftarrow> find_entry d key (dictGetHash d key);
        (case r of
           None \<Rightarrow> Some (d, None)
         | Some (t, i, p) \<Rightarrow>
             do {
               es \<leftarrow> mem_get i (ht_table (the_ht d t));
               he \<leftarrow> mem_get p es;
               Some (upd_ht t (\<lambda>ht. (put_bucket i (take p es @ drop (Suc p) es) ht)
                                      \<lparr>ht_used := ht_used ht - 1\<rparr>) d, Some he) }) })"

definition dictDelete :: "('k, 'v) dict \<Rightarrow> 'k \<Rightarrow> (('k, 'v) dict \<times> bool) option" where
  "dictDelete d key = do { (d, he) \<leftarrow> dictGenericDelete d key; Some (d, he \<noteq> None) }"

definition dictUnlink :: "('k, 'v) dict \<Rightarrow> 'k \<Rightarrow> (('k, 'v) dict \<times> ('k \<times> 'v) option) option" where
  "dictUnlink d key = dictGenericDelete d key"

subsection \<open>Invariant and abstraction\<close>

text \<open>
  \<open>ht_live\<close>: an allocated table whose size is a power of two, whose mask and counter are
  right, and in which every entry is in the bucket of its hash.  \<open>dict_ok\<close> is the invariant of
  a dictionary, \<open>dict_map\<close> the finite map it stands for.
\<close>

definition entries :: "('k, 'v) dictht \<Rightarrow> ('k \<times> 'v) list" where
  "entries ht = concat (ht_table ht)"

definition ht_live :: "('k \<Rightarrow> 64 word) \<Rightarrow> ('k, 'v) dictht \<Rightarrow> bool" where
  "ht_live h ht \<longleftrightarrow>
     (\<exists>k \<le> 63. ht_size ht = 2 ^ k) \<and> length (ht_table ht) = ht_size ht \<and>
     ht_sizemask ht = ht_size ht - 1 \<and> ht_used ht = length (entries ht) \<and>
     (\<forall>i < ht_size ht. \<forall>e \<in> set (ht_table ht ! i). slot ht (h (fst e)) = i)"

definition dict_entries :: "('k, 'v) dict \<Rightarrow> ('k \<times> 'v) list" where
  "dict_entries d = entries (ht0 d) @ entries (ht1 d)"

definition type_ok :: "'k dictType \<Rightarrow> bool" where
  "type_ok t \<longleftrightarrow> (\<forall>a b. keyCompare t a b \<longleftrightarrow> a = b)"

definition dict_ok :: "('k, 'v) dict \<Rightarrow> bool" where
  "dict_ok d \<longleftrightarrow>
     type_ok (dtype d) \<and> distinct (map fst (dict_entries d)) \<and>
     (if rehashidx d = -1
      then ht1 d = dictReset \<and> (ht0 d = dictReset \<or> ht_live (hashFunction (dtype d)) (ht0 d))
      else 0 \<le> rehashidx d \<and> rehashidx d \<le> int (ht_size (ht0 d)) \<and>
           (\<forall>i < nat (rehashidx d). ht_table (ht0 d) ! i = []) \<and>
           ht_live (hashFunction (dtype d)) (ht0 d) \<and> ht_live (hashFunction (dtype d)) (ht1 d))"

definition dict_map :: "('k, 'v) dict \<Rightarrow> 'k \<Rightarrow> 'v option" where
  "dict_map d = map_of (dict_entries d)"

subsection \<open>Tables\<close>

lemma entries_reset [simp]: "entries dictReset = []"
  by (simp add: entries_def dictReset_def)

lemma reset_simps [simp]:
  "ht_table dictReset = []" "ht_size dictReset = 0" "ht_used dictReset = 0" "ht_sizemask dictReset = 0"
  by (simp_all add: dictReset_def)

lemma put_bucket_simps [simp]:
  "ht_size (put_bucket i es ht) = ht_size ht" "ht_sizemask (put_bucket i es ht) = ht_sizemask ht"
  "ht_used (put_bucket i es ht) = ht_used ht" "ht_table (put_bucket i es ht) = (ht_table ht)[i := es]"
  by (simp_all add: put_bucket_def)

lemma slot_cong [simp]:
  "slot (put_bucket i es ht) h = slot ht h" "slot (ht\<lparr>ht_used := n\<rparr>) h = slot ht h"
  by (simp_all add: slot_def)

lemma entries_used [simp]: "entries (ht\<lparr>ht_used := n\<rparr>) = entries ht"
  by (simp add: entries_def)

lemma mset_concat_update:
  "i < length xss \<Longrightarrow> mset (concat (xss[i := ys])) + mset (xss ! i) = mset (concat xss) + mset ys"
proof (induction xss arbitrary: i)
  case (Cons xs xss)
  show ?case
  proof (cases i)
    case (Suc j)
    then show ?thesis using Cons.IH [of j] Cons.prems by (simp add: ac_simps)
  qed (simp add: ac_simps)
qed simp

lemma mset_entries_put:
  "i < length (ht_table ht) \<Longrightarrow>
   mset (entries (put_bucket i es ht)) + mset (ht_table ht ! i) = mset (entries ht) + mset es"
  by (simp add: entries_def mset_concat_update)

lemma slot_less:
  assumes "ht_live h ht" shows "slot ht x < length (ht_table ht)"
proof -
  obtain k where k: "k \<le> 63" "ht_size ht = 2 ^ k" using assms by (auto simp: ht_live_def)
  have "slot ht x \<le> unat (of_nat (2 ^ k - 1) :: 64 word)"
    using assms k by (simp add: slot_def ht_live_def word_and_le1 flip: word_le_nat_alt)
  also have "\<dots> = 2 ^ k - 1"
  proof (rule unat_word_of_nat)
    have "(2::nat) ^ k \<le> 2 ^ 63" using k(1) by (rule power_increasing) simp
    then show "(2::nat) ^ k - 1 < 2 ^ LENGTH(64)" by simp
  qed
  finally have "slot ht x \<le> 2 ^ k - 1" .
  moreover have "(0::nat) < 2 ^ k" by simp
  moreover have "length (ht_table ht) = 2 ^ k" using assms k by (simp add: ht_live_def)
  ultimately show ?thesis by linarith
qed

lemma ht_live_bucket:
  "ht_live h ht \<Longrightarrow> e \<in> set (entries ht) \<Longrightarrow> e \<in> set (ht_table ht ! slot ht (h (fst e)))"
  by (auto simp: ht_live_def entries_def in_set_conv_nth [of _ "ht_table ht"])

lemma bucket_entries: "i < length (ht_table ht) \<Longrightarrow> set (ht_table ht ! i) \<subseteq> set (entries ht)"
  by (auto simp: entries_def intro: bexI [OF _ nth_mem])

lemma ht_live_size: "ht_live h ht \<Longrightarrow> length (ht_table ht) = ht_size ht"
  by (simp add: ht_live_def)

lemma ht_live_used: "ht_live h ht \<Longrightarrow> ht_used ht = length (entries ht)"
  by (simp add: ht_live_def)

lemma ht_live_put:
  assumes "ht_live h ht" "i < length (ht_table ht)" "\<forall>e \<in> set es. slot ht (h (fst e)) = i"
    and n: "n = length (entries (put_bucket i es ht))"
  shows "ht_live h ((put_bucket i es ht)\<lparr>ht_used := n\<rparr>)"
  using assms by (auto simp: ht_live_def nth_list_update)

lemma length_entries_put:
  "i < length (ht_table ht) \<Longrightarrow>
   length (entries (put_bucket i es ht)) + length (ht_table ht ! i) = length (entries ht) + length es"
  using arg_cong [OF mset_entries_put, of i ht size es] by simp

lemma ht_live_cons:
  assumes "ht_live h ht" "slot ht (h (fst e)) = i"
  shows "ht_live h ((put_bucket i (e # ht_table ht ! i) ht)\<lparr>ht_used := ht_used ht + 1\<rparr>)"
    and "mset (entries (put_bucket i (e # ht_table ht ! i) ht)) = add_mset e (mset (entries ht))"
proof -
  have i: "i < length (ht_table ht)" using assms slot_less by blast
  show "ht_live h ((put_bucket i (e # ht_table ht ! i) ht)\<lparr>ht_used := ht_used ht + 1\<rparr>)"
  proof (rule ht_live_put [OF assms(1) i])
    show "\<forall>x\<in>set (e # ht_table ht ! i). slot ht (h (fst x)) = i"
      using assms i by (auto simp: ht_live_def)
    show "ht_used ht + 1 = length (entries (put_bucket i (e # ht_table ht ! i) ht))"
      using length_entries_put [OF i, of "e # ht_table ht ! i"] assms(1) by (simp add: ht_live_used)
  qed
  show "mset (entries (put_bucket i (e # ht_table ht ! i) ht)) = add_mset e (mset (entries ht))"
    using mset_entries_put [OF i, of "e # ht_table ht ! i"] by simp
qed

lemma replicate_live:
  assumes "k \<le> 63"
  shows "ht_live h \<lparr>ht_table = replicate (2 ^ k) [], ht_size = 2 ^ k, ht_sizemask = 2 ^ k - 1, ht_used = 0\<rparr>"
  using assms by (auto simp: ht_live_def entries_def)

subsection \<open>Sizes\<close>

lemma next_power_loop:
  fixes i sz :: nat
  shows "0 < i \<Longrightarrow> \<exists>j. while (\<lambda>i. \<not> i \<ge> sz) (\<lambda>i. i * 2) i = i * 2 ^ j \<and> sz \<le> i * 2 ^ j \<and>
     (j = 0 \<or> i * 2 ^ j < 2 * sz)"
proof (induction "sz - i" arbitrary: i rule: less_induct)
  case less
  show ?case
  proof (cases "sz \<le> i")
    case True
    then show ?thesis by (intro exI [of _ 0]) (simp add: while_unfold [of _ _ i])
  next
    case False
    have m: "sz - i * 2 < sz - i" "0 < i * 2" using less.prems False by auto
    obtain j where j: "while (\<lambda>i. \<not> i \<ge> sz) (\<lambda>i. i * 2) (i * 2) = i * 2 * 2 ^ j"
        "sz \<le> i * 2 * 2 ^ j" "j = 0 \<or> i * 2 * 2 ^ j < 2 * sz"
      using less.hyps [OF m] by blast
    then show ?thesis using False
      by (intro exI [of _ "Suc j"]) (auto simp: while_unfold [of _ _ i] ac_simps)
  qed
qed

lemma dictNextPower_spec:
  assumes "sz < 2 ^ 62"
  shows "\<exists>k. 2 \<le> k \<and> k \<le> 62 \<and> dictNextPower sz = 2 ^ k \<and> sz \<le> 2 ^ k \<and> (k = 2 \<or> 2 ^ k < 2 * sz)"
proof -
  have w: "dictNextPower sz = while (\<lambda>i. \<not> i \<ge> sz) (\<lambda>i. i * 2) 4"
    using assms by (simp add: dictNextPower_def DICT_HT_INITIAL_SIZE_def)
  have "(0::nat) < 4" by simp
  from next_power_loop [OF this, of sz]
  obtain j where j: "dictNextPower sz = 4 * 2 ^ j" "sz \<le> 4 * 2 ^ j" "j = 0 \<or> 4 * 2 ^ j < 2 * sz"
    unfolding w by blast
  have e: "(4::nat) * 2 ^ j = 2 ^ (j + 2)" by (simp add: power_add)
  have "j + 2 \<le> 62"
  proof (cases "j = 0")
    case False
    then have "(2::nat) ^ (j + 2) < 2 * sz" using j(3) [unfolded e] by blast
    also have "\<dots> < 2 ^ 63" using assms by simp
    finally show ?thesis by (simp only: power_strict_increasing_iff)
  qed simp
  then show ?thesis using j [unfolded e] by (intro exI [of _ "j + 2"]) auto
qed

subsection \<open>Rehashing keeps the map\<close>

lemma skip_empty_finds:
  assumes "idx \<le> j" "j < length tab" "tab ! j \<noteq> []"
  shows "\<exists>idx' ev' out. skip_empty tab idx ev = Some (idx', ev', out) \<and> idx \<le> idx' \<and> idx' \<le> j \<and>
           (\<forall>i. idx \<le> i \<and> i < idx' \<longrightarrow> tab ! i = []) \<and> (out \<or> tab ! idx' \<noteq> []) \<and>
           ev' = ev - int (idx' - idx) \<and> (out \<longrightarrow> ev' = 0)"
  using assms
proof (induction tab idx ev rule: skip_empty.induct)
  case (1 tab idx ev)
  have l: "mem_get idx tab = Some (tab ! idx)" using "1.prems" by (simp add: mem_simps)
  show ?case
  proof (cases "tab ! idx = []")
    case False
    then have "skip_empty tab idx ev = Some (idx, ev, False)" using l by (subst skip_empty.simps) simp
    then show ?thesis using False "1.prems" by (intro exI [of _ idx] exI [of _ ev] exI [of _ False]) auto
  next
    case True
    then have lt: "idx + 1 \<le> j" using "1.prems" by (metis Suc_eq_plus1 Suc_leI le_neq_implies_less)
    show ?thesis
    proof (cases "ev - 1 = 0")
      case e: True
      have "\<forall>i. idx \<le> i \<and> i < idx + 1 \<longrightarrow> tab ! i = []" using True by (auto simp: less_Suc_eq)
      moreover have "skip_empty tab idx ev = Some (idx + 1, ev - 1, True)"
        using l True e by (subst skip_empty.simps) simp
      ultimately show ?thesis using lt e by (intro exI [of _ "idx + 1"] exI [of _ "ev - 1"] exI [of _ True]) simp
    next
      case e: False
      obtain idx' ev' out where r: "skip_empty tab (idx + 1) (ev - 1) = Some (idx', ev', out)"
          "idx + 1 \<le> idx'" "idx' \<le> j" "\<forall>i. idx + 1 \<le> i \<and> i < idx' \<longrightarrow> tab ! i = []"
          "out \<or> tab ! idx' \<noteq> []" "ev' = ev - 1 - int (idx' - (idx + 1))" "out \<longrightarrow> ev' = 0"
        using "1.IH" [OF l True e lt] "1.prems" by blast
      have "\<forall>i. idx \<le> i \<and> i < idx' \<longrightarrow> tab ! i = []"
        using r(4) True by (metis Suc_eq_plus1 Suc_leI le_neq_implies_less)
      moreover have "skip_empty tab idx ev = Some (idx', ev', out)"
        using l True e r(1) by (subst skip_empty.simps) simp
      moreover have "ev' = ev - int (idx' - idx)" using r(2,6) by simp
      ultimately show ?thesis using r by (intro exI [of _ idx'] exI [of _ ev'] exI [of _ out]) simp
    qed
  qed
qed

lemma move_bucket_spec:
  assumes "ht_live (hashFunction (dtype d)) (ht1 d)" "length es \<le> ht_used (ht0 d)"
  shows "\<exists>t1. move_bucket es d =
            Some (d\<lparr>ht0 := (ht0 d)\<lparr>ht_used := ht_used (ht0 d) - length es\<rparr>, ht1 := t1\<rparr>) \<and>
          ht_live (hashFunction (dtype d)) t1 \<and> mset (entries t1) = mset (entries (ht1 d)) + mset es"
  using assms
proof (induction es arbitrary: d)
  case Nil
  then show ?case by (intro exI [of _ "ht1 d"]) simp
next
  case (Cons e es)
  define i where "i = slot (ht1 d) (dictGetHash d (fst e))"
  define t where "t = (put_bucket i (e # ht_table (ht1 d) ! i) (ht1 d))\<lparr>ht_used := ht_used (ht1 d) + 1\<rparr>"
  define d1 where "d1 = d\<lparr>ht0 := (ht0 d)\<lparr>ht_used := ht_used (ht0 d) - 1\<rparr>, ht1 := t\<rparr>"
  have i: "i < length (ht_table (ht1 d))" unfolding i_def by (rule slot_less [OF Cons.prems(1)])
  have t: "ht_live (hashFunction (dtype d)) t" "mset (entries t) = add_mset e (mset (entries (ht1 d)))"
    using ht_live_cons [OF Cons.prems(1), of e i] by (simp_all add: t_def i_def dictGetHash_def)
  have "\<exists>t1. move_bucket es d1 =
            Some (d1\<lparr>ht0 := (ht0 d1)\<lparr>ht_used := ht_used (ht0 d1) - length es\<rparr>, ht1 := t1\<rparr>) \<and>
          ht_live (hashFunction (dtype d1)) t1 \<and> mset (entries t1) = mset (entries (ht1 d1)) + mset es"
    by (rule Cons.IH) (use Cons.prems t in \<open>auto simp: d1_def\<close>)
  moreover have "move_bucket (e # es) d = move_bucket es d1"
    using i by (simp add: Let_def mem_simps d1_def t_def flip: i_def)
  ultimately show ?case using t by (auto simp: d1_def)
qed

text \<open>\<open>dict_keeps\<close>: what a step of rehashing leaves as it was.\<close>

definition dict_keeps :: "('k, 'v) dict \<Rightarrow> ('k, 'v) dict \<Rightarrow> bool" where
  "dict_keeps d d' \<longleftrightarrow> dict_ok d' \<and> mset (dict_entries d') = mset (dict_entries d) \<and>
     dtype d' = dtype d \<and> iterators d' = iterators d"

lemma dict_keeps_refl: "dict_ok d \<Longrightarrow> dict_keeps d d"
  by (simp add: dict_keeps_def)

lemma dict_keeps_trans: "dict_keeps d d1 \<Longrightarrow> dict_keeps d1 d2 \<Longrightarrow> dict_keeps d d2"
  by (simp add: dict_keeps_def)

lemma distinct_mset_fst:
  "mset xs = mset ys \<Longrightarrow> distinct (map fst xs) \<longleftrightarrow> distinct (map fst ys)"
  by (rule mset_eq_imp_distinct_iff) (simp add: mset_map)

lemma dict_map_mset:
  assumes "mset (dict_entries d') = mset (dict_entries d)" "distinct (map fst (dict_entries d))"
  shows "dict_map d' = dict_map d"
  unfolding dict_map_def
  using assms distinct_mset_fst [OF assms(1)] mset_eq_setD [OF assms(1)] by (metis map_of_inject_set)

lemma dict_keeps_map: "dict_ok d \<Longrightarrow> dict_keeps d d' \<Longrightarrow> dict_map d' = dict_map d"
  by (rule dict_map_mset) (simp_all add: dict_keeps_def dict_ok_def)

lemma rehash_finish_keeps:
  assumes "dict_ok d" "rehashidx d \<noteq> -1"
  shows "dict_keeps d (fst (rehash_finish d)) \<and>
    (snd (rehash_finish d) \<longleftrightarrow> dictIsRehashing (fst (rehash_finish d)))"
  using assms
  by (auto simp: rehash_finish_def dict_keeps_def dict_ok_def dict_entries_def ht_live_used dictIsRehashing_def)

lemma used_bucket:
  assumes "dict_ok d" "rehashidx d \<noteq> -1" "ht_used (ht0 d) \<noteq> 0"
  shows "\<exists>j. nat (rehashidx d) \<le> j \<and> j < length (ht_table (ht0 d)) \<and> ht_table (ht0 d) ! j \<noteq> []"
proof -
  have live: "ht_live (hashFunction (dtype d)) (ht0 d)" and e: "\<forall>i < nat (rehashidx d). ht_table (ht0 d) ! i = []"
    using assms by (simp_all add: dict_ok_def)
  have "entries (ht0 d) \<noteq> []" using ht_live_used [OF live] assms(3) by simp
  then obtain b where "b \<in> set (ht_table (ht0 d))" "b \<noteq> []" by (auto simp: entries_def)
  then obtain j where "j < length (ht_table (ht0 d))" "ht_table (ht0 d) ! j \<noteq> []" by (auto simp: in_set_conv_nth)
  then show ?thesis using e by (meson not_le_imp_less)
qed

lemma rehash_move:
  assumes ok: "dict_ok d" and re: "rehashidx d \<noteq> -1"
    and j: "nat (rehashidx d) \<le> j" "j < length (ht_table (ht0 d))"
    and e: "\<forall>i. nat (rehashidx d) \<le> i \<and> i < j \<longrightarrow> ht_table (ht0 d) ! i = []"
  shows "\<exists>d'. move_bucket (ht_table (ht0 d) ! j) d = Some d' \<and>
     dict_keeps d (d'\<lparr>ht0 := put_bucket j [] (ht0 d'), rehashidx := int j + 1\<rparr>) \<and>
     ht_size (ht0 d') = ht_size (ht0 d)"
proof -
  let ?b = "ht_table (ht0 d) ! j" and ?h = "hashFunction (dtype d)"
  have live: "ht_live ?h (ht0 d)" "ht_live ?h (ht1 d)" using ok re by (simp_all add: dict_ok_def)
  have len: "length (entries (put_bucket j [] (ht0 d))) + length ?b = ht_used (ht0 d)"
    using length_entries_put [OF j(2), of "[]"] ht_live_used [OF live(1)] by simp
  then have "length ?b \<le> ht_used (ht0 d)" by simp
  from move_bucket_spec [OF live(2) this] obtain t1 where t1:
    "move_bucket ?b d = Some (d\<lparr>ht0 := (ht0 d)\<lparr>ht_used := ht_used (ht0 d) - length ?b\<rparr>, ht1 := t1\<rparr>)"
    "ht_live ?h t1" "mset (entries t1) = mset (entries (ht1 d)) + mset ?b" by blast
  let ?n = "ht_used (ht0 d) - length ?b"
  let ?d = "d\<lparr>ht1 := t1, ht0 := put_bucket j [] ((ht0 d)\<lparr>ht_used := ?n\<rparr>), rehashidx := int j + 1\<rparr>"
  have t0: "put_bucket j [] ((ht0 d)\<lparr>ht_used := ?n\<rparr>) = (put_bucket j [] (ht0 d))\<lparr>ht_used := ?n\<rparr>"
    by (simp add: put_bucket_def)
  have l0: "ht_live ?h ((put_bucket j [] (ht0 d))\<lparr>ht_used := ?n\<rparr>)"
    by (rule ht_live_put [OF live(1) j(2)]) (use len in auto)
  have "mset (entries (put_bucket j [] (ht0 d))) + mset ?b = mset (entries (ht0 d))"
    using mset_entries_put [OF j(2), of "[]"] by simp
  then have ms: "mset (dict_entries ?d) = mset (dict_entries d)"
    by (simp add: dict_entries_def t0 t1(3))
  have dist: "distinct (map fst (dict_entries ?d))"
    using ok distinct_mset_fst [OF ms] by (simp add: dict_ok_def)
  have "\<forall>i < Suc j. (ht_table (ht0 d))[j := []] ! i = []"
    using e ok re j by (auto simp: dict_ok_def nth_list_update less_Suc_eq) (metis not_le_imp_less)
  moreover have "nat (int j + 1) = Suc j" by simp
  ultimately have "dict_ok ?d"
    using ok dist l0 t1(2) j ht_live_size [OF live(1)] unfolding dict_ok_def by (simp add: t0)
  then show ?thesis using t1(1) ms by (auto simp: dict_keeps_def)
qed

lemma dict_keeps_skip:
  assumes "dict_ok d" "rehashidx d \<noteq> -1" "nat (rehashidx d) \<le> j" "j \<le> length (ht_table (ht0 d))"
    and "\<forall>i. nat (rehashidx d) \<le> i \<and> i < j \<longrightarrow> ht_table (ht0 d) ! i = []"
  shows "dict_keeps d (d\<lparr>rehashidx := int j\<rparr>)"
  using assms ht_live_size [of "hashFunction (dtype d)" "ht0 d"]
  by (auto simp: dict_keeps_def dict_ok_def dict_entries_def not_le_imp_less) (metis not_le_imp_less)

lemma rehash_loop_step:
  assumes "dict_ok d" "rehashidx d \<noteq> -1" "ht_used (ht0 d) \<noteq> 0"
  obtains idx where "rehash_loop (Suc n) ev d = Some (d\<lparr>rehashidx := int idx\<rparr>, True)"
      "dict_keeps d (d\<lparr>rehashidx := int idx\<rparr>)" "ev = int (idx - nat (rehashidx d))"
      "nat (rehashidx d) \<le> idx" "idx < ht_size (ht0 d)"
  | idx d' where "rehash_loop (Suc n) ev d = rehash_loop n (ev - int (idx - nat (rehashidx d))) d'"
      "dict_keeps d d'" "nat (rehashidx d) \<le> idx" "rehashidx d' = int idx + 1" "ht_size (ht0 d') = ht_size (ht0 d)"
proof -
  have live: "length (ht_table (ht0 d)) = ht_size (ht0 d)" and r0: "0 \<le> rehashidx d"
    using assms ht_live_size by (fastforce simp: dict_ok_def)+
  obtain j where j: "nat (rehashidx d) \<le> j" "j < length (ht_table (ht0 d))" "ht_table (ht0 d) ! j \<noteq> []"
    using used_bucket [OF assms] by blast
  obtain idx ev' out where s: "skip_empty (ht_table (ht0 d)) (nat (rehashidx d)) ev = Some (idx, ev', out)"
      "nat (rehashidx d) \<le> idx" "idx \<le> j" "\<forall>i. nat (rehashidx d) \<le> i \<and> i < idx \<longrightarrow> ht_table (ht0 d) ! i = []"
      "ev' = ev - int (idx - nat (rehashidx d))" "out \<longrightarrow> ev' = 0"
    using skip_empty_finds [OF j, of ev] by blast
  have lt: "rehashidx d < int (ht_size (ht0 d))" using j live r0 by linarith
  have il: "idx < length (ht_table (ht0 d))" using s(3) j(2) by simp
  show thesis
  proof (cases out)
    case True
    have "rehash_loop (Suc n) ev d = Some (d\<lparr>rehashidx := int idx\<rparr>, True)"
      using assms(3) lt s(1) True by simp
    moreover have "dict_keeps d (d\<lparr>rehashidx := int idx\<rparr>)"
      by (rule dict_keeps_skip [OF assms(1,2) s(2) _ s(4)]) (use il in simp)
    moreover have "ev = int (idx - nat (rehashidx d))" using s(5,6) True by linarith
    ultimately show thesis using that(1) s(2) il live by metis
  next
    case False
    obtain d1 where d1: "move_bucket (ht_table (ht0 d) ! idx) d = Some d1"
        "dict_keeps d (d1\<lparr>ht0 := put_bucket idx [] (ht0 d1), rehashidx := int idx + 1\<rparr>)"
        "ht_size (ht0 d1) = ht_size (ht0 d)"
      using rehash_move [OF assms(1,2) s(2) il s(4)] by blast
    have "rehash_loop (Suc n) ev d =
        rehash_loop n ev' (d1\<lparr>ht0 := put_bucket idx [] (ht0 d1), rehashidx := int idx + 1\<rparr>)"
      using assms(3) lt s(1) False il d1(1) by (simp add: mem_simps)
    then show thesis by (rule that(2) [OF _ d1(2) s(2), folded s(5)]) (simp_all add: d1(3))
  qed
qed

lemma rehash_loop_keeps:
  "dict_ok d \<Longrightarrow> rehashidx d \<noteq> -1 \<Longrightarrow>
   \<exists>d' b. rehash_loop n ev d = Some (d', b) \<and> dict_keeps d d' \<and> (b \<longleftrightarrow> dictIsRehashing d')"
proof (induction n arbitrary: ev d)
  case 0
  then show ?case using rehash_finish_keeps [of d] by (cases "rehash_finish d") simp
next
  case (Suc n)
  show ?case
  proof (cases "ht_used (ht0 d) = 0")
    case True
    then show ?thesis using rehash_finish_keeps [OF Suc.prems] by (cases "rehash_finish d") simp
  next
    case False
    from Suc.prems False show ?thesis
    proof (cases rule: rehash_loop_step [where n = n and ev = ev])
      case (1 idx)
      then show ?thesis by (simp add: dictIsRehashing_def)
    next
      case (2 idx d')
      have "dict_ok d'" "rehashidx d' \<noteq> -1" using 2 by (simp_all add: dict_keeps_def)
      from Suc.IH [OF this] 2 show ?thesis by (metis dict_keeps_trans)
    qed
  qed
qed

lemma all_moved:
  "dict_ok d \<Longrightarrow> rehashidx d \<noteq> -1 \<Longrightarrow> int (ht_size (ht0 d)) \<le> rehashidx d \<Longrightarrow> ht_used (ht0 d) = 0"
  using used_bucket [of d] ht_live_size [of "hashFunction (dtype d)" "ht0 d"] by (force simp: dict_ok_def)

lemma rehash_loop_finishes:
  "dict_ok d \<Longrightarrow> rehashidx d \<noteq> -1 \<Longrightarrow> int (ht_size (ht0 d)) \<le> rehashidx d + int n \<Longrightarrow>
   int (ht_size (ht0 d)) \<le> ev + rehashidx d \<Longrightarrow> \<exists>d'. rehash_loop n ev d = Some (d', False)"
proof (induction n arbitrary: ev d)
  case 0
  then show ?case using all_moved [of d] by (simp add: rehash_finish_def)
next
  case (Suc n)
  have r0: "0 \<le> rehashidx d" using Suc.prems by (simp add: dict_ok_def)
  show ?case
  proof (cases "ht_used (ht0 d) = 0")
    case False
    from Suc.prems(1,2) False show ?thesis
    proof (cases rule: rehash_loop_step [where n = n and ev = ev])
      case (1 idx)
      then show ?thesis using Suc.prems(4) r0 by linarith
    next
      case (2 idx d')
      have "dict_ok d'" "rehashidx d' \<noteq> -1" using 2 by (simp_all add: dict_keeps_def)
      moreover have "int (ht_size (ht0 d')) \<le> rehashidx d' + int n"
        "int (ht_size (ht0 d')) \<le> ev - int (idx - nat (rehashidx d)) + rehashidx d'"
        using 2 Suc.prems(3,4) r0 by linarith+
      ultimately show ?thesis using Suc.IH 2(1) by simp
    qed
  qed (simp add: rehash_finish_def)
qed

lemma dictRehash_keeps:
  "dict_ok d \<Longrightarrow> n * 10 < 2 ^ 31 \<Longrightarrow> \<exists>d' b. dictRehash d n = Some (d', b) \<and> dict_keeps d d' \<and> (b \<longleftrightarrow> dictIsRehashing d')"
  using rehash_loop_keeps [of d n "int n * 10"] dict_keeps_refl [of d]
  by (auto simp: dictRehash_def dictIsRehashing_def)

lemma dictRehashStep_keeps: "dict_ok d \<Longrightarrow> \<exists>d'. dictRehashStep d = Some d' \<and> dict_keeps d d'"
  using dictRehash_keeps [of d 1] dict_keeps_refl [of d] by (fastforce simp: dictRehashStep_def)

lemma rehash_if_keeps: "dict_ok d \<Longrightarrow> \<exists>d'. rehash_if d = Some d' \<and> dict_keeps d d'"
  using dictRehashStep_keeps [of d] dict_keeps_refl [of d] by (auto simp: rehash_if_def)

text \<open>
  C17.  Rehashing by \<open>n\<close> buckets, for every \<open>n\<close> with \<open>n*10\<close> in the range of \<open>int\<close>, never leaves the tables, keeps the invariant and the map that
  the dictionary stands for, and its result says whether the dictionary is still rehashing;
  when \<open>n\<close> is also at least the number of buckets of the old table, it completes the migration.
\<close>

theorem dictRehash_correct:
  assumes "dict_ok d" "n * 10 < 2 ^ 31"
  shows "\<exists>d' b. dictRehash d n = Some (d', b) \<and> dict_ok d' \<and> dict_map d' = dict_map d \<and>
    (b \<longleftrightarrow> dictIsRehashing d') \<and> (ht_size (ht0 d) \<le> n \<longrightarrow> \<not> b)"
proof -
  obtain d' b where r: "dictRehash d n = Some (d', b)" "dict_keeps d d'" "b \<longleftrightarrow> dictIsRehashing d'"
    using dictRehash_keeps [OF assms] by blast
  have "\<not> b" if n: "ht_size (ht0 d) \<le> n"
  proof (cases "rehashidx d = -1")
    case True
    then show ?thesis using r(1) by (auto simp: dictRehash_def dictIsRehashing_def split: if_splits)
  next
    case False
    have "0 \<le> rehashidx d" using assms False by (simp add: dict_ok_def)
    then have "\<exists>d'. rehash_loop n (int n * 10) d = Some (d', False)"
      using n by (intro rehash_loop_finishes [OF assms(1) False]) auto
    then show ?thesis using r(1) False by (auto simp: dictRehash_def dictIsRehashing_def split: if_splits)
  qed
  then show ?thesis using r dict_keeps_map [OF assms(1) r(2)] by (auto simp: dict_keeps_def)
qed

subsection \<open>Growing keeps the map\<close>

lemma dictExpand_keeps:
  fixes d :: "('a, 'b) dict"
  assumes ok: "dict_ok d" and sz: "sz < 2 ^ 62"
  shows "dict_keeps d (fst (dictExpand d sz))"
proof -
  obtain k where k: "k \<le> 62" "dictNextPower sz = 2 ^ k" using dictNextPower_spec [OF sz] by blast
  define n :: "('a, 'b) dictht" where
    "n = \<lparr>ht_table = replicate (2 ^ k) [], ht_size = 2 ^ k, ht_sizemask = 2 ^ k - 1, ht_used = 0\<rparr>"
  have l: "ht_live h n" for h unfolding n_def by (rule replicate_live) (use k in simp)
  have ne: "ht_live h (ht0 d) \<Longrightarrow> ht_table (ht0 d) \<noteq> []" for h
    by (auto simp: ht_live_def)
  have e: "entries n = []" by (simp add: entries_def n_def)
  show ?thesis
  proof (cases "dictIsRehashing d \<or> ht_used (ht0 d) > sz \<or> 2 ^ k = ht_size (ht0 d)")
    case True
    then show ?thesis using dict_keeps_refl [OF ok] by (auto simp: dictExpand_def k Let_def)
  next
    case False
    then have re: "rehashidx d = -1" by (simp add: dictIsRehashing_def)
    have r1: "ht1 d = dictReset" and r0: "ht0 d = dictReset \<or> ht_live (hashFunction (dtype d)) (ht0 d)"
      using ok re by (simp_all add: dict_ok_def)
    show ?thesis
    proof (cases "ht_table (ht0 d) = []")
      case True
      then have "ht0 d = dictReset" using r0 ne by blast
      then show ?thesis using False True ok re r1 l e
        by (simp add: dictExpand_def k(2) Let_def dict_keeps_def dict_ok_def dict_entries_def flip: n_def [unfolded One_nat_def])
    next
      case ne0: False
      then have "ht_live (hashFunction (dtype d)) (ht0 d)" using r0 by auto
      then show ?thesis using False ne0 ok re r1 l e
        by (simp add: dictExpand_def k(2) Let_def dict_keeps_def dict_ok_def dict_entries_def flip: n_def [unfolded One_nat_def])
    qed
  qed
qed

text \<open>An insertion finds room: the expansion succeeds and the first table is allocated.\<close>

lemma dictExpandIfNeeded_keeps:
  assumes ok: "dict_ok d" and small: "dictSize d < 2 ^ 61"
  shows "\<exists>d'. dictExpandIfNeeded c d = (d', True) \<and> dict_keeps d d' \<and> ht_live (hashFunction (dtype d')) (ht0 d')"
proof (cases "rehashidx d = -1")
  case False
  then show ?thesis using ok dict_keeps_refl [OF ok] by (auto simp: dictExpandIfNeeded_def dictIsRehashing_def dict_ok_def)
next
  case re: True
  have r1: "ht1 d = dictReset" and r0: "ht0 d = dictReset \<or> ht_live (hashFunction (dtype d)) (ht0 d)"
    using ok re by (simp_all add: dict_ok_def)
  show ?thesis
  proof (cases "ht0 d = dictReset")
    case True
    let ?d = "fst (dictExpand d 4)"
    obtain k where k: "k \<le> 62" "dictNextPower 4 = 2 ^ k" using dictNextPower_spec [of 4] by auto
    have "dict_keeps d ?d" by (rule dictExpand_keeps [OF ok]) simp
    moreover have "dictExpand d 4 = (?d, True)" "ht_table (ht0 ?d) = replicate (2 ^ k) []" "rehashidx ?d = -1"
      using re r1 True by (simp_all add: dictExpand_def dictIsRehashing_def k Let_def)
    moreover have "ht_live (hashFunction (dtype ?d)) (ht0 ?d)"
      using calculation by (auto simp: dict_keeps_def dict_ok_def)
    ultimately show ?thesis using re True by (intro exI [of _ ?d]) (simp add: dictExpandIfNeeded_def dictIsRehashing_def DICT_HT_INITIAL_SIZE_def)
  next
    case False
    then have live: "ht_live (hashFunction (dtype d)) (ht0 d)" using r0 by blast
    then have pos: "0 < ht_size (ht0 d)" by (auto simp: ht_live_def)
    have ne: "ht_table (ht0 d) \<noteq> []" using pos ht_live_size [OF live] by auto
    let ?n = "ht_used (ht0 d) * 2"
    let ?d = "fst (dictExpand d ?n)"
    have n: "?n < 2 ^ 62" using small by (simp add: dictSize_def)
    show ?thesis
    proof (cases "ht_used (ht0 d) \<ge> ht_size (ht0 d) \<and> (c \<or> ht_used (ht0 d) div ht_size (ht0 d) > dict_force_resize_ratio)")
      case True
      obtain k where k: "k \<le> 62" "dictNextPower ?n = 2 ^ k" "?n \<le> 2 ^ k" using dictNextPower_spec [OF n] by blast
      then have "ht_size (ht0 d) < 2 ^ k" using True pos by linarith
      then have "dictExpand d ?n = (?d, True)" "ht0 ?d = ht0 d" "dtype ?d = dtype d"
        using re ne k by (auto simp: dictExpand_def dictIsRehashing_def Let_def)
      then show ?thesis using dictExpand_keeps [OF ok n] live pos re True
        by (intro exI [of _ ?d]) (auto simp: dictExpandIfNeeded_def dictIsRehashing_def)
    next
      case False
      then show ?thesis using pos re live dict_keeps_refl [OF ok]
        by (auto simp: dictExpandIfNeeded_def dictIsRehashing_def)
    qed
  qed
qed

subsection \<open>Lookup\<close>

text \<open>\<open>at_ref d r e\<close>: the reference \<open>r\<close> points to the entry \<open>e\<close> of the dictionary.\<close>

fun at_ref :: "('k, 'v) dict \<Rightarrow> eref \<Rightarrow> 'k \<times> 'v \<Rightarrow> bool" where
  "at_ref d (t, i, p) e \<longleftrightarrow>
     (t = 0 \<or> t = 1 \<and> rehashidx d \<noteq> -1) \<and> ht_live (hashFunction (dtype d)) (the_ht d t) \<and>
     i < length (ht_table (the_ht d t)) \<and>
     p < length (ht_table (the_ht d t) ! i) \<and> ht_table (the_ht d t) ! i ! p = e"

lemma chain_find_Some:
  "chain_find q n es = Some p \<Longrightarrow> n \<le> p \<and> p < n + length es \<and> q (fst (es ! (p - n)))"
proof (induction es arbitrary: n)
  case (Cons e es)
  show ?case
  proof (cases "q (fst e)")
    case False
    then have "chain_find q (Suc n) es = Some p" using Cons.prems by simp
    from Cons.IH [OF this] show ?thesis by (auto simp: nth_Cons')
  qed (use Cons.prems in auto)
qed simp

lemma chain_find_None: "chain_find q n es = None \<longleftrightarrow> (\<forall>e \<in> set es. \<not> q (fst e))"
  by (induction es arbitrary: n) auto

lemma key_eq_iff: "dict_ok d \<Longrightarrow> key_eq d a b \<longleftrightarrow> a = b"
  by (auto simp: dict_ok_def type_ok_def key_eq_def)

lemma live_miss:
  assumes "ht_live h ht" "\<forall>e \<in> set (ht_table ht ! slot ht (h k)). k \<noteq> fst e"
  shows "k \<notin> fst ` set (entries ht)"
  using assms(2) ht_live_bucket [OF assms(1)] by fastforce

lemma find_entry_spec:
  assumes ok: "dict_ok d" and live: "ht_live (hashFunction (dtype d)) (ht0 d)"
  shows "\<exists>r i. find_entry d key (dictGetHash d key) = Some (r, i) \<and>
    (case r of
       None \<Rightarrow> key \<notin> fst ` set (dict_entries d) \<and>
               i = slot (the_ht d (if dictIsRehashing d then 1 else 0)) (dictGetHash d key)
     | Some ref \<Rightarrow> \<exists>v. at_ref d ref (key, v))"
proof -
  let ?h = "dictGetHash d key" and ?hf = "hashFunction (dtype d)"
  have ke: "key_eq d key = (\<lambda>b. key = b)" using key_eq_iff [OF ok] by auto
  define i0 where "i0 = slot (ht0 d) ?h"
  have i0: "i0 < length (ht_table (ht0 d))" unfolding i0_def by (rule slot_less [OF live])
  show ?thesis
  proof (cases "chain_find (key_eq d key) 0 (ht_table (ht0 d) ! i0)")
    case (Some p)
    then have "find_entry d key ?h = Some (Some (0, i0, p), i0)"
      using i0 by (simp add: find_entry_def mem_simps flip: i0_def)
    moreover have "at_ref d (0, i0, p) (key, snd (ht_table (ht0 d) ! i0 ! p))"
      using chain_find_Some [OF Some] i0 live by (simp add: the_ht_def ke prod_eq_iff)
    ultimately show ?thesis by fastforce
  next
    case None
    then have m0: "key \<notin> fst ` set (entries (ht0 d))"
      using live_miss [OF live, of key] by (simp add: chain_find_None ke i0_def dictGetHash_def)
    show ?thesis
    proof (cases "rehashidx d = -1")
      case True
      then have "ht1 d = dictReset" using ok by (simp add: dict_ok_def)
      then show ?thesis using None m0 i0 True
        by (simp add: find_entry_def mem_simps dict_entries_def dictIsRehashing_def the_ht_def i0_def)
    next
      case False
      then have l1: "ht_live ?hf (ht1 d)" using ok by (simp add: dict_ok_def)
      define i1 where "i1 = slot (ht1 d) ?h"
      have i1: "i1 < length (ht_table (ht1 d))" unfolding i1_def by (rule slot_less [OF l1])
      have fe: "find_entry d key ?h = (case chain_find (key_eq d key) 0 (ht_table (ht1 d) ! i1) of
                    Some p \<Rightarrow> Some (Some (1, i1, p), i1) | None \<Rightarrow> Some (None, i1))"
        using None i0 i1 False by (simp add: find_entry_def mem_simps dictIsRehashing_def flip: i0_def i1_def)
      show ?thesis
      proof (cases "chain_find (key_eq d key) 0 (ht_table (ht1 d) ! i1)")
        case (Some p)
        then have "at_ref d (1, i1, p) (key, snd (ht_table (ht1 d) ! i1 ! p))"
          using chain_find_Some [OF Some] i1 l1 False by (simp add: the_ht_def ke prod_eq_iff)
        then show ?thesis using Some fe by fastforce
      next
        case n1: None
        then have "key \<notin> fst ` set (entries (ht1 d))"
          using live_miss [OF l1, of key] by (simp add: chain_find_None ke i1_def dictGetHash_def)
        then show ?thesis using n1 m0 False
          by (auto simp: fe dict_entries_def dictIsRehashing_def the_ht_def i1_def)
      qed
    qed
  qed
qed

subsection \<open>Updates of one bucket\<close>

lemma map_of_mset:
  assumes "mset xs = mset ys" "distinct (map fst xs)" shows "map_of xs = map_of ys"
  using assms distinct_mset_fst [OF assms(1)] mset_eq_setD [OF assms(1)] by (metis map_of_inject_set)

lemma the_ht_upd [simp]: "t < 2 \<Longrightarrow> the_ht (upd_ht t f d) t = f (the_ht d t)"
  by (auto simp: the_ht_def upd_ht_def)

lemma upd_ht_simps [simp]:
  "dtype (upd_ht t f d) = dtype d" "rehashidx (upd_ht t f d) = rehashidx d" "iterators (upd_ht t f d) = iterators d"
  by (simp_all add: upd_ht_def)

lemma mset_dict_entries_upd:
  assumes "i < length (ht_table (the_ht d t))"
  shows "mset (dict_entries (upd_ht t (\<lambda>ht. (put_bucket i es ht)\<lparr>ht_used := n ht\<rparr>) d)) + mset (ht_table (the_ht d t) ! i) =
    mset (dict_entries d) + mset es"
  using mset_entries_put [OF assms, of es]
  by (auto simp: dict_entries_def upd_ht_def the_ht_def ac_simps)

text \<open>
  The rule for all updates: the bucket \<open>i\<close> of a live table is replaced by entries that belong
  into it, and the counter is set to the new number of entries.
\<close>

lemma upd_bucket_ok:
  assumes ok: "dict_ok d" and live: "ht_live (hashFunction (dtype d)) (the_ht d t)"
    and t: "t = 0 \<or> t = 1 \<and> rehashidx d \<noteq> -1"
    and i: "i < length (ht_table (the_ht d t))"
    and b: "\<forall>e \<in> set es. slot (the_ht d t) (hashFunction (dtype d) (fst e)) = i"
    and n: "n (the_ht d t) + length (ht_table (the_ht d t) ! i) = ht_used (the_ht d t) + length es"
    and pos: "t = 0 \<Longrightarrow> rehashidx d = -1 \<or> ht_table (ht0 d) ! i \<noteq> []"
    and dist: "distinct (map fst (dict_entries (upd_ht t (\<lambda>ht. (put_bucket i es ht)\<lparr>ht_used := n ht\<rparr>) d)))"
  shows "dict_ok (upd_ht t (\<lambda>ht. (put_bucket i es ht)\<lparr>ht_used := n ht\<rparr>) d)"
proof -
  let ?t = "(put_bucket i es (the_ht d t))\<lparr>ht_used := n (the_ht d t)\<rparr>"
  have "n (the_ht d t) = length (entries (put_bucket i es (the_ht d t)))"
    using n length_entries_put [OF i, of es] ht_live_used [OF live] by simp
  then have l: "ht_live (hashFunction (dtype d)) ?t" by (rule ht_live_put [OF live i b])
  show ?thesis
  proof (cases "t = 0")
    case True
    have e: "\<forall>j < nat (rehashidx d). (ht_table (ht0 d))[i := es] ! j = []" if "rehashidx d \<noteq> -1"
    proof -
      have "\<forall>j < nat (rehashidx d). ht_table (ht0 d) ! j = []" using ok that by (simp add: dict_ok_def)
      then show ?thesis using pos [OF True] that by (metis nth_list_update_neq)
    qed
    have u: "upd_ht t (\<lambda>ht. (put_bucket i es ht)\<lparr>ht_used := n ht\<rparr>) d = d\<lparr>ht0 := ?t\<rparr>"
      using True by (simp add: upd_ht_def the_ht_def)
    show ?thesis
      using ok l dist e True unfolding u by (auto simp: dict_ok_def the_ht_def)
  next
    case False
    then have u: "upd_ht t (\<lambda>ht. (put_bucket i es ht)\<lparr>ht_used := n ht\<rparr>) d = d\<lparr>ht1 := ?t\<rparr>"
      and r: "rehashidx d \<noteq> -1" using t by (simp_all add: upd_ht_def the_ht_def)
    then show ?thesis
      using ok l dist unfolding u by (auto simp: dict_ok_def the_ht_def)
  qed
qed

lemma dict_ok_bucket:
  assumes "ht_live h ht" "i < length (ht_table ht)" "e \<in> set (ht_table ht ! i)"
  shows "slot ht (h (fst e)) = i"
  using assms by (auto simp: ht_live_def)

lemma at_ref_entry: "at_ref d r e \<Longrightarrow> dictGetEntry d r = Some e"
  by (cases r) (auto simp: dictGetEntry_def mem_simps)

lemma at_ref_mem: "at_ref d r e \<Longrightarrow> e \<in> set (dict_entries d)"
proof (cases r)
  case (fields t i p)
  assume a: "at_ref d r e"
  then have "e \<in> set (ht_table (the_ht d t) ! i)" using fields by auto
  moreover have "set (ht_table (the_ht d t) ! i) \<subseteq> set (entries (the_ht d t))"
    by (rule bucket_entries) (use a fields in auto)
  ultimately show ?thesis by (auto simp: dict_entries_def the_ht_def split: if_splits)
qed

lemma mset_list_update: "p < length es \<Longrightarrow> add_mset (es ! p) (mset (es[p := x])) = add_mset x (mset es)"
  by (simp add: mset_update nth_mem insert_DiffM)

lemma mset_remove_nth: "p < length es \<Longrightarrow> add_mset (es ! p) (mset (take p es @ drop (Suc p) es)) = mset es"
  by (metis (no_types, lifting) id_take_nth_drop mset.simps(2) mset_append union_mset_add_mset_right)

lemma upd_ht_id: "put_bucket i es = (\<lambda>ht. (put_bucket i es ht)\<lparr>ht_used := ht_used ht\<rparr>)"
  by (simp add: put_bucket_def fun_eq_iff)

lemma dictSetVal_spec:
  assumes ok: "dict_ok d" and ref: "at_ref d r (k, v)"
  shows "\<exists>d'. dictSetVal d r val = Some d' \<and> dict_ok d' \<and>
    add_mset (k, v) (mset (dict_entries d')) = add_mset (k, val) (mset (dict_entries d))"
proof -
  obtain t i p where r: "r = (t, i, p)" by (cases r)
  let ?ht = "the_ht d t"
  let ?es = "ht_table ?ht ! i"
  let ?d = "upd_ht t (\<lambda>ht. (put_bucket i (?es[p := (k, val)]) ht)\<lparr>ht_used := ht_used ht\<rparr>) d"
  have a: "t = 0 \<or> t = 1 \<and> rehashidx d \<noteq> -1" "ht_live (hashFunction (dtype d)) ?ht"
      "i < length (ht_table ?ht)" "p < length ?es" "?es ! p = (k, v)"
    using ref r by auto
  have s: "dictSetVal d r val = Some ?d"
    using a r upd_ht_id [of i "?es[p := (k, val)]"] by (simp add: dictSetVal_def mem_simps)
  have m1: "add_mset (k, v) (mset (?es[p := (k, val)])) = add_mset (k, val) (mset ?es)"
    using mset_list_update [OF a(4), of "(k, val)"] a(5) by simp
  have "mset (dict_entries ?d) + mset ?es = mset (dict_entries d) + mset (?es[p := (k, val)])"
    by (rule mset_dict_entries_upd [OF a(3)])
  then have "add_mset (k, v) (mset (dict_entries ?d)) + mset ?es =
      mset (dict_entries d) + add_mset (k, v) (mset (?es[p := (k, val)]))"
    by simp
  then have ms: "add_mset (k, v) (mset (dict_entries ?d)) = add_mset (k, val) (mset (dict_entries d))"
    unfolding m1 by simp
  have "image_mset fst (add_mset (k, v) (mset (dict_entries ?d))) = image_mset fst (add_mset (k, val) (mset (dict_entries d)))"
    by (simp only: ms)
  then have "mset (map fst (dict_entries ?d)) = mset (map fst (dict_entries d))" by simp
  then have dist: "distinct (map fst (dict_entries ?d))"
    using ok mset_eq_imp_distinct_iff by (fastforce simp: dict_ok_def)
  have "\<forall>e \<in> set (?es[p := (k, val)]). slot ?ht (hashFunction (dtype d) (fst e)) = i"
  proof
    fix e assume "e \<in> set (?es[p := (k, val)])"
    then have "e = (k, val) \<or> e \<in> set ?es" using set_update_subset_insert by fastforce
    moreover have "(k, v) \<in> set ?es" using a(4,5) by (metis nth_mem)
    ultimately show "slot ?ht (hashFunction (dtype d) (fst e)) = i"
      using dict_ok_bucket [OF a(2,3)] by fastforce
  qed
  moreover have "t = 0 \<Longrightarrow> rehashidx d = -1 \<or> ht_table (ht0 d) ! i \<noteq> []"
    using a(4) by (auto simp: the_ht_def)
  ultimately have "dict_ok ?d" using a dist by (intro upd_bucket_ok [OF ok]) auto
  then show ?thesis using s ms by blast
qed

subsection \<open>The operations on the map\<close>

lemma dict_map_insert:
  assumes "dict_ok d" "mset (dict_entries d) = add_mset (k, v) (mset xs)"
  shows "dict_map d = (map_of xs)(k \<mapsto> v)" "k \<notin> fst ` set xs"
proof -
  have m: "mset (dict_entries d) = mset ((k, v) # xs)" using assms(2) by simp
  have dist: "distinct (map fst (dict_entries d))" using assms(1) by (simp add: dict_ok_def)
  show "dict_map d = (map_of xs)(k \<mapsto> v)" using map_of_mset [OF m dist] by (simp add: dict_map_def)
  show "k \<notin> fst ` set xs" using dist distinct_mset_fst [OF m] by simp
qed

lemma dict_map_dom: "dom (dict_map d) = fst ` set (dict_entries d)"
  by (simp add: dict_map_def dom_map_of_conv_image_fst)

lemma dict_map_None: "dict_map d k = None \<longleftrightarrow> k \<notin> fst ` set (dict_entries d)"
  by (simp add: dict_map_def map_of_eq_None_iff)

lemma dict_map_Some: "dict_ok d \<Longrightarrow> dict_map d k = Some v \<longleftrightarrow> (k, v) \<in> set (dict_entries d)"
  by (simp add: dict_map_def dict_ok_def)

lemma dict_ok_used:
  "dict_ok d \<Longrightarrow> ht_used (ht0 d) = length (entries (ht0 d)) \<and> ht_used (ht1 d) = length (entries (ht1 d))"
  by (auto simp: dict_ok_def ht_live_used split: if_splits)

lemma dictSize_card: "dict_ok d \<Longrightarrow> dictSize d = card (dom (dict_map d))"
  using dict_ok_used [of d] distinct_card [of "map fst (dict_entries d)"]
  by (simp add: dictSize_def dict_map_dom dict_ok_def) (simp add: dict_entries_def)

lemma dict_keeps_size: "dict_ok d \<Longrightarrow> dict_keeps d d' \<Longrightarrow> dictSize d' = dictSize d"
  using dictSize_card dict_keeps_map by (metis dict_keeps_def)

lemma dictSetVal_map:
  assumes "dict_ok d" "at_ref d r (k, v)"
  shows "\<exists>d'. dictSetVal d r val = Some d' \<and> dict_ok d' \<and> dict_map d' = (dict_map d)(k \<mapsto> val)"
proof -
  obtain d' where d': "dictSetVal d r val = Some d'" "dict_ok d'"
      "add_mset (k, v) (mset (dict_entries d')) = add_mset (k, val) (mset (dict_entries d))"
    using dictSetVal_spec [OF assms] by blast
  have "(k, v) \<in># mset (dict_entries d)" using at_ref_mem [OF assms(2)] by simp
  then obtain N where "mset (dict_entries d) = add_mset (k, v) N" by (metis insert_DiffM)
  moreover obtain xs where "mset xs = N" using ex_mset by blast
  ultimately have m: "mset (dict_entries d) = add_mset (k, v) (mset xs)" by simp
  then have "mset (dict_entries d') = add_mset (k, val) (mset xs)"
    using d'(3) by (simp add: add_mset_commute)
  then show ?thesis using d' dict_map_insert(1) [OF assms(1) m] dict_map_insert(1) [OF d'(2)] by auto
qed

lemma dictAddRaw_spec:
  assumes ok: "dict_ok d" and small: "dictSize d < 2 ^ 61"
  shows "\<exists>d' r e. dictAddRaw c junk d key = Some (d', r, e) \<and> dict_ok d' \<and>
    (if dict_map d key = None
     then dict_map d' = (dict_map d)(key \<mapsto> junk) \<and> e = None \<and> (\<exists>ref. r = Some ref \<and> at_ref d' ref (key, junk))
     else dict_map d' = dict_map d \<and> r = None \<and> (\<exists>ref v. e = Some ref \<and> at_ref d' ref (key, v)))"
proof -
  obtain d1 where d1: "rehash_if d = Some d1" "dict_keeps d d1" using rehash_if_keeps [OF ok] by blast
  then have ok1: "dict_ok d1" and s1: "dictSize d1 < 2 ^ 61"
    using dict_keeps_size [OF ok] small by (auto simp: dict_keeps_def)
  obtain d2 where d2: "dictExpandIfNeeded c d1 = (d2, True)" "dict_keeps d1 d2" "ht_live (hashFunction (dtype d2)) (ht0 d2)"
    using dictExpandIfNeeded_keeps [OF ok1 s1] by blast
  then have ok2: "dict_ok d2" and m2: "dict_map d2 = dict_map d" and h2: "dictGetHash d1 key = dictGetHash d2 key"
    using dict_keeps_map [OF ok1] dict_keeps_map [OF ok d1(2)] by (auto simp: dict_keeps_def dictGetHash_def)
  obtain r i where f: "find_entry d2 key (dictGetHash d2 key) = Some (r, i)"
      "case r of None \<Rightarrow> key \<notin> fst ` set (dict_entries d2) \<and>
               i = slot (the_ht d2 (if dictIsRehashing d2 then 1 else 0)) (dictGetHash d2 key)
       | Some ref \<Rightarrow> \<exists>v. at_ref d2 ref (key, v)"
    using find_entry_spec [OF ok2 d2(3)] by blast
  show ?thesis
  proof (cases r)
    case (Some ref)
    then obtain v where v: "at_ref d2 ref (key, v)" using f(2) by auto
    have "dict_map d key = Some v" using at_ref_mem [OF v] dict_map_Some [OF ok2] m2 by simp
    moreover have "dictAddRaw c junk d key = Some (d2, None, Some ref)"
      using d1 d2 f(1) Some h2 by (simp add: dictAddRaw_def dictKeyIndex_def)
    ultimately show ?thesis using ok2 m2 v by (auto simp del: split_paired_Ex at_ref.simps)
  next
    case None
    define t :: nat where "t = (if dictIsRehashing d2 then 1 else 0)"
    let ?ht = "the_ht d2 t"
    let ?es = "(key, junk) # ht_table ?ht ! i"
    let ?d = "upd_ht t (\<lambda>ht. (put_bucket i ?es ht)\<lparr>ht_used := ht_used ht + 1\<rparr>) d2"
    have k: "key \<notin> fst ` set (dict_entries d2)" and i: "i = slot ?ht (dictGetHash d2 key)"
      using f(2) None by (simp_all add: t_def)
    have live: "ht_live (hashFunction (dtype d2)) ?ht"
      using d2(3) ok2 by (auto simp: t_def the_ht_def dictIsRehashing_def dict_ok_def)
    have il: "i < length (ht_table ?ht)" using slot_less [OF live] i by simp
    have t: "t = 0 \<or> t = 1 \<and> rehashidx d2 \<noteq> -1" "t = 0 \<Longrightarrow> rehashidx d2 = -1"
      by (auto simp: t_def dictIsRehashing_def split: if_splits)
    have ms: "mset (dict_entries ?d) = mset ((key, junk) # dict_entries d2)"
      using mset_dict_entries_upd [OF il, of _ ?es] by simp
    have dist: "distinct (map fst (dict_entries ?d))"
      using distinct_mset_fst [OF ms] k ok2 by (simp add: dict_ok_def)
    have "\<forall>e \<in> set ?es. slot ?ht (hashFunction (dtype d2) (fst e)) = i"
      using dict_ok_bucket [OF live il] i by (auto simp: dictGetHash_def)
    then have okd: "dict_ok ?d"
      using t dist by (intro upd_bucket_ok [OF ok2 live _ il]) auto
    have "dict_map ?d = (dict_map d)(key \<mapsto> junk)"
      using map_of_mset [OF ms dist] m2 by (simp add: dict_map_def)
    moreover have "dict_map d key = None" using k m2 by (metis dict_map_None)
    moreover have "dictAddRaw c junk d key = Some (?d, Some (t, i, 0), None)"
      using d1 d2 f(1) None h2 il by (simp add: dictAddRaw_def dictKeyIndex_def mem_simps Let_def flip: t_def)
    moreover have "at_ref ?d (t, i, 0) (key, junk)"
      using t il ht_live_cons(1) [OF live, of "(key, junk)" i] i by (auto simp: dictGetHash_def)
    ultimately show ?thesis using okd by (auto simp del: split_paired_Ex at_ref.simps)
  qed
qed

lemma dictAdd_map:
  assumes "dict_ok d" "dictSize d < 2 ^ 61"
  shows "\<exists>d'. dictAdd c junk d key val = Some (d', dict_map d key = None) \<and> dict_ok d' \<and>
    dict_map d' = (if dict_map d key = None then (dict_map d)(key \<mapsto> val) else dict_map d)"
proof -
  obtain d1 r e where a: "dictAddRaw c junk d key = Some (d1, r, e)" "dict_ok d1"
    "if dict_map d key = None
     then dict_map d1 = (dict_map d)(key \<mapsto> junk) \<and> e = None \<and> (\<exists>ref. r = Some ref \<and> at_ref d1 ref (key, junk))
     else dict_map d1 = dict_map d \<and> r = None \<and> (\<exists>ref v. e = Some ref \<and> at_ref d1 ref (key, v))"
    using dictAddRaw_spec [OF assms] by blast
  show ?thesis
  proof (cases "dict_map d key = None")
    case True
    then obtain ref where r: "r = Some ref" "at_ref d1 ref (key, junk)" using a(3) by auto
    from dictSetVal_map [OF a(2) r(2), of val] show ?thesis using a r True by (auto simp: dictAdd_def)
  next
    case False
    then show ?thesis using a by (auto simp: dictAdd_def)
  qed
qed

lemma dictReplace_map:
  assumes "dict_ok d" "dictSize d < 2 ^ 61"
  shows "\<exists>d'. dictReplace c junk d key val = Some (d', dict_map d key = None) \<and> dict_ok d' \<and>
    dict_map d' = (dict_map d)(key \<mapsto> val)"
proof -
  obtain d1 r e where a: "dictAddRaw c junk d key = Some (d1, r, e)" "dict_ok d1"
    "if dict_map d key = None
     then dict_map d1 = (dict_map d)(key \<mapsto> junk) \<and> e = None \<and> (\<exists>ref. r = Some ref \<and> at_ref d1 ref (key, junk))
     else dict_map d1 = dict_map d \<and> r = None \<and> (\<exists>ref v. e = Some ref \<and> at_ref d1 ref (key, v))"
    using dictAddRaw_spec [OF assms] by blast
  show ?thesis
  proof (cases "dict_map d key = None")
    case True
    then obtain ref where r: "r = Some ref" "at_ref d1 ref (key, junk)" using a(3) by auto
    from dictSetVal_map [OF a(2) r(2), of val] show ?thesis using a r True by (auto simp: dictReplace_def)
  next
    case False
    then obtain ref v where r: "r = None" "e = Some ref" "at_ref d1 ref (key, v)" using a(3) by auto
    from dictSetVal_map [OF a(2) r(3), of val] show ?thesis using a r False by (auto simp: dictReplace_def)
  qed
qed

lemma dictFind_spec:
  assumes ok: "dict_ok d"
  shows "\<exists>d' r. dictFind d key = Some (d', r) \<and> dict_keeps d d' \<and>
    (case r of None \<Rightarrow> dict_map d key = None | Some ref \<Rightarrow> \<exists>v. at_ref d' ref (key, v) \<and> dict_map d key = Some v)"
proof (cases "dictSize d = 0")
  case True
  then have "dict_map d key = None" using dict_ok_used [OF ok]
    by (simp add: dictSize_def dict_map_def dict_entries_def)
  then show ?thesis using True dict_keeps_refl [OF ok] by (simp add: dictFind_def dictSize_def)
next
  case False
  obtain d1 where d1: "rehash_if d = Some d1" "dict_keeps d d1" using rehash_if_keeps [OF ok] by blast
  then have ok1: "dict_ok d1" and m1: "dict_map d1 = dict_map d" and s1: "dictSize d1 \<noteq> 0"
    using dict_keeps_map [OF ok] dict_keeps_size [OF ok] False by (auto simp: dict_keeps_def)
  have "ht_live (hashFunction (dtype d1)) (ht0 d1)"
    using ok1 s1 by (auto simp: dict_ok_def dictSize_def split: if_splits)
  from find_entry_spec [OF ok1 this, of key] obtain r i where
    f: "find_entry d1 key (dictGetHash d1 key) = Some (r, i)"
       "case r of None \<Rightarrow> key \<notin> fst ` set (dict_entries d1) \<and>
               i = slot (the_ht d1 (if dictIsRehashing d1 then 1 else 0)) (dictGetHash d1 key)
       | Some ref \<Rightarrow> \<exists>v. at_ref d1 ref (key, v)" by blast
  have "dictFind d key = Some (d1, r)" using False d1(1) f(1) by (auto simp add: dictFind_def dictSize_def)
  moreover have "case r of None \<Rightarrow> dict_map d key = None | Some ref \<Rightarrow> \<exists>v. at_ref d1 ref (key, v) \<and> dict_map d key = Some v"
    using f(2) m1 at_ref_mem dict_map_Some [OF ok1] dict_map_None [of d1] by (fastforce split: option.splits)
  ultimately show ?thesis using d1(2) by blast
qed

lemma dictFetchValue_map:
  assumes "dict_ok d"
  shows "\<exists>d'. dictFetchValue d key = Some (d', dict_map d key) \<and> dict_ok d' \<and> dict_map d' = dict_map d"
proof -
  obtain d1 r where f: "dictFind d key = Some (d1, r)" "dict_keeps d d1"
    "case r of None \<Rightarrow> dict_map d key = None | Some ref \<Rightarrow> \<exists>v. at_ref d1 ref (key, v) \<and> dict_map d key = Some v"
    using dictFind_spec [OF assms] by blast
  have "dictFetchValue d key = Some (d1, dict_map d key)"
    using f(1,3) at_ref_entry by (fastforce simp: dictFetchValue_def split: option.splits)
  then show ?thesis using f(2) dict_keeps_map [OF assms f(2)] by (simp add: dict_keeps_def)
qed

lemma dictGenericDelete_spec:
  assumes ok: "dict_ok d"
  shows "\<exists>d'. dictGenericDelete d key = Some (d', map_option (Pair key) (dict_map d key)) \<and> dict_ok d' \<and>
    dict_map d' = (dict_map d)(key := None)"
proof (cases "dictSize d = 0")
  case True
  then have "dict_map d = Map.empty" using dict_ok_used [OF ok]
    by (simp add: dictSize_def dict_map_def dict_entries_def)
  then show ?thesis using True ok by (auto simp: dictGenericDelete_def dictSize_def)
next
  case False
  obtain d1 r where f: "dictFind d key = Some (d1, r)" "dict_keeps d d1"
    "case r of None \<Rightarrow> dict_map d key = None | Some ref \<Rightarrow> \<exists>v. at_ref d1 ref (key, v) \<and> dict_map d key = Some v"
    using dictFind_spec [OF ok] by blast
  have ok1: "dict_ok d1" and m1: "dict_map d1 = dict_map d"
    using f(2) dict_keeps_map [OF ok] by (auto simp: dict_keeps_def)
  obtain d0 i where g: "rehash_if d = Some d0" "find_entry d0 key (dictGetHash d0 key) = Some (r, i)" "d1 = d0"
    using f(1) False by (auto simp: dictFind_def dictSize_def Option.bind_eq_Some_conv)
  show ?thesis
  proof (cases r)
    case None
    then have "dictGenericDelete d key = Some (d1, None)"
      using False g by (auto simp: dictGenericDelete_def dictSize_def)
    then show ?thesis using f(3) None ok1 m1 by (auto simp: fun_upd_idem_iff)
  next
    case (Some ref)
    then obtain v where v: "at_ref d1 ref (key, v)" "dict_map d key = Some v" using f(3) by auto
    obtain t i p where ref: "ref = (t, i, p)" by (cases ref)
    let ?ht = "the_ht d1 t"
    let ?es = "ht_table ?ht ! i"
    let ?es' = "take p ?es @ drop (Suc p) ?es"
    let ?d = "upd_ht t (\<lambda>ht. (put_bucket i ?es' ht)\<lparr>ht_used := ht_used ht - 1\<rparr>) d1"
    have a: "t = 0 \<or> t = 1 \<and> rehashidx d1 \<noteq> -1" "ht_live (hashFunction (dtype d1)) ?ht"
        "i < length (ht_table ?ht)" "p < length ?es" "?es ! p = (key, v)"
      using v(1) ref by auto
    have del: "dictGenericDelete d key = Some (?d, Some (key, v))"
      using False g Some ref a by (auto simp: dictGenericDelete_def dictSize_def mem_simps)
    have "mset (dict_entries ?d) + mset ?es = mset (dict_entries d1) + mset ?es'"
      by (rule mset_dict_entries_upd [OF a(3)])
    then have ms: "mset (dict_entries d1) = add_mset (key, v) (mset (dict_entries ?d))"
      unfolding mset_remove_nth [OF a(4), symmetric] a(5) by simp
    then have ms': "mset (dict_entries d1) = mset ((key, v) # dict_entries ?d)" by simp
    have dist: "distinct (map fst (dict_entries ?d))"
      using distinct_mset_fst [OF ms'] ok1 by (simp add: dict_ok_def)
    have "length ?es \<le> ht_used ?ht"
      using length_entries_put [OF a(3), of "[]"] ht_live_used [OF a(2)] by simp
    then have n: "ht_used ?ht - 1 + length ?es = ht_used ?ht + length ?es'" using a(4) by simp
    have "set ?es' \<subseteq> set ?es" using set_take_subset set_drop_subset by fastforce
    then have "\<forall>e \<in> set ?es'. slot ?ht (hashFunction (dtype d1) (fst e)) = i"
      using dict_ok_bucket [OF a(2,3)] by blast
    moreover have "t = 0 \<Longrightarrow> rehashidx d1 = -1 \<or> ht_table (ht0 d1) ! i \<noteq> []"
      using a(4) by (auto simp: the_ht_def)
    ultimately have okd: "dict_ok ?d" using a dist n by (intro upd_bucket_ok [OF ok1]) auto
    have "dict_map d1 = (dict_map ?d)(key \<mapsto> v)" "key \<notin> fst ` set (dict_entries ?d)"
      using dict_map_insert [OF ok1 ms] by (simp_all add: dict_map_def)
    then have "dict_map ?d = (dict_map d)(key := None)"
      using m1 by (auto simp: fun_eq_iff dict_map_None)
    then show ?thesis using del okd v(2) by auto
  qed
qed

lemma dictDelete_map:
  "dict_ok d \<Longrightarrow> \<exists>d'. dictDelete d key = Some (d', dict_map d key \<noteq> None) \<and> dict_ok d' \<and>
    dict_map d' = (dict_map d)(key := None)"
  using dictGenericDelete_spec [of d key] by (auto simp: dictDelete_def)

lemma dictCreate_ok: "type_ok t \<Longrightarrow> dict_ok (dictCreate t) \<and> dict_map (dictCreate t) = Map.empty"
  by (simp add: dict_ok_def dictCreate_def dict_entries_def dict_map_def)

lemma finite_dict_map: "finite (dom (dict_map d))"
  by (simp add: dict_map_dom)

text \<open>The dictionary provides the contract of a map, for both values of the resize switch.\<close>

interpretation dict_store: map_store dict_ok dict_map "2 ^ 61" "dictAdd c junk" "dictReplace c junk" dictDelete dictFetchValue
  for c and junk
proof
  fix d :: "('a, 'b) dict" and k v
  assume ok: "dict_ok d"
  show "finite (dom (dict_map d))" by (rule finite_dict_map)
  show "\<exists>s'. dictDelete d k = Some (s', dict_map d k \<noteq> None) \<and> dict_ok s' \<and> dict_map s' = (dict_map d)(k := None)"
    by (rule dictDelete_map [OF ok])
  show "\<exists>s'. dictFetchValue d k = Some (s', dict_map d k) \<and> dict_ok s' \<and> dict_map s' = dict_map d"
    by (rule dictFetchValue_map [OF ok])
  assume "card (dom (dict_map d)) < 2 ^ 61"
  then have s: "dictSize d < 2 ^ 61" by (simp add: dictSize_card [OF ok])
  show "\<exists>s'. dictAdd c junk d k v = Some (s', dict_map d k = None) \<and> dict_ok s' \<and>
      dict_map s' = (if dict_map d k = None then (dict_map d)(k \<mapsto> v) else dict_map d)"
    by (rule dictAdd_map [OF ok s])
  show "\<exists>s'. dictReplace c junk d k v = Some (s', dict_map d k = None) \<and> dict_ok s' \<and>
      dict_map s' = (dict_map d)(k \<mapsto> v)"
    by (rule dictReplace_map [OF ok s])
qed

text \<open>
  C6.  Every sequence of \<open>dictAdd\<close>, \<open>dictReplace\<close>, \<open>dictDelete\<close> and \<open>dictFetchValue\<close> calls on a
  new dictionary gives the results that the same operations give on a finite map, whatever
  the hash function, the resize switch and the uninitialised memory are; the dictionary ends
  in a state that stands for the resulting map and satisfies the invariant.  None of the
  calls reads or writes outside of the tables or fails an assertion.
\<close>

theorem dict_refines_map:
  fixes t :: "'k dictType" and junk :: 'v
  assumes "type_ok t" "length ops \<le> 2 ^ 61"
  shows "\<exists>d'. run_ops (run_map_op (dictAdd c junk) (dictReplace c junk) dictDelete dictFetchValue) (dictCreate t) ops =
      Some (d', snd (spec_ops spec_map_op Map.empty ops)) \<and>
    dict_ok d' \<and> dict_map d' = fst (spec_ops spec_map_op Map.empty ops)"
proof -
  let ?d = "dictCreate t :: ('k, 'v) dict"
  have d: "dict_ok ?d" "dict_map ?d = Map.empty" using dictCreate_ok [OF assms(1)] by auto
  then have "card (dom (dict_map ?d)) + length ops \<le> 2 ^ 61" using assms by simp
  from dict_store.map_run_refines [OF d(1) this] show ?thesis by (simp add: d(2))
qed

text \<open>
  C24.  The four operations one by one: \<open>dictAdd\<close> adds a key that is not present and refuses one
  that is, \<open>dictReplace\<close> sets the value and reports whether the key is new, \<open>dictUnlink\<close> removes
  the key and returns its entry, and \<open>dictFind\<close> returns a reference to the entry of the key
  exactly if there is one; all of them keep the invariant, also in the middle of a rehash.
\<close>

theorem dict_operations_correct:
  assumes "dict_ok d" "dictSize d < 2 ^ 61"
  shows "(\<exists>d'. dictAdd c junk d key val = Some (d', dict_map d key = None) \<and> dict_ok d' \<and>
        dict_map d' = (if dict_map d key = None then (dict_map d)(key \<mapsto> val) else dict_map d)) \<and>
    (\<exists>d'. dictReplace c junk d key val = Some (d', dict_map d key = None) \<and> dict_ok d' \<and>
        dict_map d' = (dict_map d)(key \<mapsto> val)) \<and>
    (\<exists>d'. dictUnlink d key = Some (d', map_option (Pair key) (dict_map d key)) \<and> dict_ok d' \<and>
        dict_map d' = (dict_map d)(key := None)) \<and>
    (\<exists>d' r. dictFind d key = Some (d', r) \<and> dict_ok d' \<and> dict_map d' = dict_map d \<and>
        Option.bind r (dictGetEntry d') = map_option (Pair key) (dict_map d key))"
proof -
  obtain d1 r where f: "dictFind d key = Some (d1, r)" "dict_keeps d d1"
    "case r of None \<Rightarrow> dict_map d key = None | Some ref \<Rightarrow> \<exists>v. at_ref d1 ref (key, v) \<and> dict_map d key = Some v"
    using dictFind_spec [OF assms(1)] by blast
  have "Option.bind r (dictGetEntry d1) = map_option (Pair key) (dict_map d key)"
    using f(3) at_ref_entry by (fastforce split: option.splits)
  then have "\<exists>d' r. dictFind d key = Some (d', r) \<and> dict_ok d' \<and> dict_map d' = dict_map d \<and>
        Option.bind r (dictGetEntry d') = map_option (Pair key) (dict_map d key)"
    using f dict_keeps_map [OF assms(1) f(2)] unfolding dict_keeps_def by blast
  then show ?thesis
    using dictAdd_map [OF assms] dictReplace_map [OF assms] dictGenericDelete_spec [OF assms(1)]
    unfolding dictUnlink_def by blast
qed

subsection \<open>Clearing, resizing, timed rehashing\<close>

text \<open>\<open>_dictClear\<close>: the entries that are freed, in order, and the table after the call.\<close>

primrec clear_loop :: "('k \<times> 'v) list list \<Rightarrow> nat \<Rightarrow> ('k \<times> 'v) list" where
  "clear_loop [] n = []"
| "clear_loop (b # bs) n = (if n > 0 then b @ clear_loop bs (n - length b) else [])"

definition dictClear :: "('k, 'v) dictht \<Rightarrow> ('k, 'v) dictht \<times> ('k \<times> 'v) list" where
  "dictClear ht = (dictReset, clear_loop (take (ht_size ht) (ht_table ht)) (ht_used ht))"

definition dictEmpty :: "('k, 'v) dict \<Rightarrow> ('k, 'v) dict \<times> ('k \<times> 'v) list" where
  "dictEmpty d =
     (let (t0, f0) = dictClear (ht0 d); (t1, f1) = dictClear (ht1 d)
      in (d\<lparr>ht0 := t0, ht1 := t1, rehashidx := -1, iterators := 0\<rparr>, f0 @ f1))"

definition dictRelease :: "('k, 'v) dict \<Rightarrow> ('k \<times> 'v) list" where
  "dictRelease d = snd (dictClear (ht0 d)) @ snd (dictClear (ht1 d))"

text \<open>
  \<open>dictRehashMilliseconds\<close>: \<open>clock n\<close> is the \<open>n\<close>-th reading of the clock in the call; the counter
  \<open>rehashes\<close> is an \<open>int\<close>, whose overflow is undefined.
\<close>

partial_function (option) rehash_ms_loop ::
    "(nat \<Rightarrow> int) \<Rightarrow> int \<Rightarrow> nat \<Rightarrow> nat \<Rightarrow> ('k, 'v) dict \<Rightarrow> (('k, 'v) dict \<times> nat) option" where
  "rehash_ms_loop clock ms n rehashes d =
     do {
       (d, more) \<leftarrow> dictRehash d 100;
       (if \<not> more then Some (d, rehashes)
        else if rehashes + 100 \<ge> 2 ^ 31 then None
        else if clock n - clock 0 > ms then Some (d, rehashes + 100)
        else rehash_ms_loop clock ms (n + 1) (rehashes + 100) d) }"

declare rehash_ms_loop.simps [code]

definition dictRehashMilliseconds :: "(nat \<Rightarrow> int) \<Rightarrow> ('k, 'v) dict \<Rightarrow> int \<Rightarrow> (('k, 'v) dict \<times> nat) option" where
  "dictRehashMilliseconds clock d ms = rehash_ms_loop clock ms 1 0 d"

lemma clear_loop_all: "length (concat bs) \<le> n \<Longrightarrow> clear_loop bs n = concat bs"
proof (induction bs arbitrary: n)
  case (Cons b bs)
  show ?case
  proof (cases "n = 0")
    case True
    then show ?thesis using Cons.prems by auto
  next
    case False
    have "length (concat bs) \<le> n - length b" using Cons.prems by simp
    from Cons.IH [OF this] False show ?thesis by simp
  qed
qed simp

lemma dictClear_all: "ht = dictReset \<or> ht_live h ht \<Longrightarrow> dictClear ht = (dictReset, entries ht)"
  by (auto simp: dictClear_def ht_live_def entries_def clear_loop_all)

text \<open>
  \<open>dictEmpty\<close> and \<open>dictRelease\<close> free every entry of the two tables exactly once, and
  \<open>dictEmpty\<close> leaves an empty dictionary that satisfies the invariant.
\<close>

theorem dictEmpty_correct:
  assumes "dict_ok d"
  shows "snd (dictEmpty d) = dict_entries d \<and> dictRelease d = dict_entries d \<and>
    dict_ok (fst (dictEmpty d)) \<and> dict_map (fst (dictEmpty d)) = Map.empty"
proof -
  have c: "dictClear (ht0 d) = (dictReset, entries (ht0 d))" "dictClear (ht1 d) = (dictReset, entries (ht1 d))"
    by (rule dictClear_all [where h = "hashFunction (dtype d)"];
        use assms in \<open>auto simp: dict_ok_def split: if_splits\<close>)+
  then show ?thesis using assms
    by (simp add: dictEmpty_def dictRelease_def dict_entries_def dict_ok_def dict_map_def)
qed

lemma rehash_loop_mono:
  "dict_ok d \<Longrightarrow> rehashidx d \<noteq> -1 \<Longrightarrow> rehash_loop n ev d = Some (d', True) \<Longrightarrow>
   rehashidx d \<le> rehashidx d' \<and> ht_size (ht0 d') = ht_size (ht0 d)"
proof (induction n arbitrary: ev d)
  case 0
  then show ?case by (auto simp: rehash_finish_def split: if_splits)
next
  case (Suc n)
  have r0: "0 \<le> rehashidx d" using Suc.prems by (simp add: dict_ok_def)
  show ?case
  proof (cases "ht_used (ht0 d) = 0")
    case True
    then show ?thesis using Suc.prems(3) by (simp add: rehash_finish_def)
  next
    case False
    from Suc.prems(1,2) False show ?thesis
    proof (cases rule: rehash_loop_step [where n = n and ev = ev])
      case (1 idx)
      have "d' = d\<lparr>rehashidx := int idx\<rparr>" using Suc.prems(3) unfolding 1(1) by simp
      then show ?thesis using 1(4) by simp
    next
      case (2 idx d1)
      have "dict_ok d1" "rehashidx d1 \<noteq> -1" using 2 by (simp_all add: dict_keeps_def)
      from Suc.IH [OF this Suc.prems(3) [unfolded 2(1)]] show ?thesis using 2(3-5) r0 by linarith
    qed
  qed
qed

lemma rehash_loop_progress:
  assumes "dict_ok d" "rehashidx d \<noteq> -1" "0 < ev" "rehash_loop (Suc n) ev d = Some (d', True)"
  shows "rehashidx d < rehashidx d' \<and> ht_size (ht0 d') = ht_size (ht0 d)"
proof (cases "ht_used (ht0 d) = 0")
  case True
  then show ?thesis using assms(4) by (simp add: rehash_finish_def)
next
  case False
  have r0: "0 \<le> rehashidx d" using assms by (simp add: dict_ok_def)
  from assms(1,2) False show ?thesis
  proof (cases rule: rehash_loop_step [where n = n and ev = ev])
    case (1 idx)
    have "d' = d\<lparr>rehashidx := int idx\<rparr>" using assms(4) unfolding 1(1) by simp
    moreover have "rehashidx d < int idx" using 1(3,4) assms(3) r0 by linarith
    ultimately show ?thesis by simp
  next
    case (2 idx d1)
    have "dict_ok d1" "rehashidx d1 \<noteq> -1" using 2 by (simp_all add: dict_keeps_def)
    from rehash_loop_mono [OF this assms(4) [unfolded 2(1)]] show ?thesis using 2(3-5) r0 by linarith
  qed
qed

lemma rehash_ms_loop_returns:
  "dict_ok d \<Longrightarrow> int k + 100 * (int (ht_size (ht0 d)) - rehashidx d) < 2 ^ 31 \<Longrightarrow>
   \<exists>d' n'. rehash_ms_loop clock ms n k d = Some (d', n') \<and> dict_keeps d d'"
proof (induction "nat (int (ht_size (ht0 d)) - rehashidx d)" arbitrary: n k d rule: less_induct)
  case less
  obtain d1 b where r: "dictRehash d 100 = Some (d1, b)" "dict_keeps d d1" "b \<longleftrightarrow> dictIsRehashing d1"
    using dictRehash_keeps [OF less.prems(1), of 100] by auto
  show ?case
  proof (cases b)
    case False
    then show ?thesis using r(1,2) by (subst rehash_ms_loop.simps) auto
  next
    case True
    have re: "rehashidx d \<noteq> -1" using r(1) True by (auto simp: dictRehash_def dictIsRehashing_def split: if_splits)
    have "rehash_loop (Suc 99) 1000 d = Some (d1, True)"
      using r(1) re True by (simp add: dictRehash_def dictIsRehashing_def del: rehash_loop.simps)
    then have p: "rehashidx d < rehashidx d1" "ht_size (ht0 d1) = ht_size (ht0 d)"
      using rehash_loop_progress [OF less.prems(1) re, of 1000 99 d1] by simp_all
    have ok1: "dict_ok d1" using r(2) by (simp add: dict_keeps_def)
    have le: "rehashidx d1 \<le> int (ht_size (ht0 d1))"
      using ok1 r(3) True by (simp add: dict_ok_def dictIsRehashing_def)
    then have "nat (int (ht_size (ht0 d1)) - rehashidx d1) < nat (int (ht_size (ht0 d)) - rehashidx d)"
      using p by simp
    moreover have room: "int (k + 100) + 100 * (int (ht_size (ht0 d1)) - rehashidx d1) < 2 ^ 31"
      using less.prems(2) p by simp
    ultimately obtain d' n' where
      "rehash_ms_loop clock ms (n + 1) (k + 100) d1 = Some (d', n')" "dict_keeps d1 d'"
      using less.hyps [of d1 "k + 100" "n + 1"] ok1 by blast
    moreover have "\<not> k + 100 \<ge> 2 ^ 31" using room le by simp
    ultimately show ?thesis using r(1,2) True dict_keeps_trans [OF r(2)] by (subst rehash_ms_loop.simps) auto
  qed
qed

text \<open>
  \<open>dictRehashMilliseconds\<close> returns whatever the clock shows, even if it stands still or
  runs backwards, and keeps the invariant and the map, for tables of up to \<open>2 ^ 31 div 100\<close> buckets.
\<close>

theorem dictRehashMilliseconds_correct:
  assumes "dict_ok d" "100 * (ht_size (ht0 d) + 1) < 2 ^ 31"
  shows "\<exists>d' n. dictRehashMilliseconds clock d ms = Some (d', n) \<and> dict_ok d' \<and> dict_map d' = dict_map d"
proof -
  have "-1 \<le> rehashidx d" using assms(1) by (auto simp: dict_ok_def split: if_splits)
  then have "int 0 + 100 * (int (ht_size (ht0 d)) - rehashidx d) < 2 ^ 31" using assms(2) by simp
  from rehash_ms_loop_returns [OF assms(1) this, of clock ms 1] dict_keeps_map [OF assms(1)] show ?thesis
    by (auto simp: dictRehashMilliseconds_def dict_keeps_def)
qed

text \<open>
  \<open>dictResize\<close> on a dictionary that is not rehashing shrinks to the smallest power of two
  that holds the entries, at least 4, as its comment says, as long as the number of entries
  fits an \<open>int\<close>: it answers \<open>DICT_ERR\<close> only if the table has that size already.
\<close>

theorem dictResize_correct:
  assumes "dict_ok d" "\<not> dictIsRehashing d" "ht_used (ht0 d) < 2 ^ 31"
    and d': "(d', done) = dictResize True d" and new: "sz = dictNextPower (max 4 (ht_used (ht0 d)))"
  shows "dict_ok d' \<and> dict_map d' = dict_map d \<and> (done \<longleftrightarrow> ht_size (ht0 d) \<noteq> sz) \<and>
    (done \<longrightarrow> sz \<in> {ht_size (ht0 d'), ht_size (ht1 d')}) \<and>
    ht_used (ht0 d) \<le> sz \<and> 4 \<le> sz \<and> (sz = 4 \<or> sz < 2 * ht_used (ht0 d))"
proof -
  let ?n = "max 4 (ht_used (ht0 d))"
  have "sint (of_nat (ht_used (ht0 d)) :: 32 word) = int (ht_used (ht0 d))"
    by (rule sint_word_of_nat) (use assms(3) in simp)
  then have r: "dictResize True d = dictExpand d ?n"
    using assms(2) by (auto simp: dictResize_def DICT_HT_INITIAL_SIZE_def max_def Let_def)
  have n: "?n < 2 ^ 62" using assms(3) by simp
  obtain k where k: "2 \<le> k" "k \<le> 62" "dictNextPower ?n = 2 ^ k" "?n \<le> 2 ^ k" "k = 2 \<or> 2 ^ k < 2 * ?n"
    using dictNextPower_spec [OF n] by blast
  have "dict_keeps d d'" using dictExpand_keeps [OF assms(1) n] r d' by (metis fst_conv)
  then have "dict_ok d' \<and> dict_map d' = dict_map d"
    using dict_keeps_map [OF assms(1)] by (simp add: dict_keeps_def)
  moreover have "done \<longleftrightarrow> ht_size (ht0 d) \<noteq> sz" "done \<longrightarrow> sz \<in> {ht_size (ht0 d'), ht_size (ht1 d')}"
    using d' assms(2) new by (auto simp: r dictExpand_def Let_def split: if_splits)
  moreover have "ht_used (ht0 d) \<le> sz" "4 \<le> sz" using k(3,4) new by auto
  moreover have "sz = 4 \<or> sz < 2 * ht_used (ht0 d)"
  proof (cases "ht_used (ht0 d) \<le> 4")
    case True
    then have "k = 2 \<or> (2::nat) ^ k < 2 ^ 3" using k(5) by simp
    then have "k = 2" using k(1) by (simp only: power_strict_increasing_iff) auto
    then show ?thesis using k(3) new by simp
  next
    case False
    then show ?thesis using k(3,5) new by auto
  qed
  ultimately show ?thesis by blast
qed

text \<open>
  C38.  From \<open>2 ^ 31\<close> entries on (up to \<open>2 ^ 32\<close>) \<open>dictResize\<close> refuses to resize, however large the
  table is: the number of entries does not fit the \<open>int\<close> that holds it, becomes negative and
  is replaced by the initial size 4, which is too small.
\<close>

theorem dictResize_int_overflow:
  assumes "2 ^ 31 \<le> ht_used (ht0 d)" "ht_used (ht0 d) < 2 ^ 32"
  shows "dictResize True d = (d, False)"
proof -
  have "(of_nat (ht_used (ht0 d)) :: 32 word) = word_of_int (int (ht_used (ht0 d)) - 2 ^ 32)"
    by (simp add: word_of_int_eq_iff)
  moreover have "sint (word_of_int (int (ht_used (ht0 d)) - 2 ^ 32) :: 32 word) = int (ht_used (ht0 d)) - 2 ^ 32"
    by (rule sint_word_of_int) (use assms in auto)
  ultimately have "sint (of_nat (ht_used (ht0 d)) :: 32 word) = int (ht_used (ht0 d)) - 2 ^ 32" by metis
  then show ?thesis using assms by (simp add: dictResize_def dictExpand_def DICT_HT_INITIAL_SIZE_def Let_def)
qed

subsection \<open>A dictionary in the middle of a rehash\<close>

definition ex_type :: "nat dictType" where
  "ex_type = \<lparr>hashFunction = of_nat, keyCompare = (=)\<rparr>"

definition ex_dict :: "(nat, nat) dict" where
  "ex_dict = \<lparr>dtype = ex_type,
     ht0 = \<lparr>ht_table = [[], [], [(2, 20)], [(7, 70), (3, 30)]], ht_size = 4, ht_sizemask = 3, ht_used = 3\<rparr>,
     ht1 = \<lparr>ht_table = [[], [(1, 10)], [], [], [], [(5, 50)], [], []], ht_size = 8, ht_sizemask = 7, ht_used = 2\<rparr>,
     rehashidx = 2, iterators = 0\<rparr>"

lemma ex_type_ok: "type_ok ex_type"
  by (simp add: type_ok_def ex_type_def)

lemma all_less_4: "(\<forall>i < 4. P i) \<longleftrightarrow> P 3 \<and> P 2 \<and> P 1 \<and> P (0::nat)"
  by (simp add: numeral_eq_Suc All_less_Suc)

lemma all_less_8: "(\<forall>i < 8. P i) \<longleftrightarrow> P 7 \<and> P 6 \<and> P 5 \<and> P 4 \<and> P 3 \<and> P 2 \<and> P 1 \<and> P (0::nat)"
  by (simp add: numeral_eq_Suc All_less_Suc)

lemma ex_dict_live:
  "ht_live (hashFunction ex_type) (ht0 ex_dict)" "ht_live (hashFunction ex_type) (ht1 ex_dict)"
proof -
  have "\<exists>k \<le> 63. ht_size (ht0 ex_dict) = 2 ^ k" by (intro exI [of _ 2]) (simp add: ex_dict_def)
  then show "ht_live (hashFunction ex_type) (ht0 ex_dict)"
    unfolding ht_live_def by (simp add: ex_dict_def ex_type_def entries_def slot_def all_less_4)
  have "\<exists>k \<le> 63. ht_size (ht1 ex_dict) = 2 ^ k" by (intro exI [of _ 3]) (simp add: ex_dict_def)
  then show "ht_live (hashFunction ex_type) (ht1 ex_dict)"
    unfolding ht_live_def by (simp add: ex_dict_def ex_type_def entries_def slot_def all_less_8)
qed

lemma ex_dict_ok: "dict_ok ex_dict"
proof -
  have "\<forall>i < 2. ht_table (ht0 ex_dict) ! i = []" by (simp add: ex_dict_def numeral_2_eq_2 less_Suc_eq)
  moreover have "distinct (map fst (dict_entries ex_dict))" by (simp add: ex_dict_def dict_entries_def entries_def)
  moreover have "dtype ex_dict = ex_type" "rehashidx ex_dict = 2" "ht_size (ht0 ex_dict) = 4"
    by (simp_all add: ex_dict_def)
  ultimately show ?thesis using ex_dict_live ex_type_ok by (simp add: dict_ok_def)
qed

theorem dictRehash_correct_witness:
  "\<exists>d' b. dictRehash ex_dict 4 = Some (d', b) \<and> dict_ok d' \<and> dict_map d' 7 = Some 70 \<and> \<not> dictIsRehashing d'"
proof -
  have "ht_size (ht0 ex_dict) \<le> 4" "dict_map ex_dict 7 = Some 70"
    by (simp_all add: ex_dict_def dict_map_def dict_entries_def entries_def)
  then show ?thesis using dictRehash_correct [OF ex_dict_ok, of 4] by fastforce
qed

theorem dict_refines_map_witness:
  "\<exists>d'. run_ops (run_map_op (dictAdd True 0) (dictReplace True 0) dictDelete dictFetchValue) (dictCreate ex_type)
      [MAdd 1 10, MAdd 1 11, MPut 1 12, MGet 1, MDel 1, MDel (1::nat)] =
    Some (d', [RFlag True, RFlag False, RFlag False, RVal (Some (12::nat)), RFlag True, RFlag False])"
  using dict_refines_map [OF ex_type_ok, of "[MAdd 1 10, MAdd 1 11, MPut 1 12, MGet 1, MDel 1, MDel 1]" True 0]
  by auto

theorem dict_operations_correct_witness:
  "\<exists>d'. dictAdd False 0 ex_dict 6 60 = Some (d', True) \<and> dict_ok d' \<and> dict_map d' 6 = Some 60 \<and> dict_map d' 7 = Some 70"
proof -
  have "dictSize ex_dict < 2 ^ 61" "dict_map ex_dict 7 = Some 70" "dict_map ex_dict 6 = None"
    by (simp_all add: ex_dict_def dict_map_def dict_entries_def entries_def dictSize_def)
  then show ?thesis using dict_operations_correct [OF ex_dict_ok, of False 0 6 60] by auto
qed

theorem dictEmpty_correct_witness:
  "snd (dictEmpty ex_dict) = [(2, 20), (7, 70), (3, 30), (1, 10), (5, 50)] \<and> dict_ok (fst (dictEmpty ex_dict))"
  using dictEmpty_correct [OF ex_dict_ok] by (simp add: ex_dict_def dict_entries_def entries_def)

theorem dictRehashMilliseconds_correct_witness:
  "\<exists>d' n. dictRehashMilliseconds (\<lambda>_. 0) ex_dict 1 = Some (d', n) \<and> dict_ok d' \<and> dict_map d' = dict_map ex_dict"
  by (rule dictRehashMilliseconds_correct [OF ex_dict_ok]) (simp add: ex_dict_def)

definition ex_wide :: "(nat, nat) dict" where
  "ex_wide = \<lparr>dtype = ex_type,
     ht0 = \<lparr>ht_table = [[], [(1, 10)], [], [], [], [(5, 50)], [], []], ht_size = 8, ht_sizemask = 7, ht_used = 2\<rparr>,
     ht1 = dictReset, rehashidx = -1, iterators = 0\<rparr>"

lemma ex_wide_ok: "dict_ok ex_wide"
proof -
  have "ht0 ex_wide = ht1 ex_dict" by (simp add: ex_wide_def ex_dict_def)
  then have "ht_live (hashFunction (dtype ex_wide)) (ht0 ex_wide)"
    using ex_dict_live(2) by (simp add: ex_wide_def)
  moreover have "distinct (map fst (dict_entries ex_wide))" by (simp add: ex_wide_def dict_entries_def entries_def)
  moreover have "type_ok (dtype ex_wide)" using ex_type_ok by (simp add: ex_wide_def)
  ultimately show ?thesis by (simp add: dict_ok_def) (simp add: ex_wide_def)
qed

theorem dictResize_correct_witness:
  "snd (dictResize True ex_wide) \<and> dict_ok (fst (dictResize True ex_wide)) \<and>
   dict_map (fst (dictResize True ex_wide)) = dict_map ex_wide"
proof -
  have "\<not> dictIsRehashing ex_wide" "ht_used (ht0 ex_wide) = 2" "ht_size (ht0 ex_wide) = 8"
    by (simp_all add: ex_wide_def dictIsRehashing_def)
  then show ?thesis
    using dictResize_correct [OF ex_wide_ok _ _ prod.collapse refl] by auto
qed

text \<open>A dictionary whose first half of buckets has one entry each; \<open>2 ^ k\<close> entries in \<open>2 ^ (k + 1)\<close> buckets.\<close>

definition half_dict :: "nat \<Rightarrow> (64 word, unit) dict" where
  "half_dict k = \<lparr>dtype = \<lparr>hashFunction = id, keyCompare = (=)\<rparr>,
     ht0 = \<lparr>ht_table = map (\<lambda>i. [(of_nat i, ())]) [0..<2 ^ k] @ replicate (2 ^ k) [],
            ht_size = 2 ^ (k + 1), ht_sizemask = 2 ^ (k + 1) - 1, ht_used = 2 ^ k\<rparr>,
     ht1 = dictReset, rehashidx = -1, iterators = 0\<rparr>"

lemma half_dict_simps:
  "ht_size (ht0 (half_dict k)) = 2 ^ (k + 1)" "ht_used (ht0 (half_dict k)) = 2 ^ k"
  "\<not> dictIsRehashing (half_dict k)"
  by (simp_all add: half_dict_def dictIsRehashing_def)

lemma half_dict_entries: "entries (ht0 (half_dict k)) = map (\<lambda>i. (of_nat i, ())) [0..<2 ^ k]"
proof -
  have "concat (replicate n []) = []" for n by (induction n) auto
  moreover have "concat (map (\<lambda>i. [f i]) xs) = map f xs" for f and xs :: "nat list" by (induction xs) auto
  ultimately show ?thesis by (simp add: half_dict_def entries_def)
qed

lemma half_dict_ok:
  assumes "k \<le> 62"
  shows "dict_ok (half_dict k)"
proof -
  have k: "(2::nat) ^ k \<le> 2 ^ 62" using assms by (rule power_increasing) simp
  have mask: "(of_nat (2 ^ (k + 1) - 1) :: 64 word) = mask (k + 1)" by (rule of_nat_mask)
  have slot: "slot (ht0 (half_dict k)) (of_nat i) = i" if "i < 2 ^ k" for i
  proof -
    have i: "i < 2 ^ LENGTH(64)" "i < 2 ^ (k + 1)" using that k by auto
    have "(of_nat i AND mask (k + 1) :: 64 word) = of_nat i"
      by (simp only: take_bit_nat_eq_self [OF i(2)] flip: take_bit_eq_mask of_nat_take_bit)
    then show ?thesis using unat_word_of_nat [OF i(1)] mask by (simp add: slot_def half_dict_def)
  qed
  have "\<exists>j \<le> 63. ht_size (ht0 (half_dict k)) = 2 ^ j"
    using assms by (intro exI [of _ "k + 1"]) (simp add: half_dict_simps)
  moreover have "ht_used (ht0 (half_dict k)) = length (entries (ht0 (half_dict k)))"
    by (simp add: half_dict_entries half_dict_simps)
  moreover have "slot (ht0 (half_dict k)) (fst e) = i"
    if "i < 2 ^ (k + 1)" "e \<in> set (ht_table (ht0 (half_dict k)) ! i)" for i e
    using that slot [of i] by (auto simp: half_dict_def nth_append split: if_splits)
  ultimately have "ht_live (hashFunction (dtype (half_dict k))) (ht0 (half_dict k))"
    unfolding ht_live_def by (auto simp: half_dict_simps) (simp_all add: half_dict_def)
  moreover have "distinct (map fst (dict_entries (half_dict k)))"
  proof -
    have "inj_on (\<lambda>i. of_nat i :: 64 word) {0..<2 ^ k}"
    proof (rule inj_onI)
      fix i j
      assume ij: "i \<in> {0..<2 ^ k}" "j \<in> {0..<2 ^ k}" "(of_nat i :: 64 word) = of_nat j"
      have "i < 2 ^ LENGTH(64)" "j < 2 ^ LENGTH(64)" using ij(1,2) k by simp_all
      then show "i = j" using unat_word_of_nat [where 'a = 64] ij(3) by metis
    qed
    moreover have "entries (ht1 (half_dict k)) = []" by (simp add: half_dict_def)
    ultimately show ?thesis by (simp add: dict_entries_def half_dict_entries distinct_map comp_def)
  qed
  ultimately show ?thesis by (simp add: dict_ok_def) (simp add: half_dict_def type_ok_def)
qed

theorem dictResize_int_overflow_witness:
  "dict_ok (half_dict 31) \<and> \<not> dictIsRehashing (half_dict 31) \<and> ht_size (ht0 (half_dict 31)) = 2 ^ 32 \<and>
   ht_used (ht0 (half_dict 31)) = 2 ^ 31 \<and> dictResize True (half_dict 31) = (half_dict 31, False)"
  using dictResize_int_overflow [of "half_dict 31"] half_dict_ok [of 31] by (simp add: half_dict_simps)

end
