(* ===== verification/DictScan.thy ===== *)
theory DictScan
  imports Dict
begin

section \<open>Iterating over hash tables (\<open>redis-5.0/src/dict.c\<close>)\<close>

text \<open>
  The stateless cursor of \<open>dictScan\<close>, iterators, and the random sampling of entries.  A scan
  returns the entries that are passed to the callback \<open>fn\<close> in one call and the next cursor.
  The central theorem is the guarantee in the comment of \<open>dictScan\<close>: a key that is in the
  dictionary during a whole iteration is returned at least once, even when the tables are
  resized, rehashed and modified arbitrarily between the calls.
\<close>

unbundle bit_operations_syntax

subsection \<open>Reversing bits\<close>

function rev_loop :: "nat \<Rightarrow> 64 word \<Rightarrow> 64 word \<Rightarrow> 64 word" where
  "rev_loop s m v =
     (let s = s div 2 in
      if s > 0 then
        (let m = m XOR push_bit s m
         in rev_loop s m ((drop_bit s v AND m) OR (push_bit s v AND NOT m)))
      else v)"
  by pat_completeness auto
termination
  by (relation "measure (\<lambda>(s, m, v). s)") auto

declare rev_loop.simps [simp del]

definition dict_rev :: "64 word \<Rightarrow> 64 word" where
  "dict_rev v = rev_loop 64 (NOT 0) v"

definition rev_step :: "nat \<Rightarrow> 64 word \<Rightarrow> 64 word \<Rightarrow> 64 word" where
  "rev_step s m v = (drop_bit s v AND m) OR (push_bit s v AND NOT m)"

lemma rev_loop_unfold:
  "rev_loop s m v =
     (if s div 2 > 0
      then rev_loop (s div 2) (m XOR push_bit (s div 2) m) (rev_step (s div 2) (m XOR push_bit (s div 2) m) v)
      else v)"
  by (subst rev_loop.simps) (simp add: rev_step_def Let_def)

lemma dict_rev_steps:
  "dict_rev v = rev_step 1 0x5555555555555555 (rev_step 2 0x3333333333333333 (rev_step 4 0x0F0F0F0F0F0F0F0F
     (rev_step 8 0x00FF00FF00FF00FF (rev_step 16 0x0000FFFF0000FFFF (rev_step 32 0x00000000FFFFFFFF v)))))"
  by (simp add: dict_rev_def rev_loop_unfold mask_numeral)

lemma bit_rev_step: "bit (rev_step s m v) n \<longleftrightarrow> n < 64 \<and> (if bit m n then bit v (n + s) else s \<le> n \<and> bit v (n - s))"
  by (auto simp: rev_step_def bit_simps add.commute dest: bit_imp_le_length)

lemma bit_dict_rev_all:
  "\<forall>n < 64. bit (dict_rev v) n \<longleftrightarrow> bit v (63 - n)"
  unfolding dict_rev_steps
  by (simp add: numeral_eq_Suc All_less_Suc bit_rev_step)

lemma bit_dict_rev: "bit (dict_rev v) n \<longleftrightarrow> n < 64 \<and> bit v (63 - n)"
  using bit_dict_rev_all [of v] bit_imp_le_length [of "dict_rev v" n] by auto

lemma dict_rev_rev [simp]: "dict_rev (dict_rev v) = v"
  by (rule bit_word_eqI) (auto simp: bit_dict_rev)

lemma dict_rev_0 [simp]: "dict_rev 0 = 0"
  by (rule bit_word_eqI) (simp add: bit_dict_rev)

subsection \<open>Scanning\<close>

definition scan_next :: "64 word \<Rightarrow> 64 word \<Rightarrow> 64 word" where
  "scan_next m v = dict_rev (dict_rev (v OR NOT m) + 1)"

definition size_mask :: "('k, 'v) dictht \<Rightarrow> 64 word" where
  "size_mask ht = of_nat (ht_sizemask ht)"

text \<open>The loop over the expansions of the cursor in the larger table.\<close>

partial_function (option) scan_expand ::
    "64 word \<Rightarrow> ('k, 'v) dictht \<Rightarrow> 64 word \<Rightarrow> (64 word \<times> ('k \<times> 'v) list) option" where
  "scan_expand m0 t1 v =
     do {
       es \<leftarrow> mem_get (slot t1 v) (ht_table t1);
       let v = scan_next (size_mask t1) v;
       (if v AND (m0 XOR size_mask t1) \<noteq> 0
        then do { (v, es') \<leftarrow> scan_expand m0 t1 v; Some (v, es @ es') }
        else Some (v, es)) }"

declare scan_expand.simps [code]

definition dictScan :: "('k, 'v) dict \<Rightarrow> 64 word \<Rightarrow> (64 word \<times> ('k \<times> 'v) list) option" where
  "dictScan d v =
     (if dictSize d = 0 then Some (0, [])
      else if \<not> dictIsRehashing d then
        do {
          es \<leftarrow> mem_get (slot (ht0 d) v) (ht_table (ht0 d));
          Some (scan_next (size_mask (ht0 d)) v, es) }
      else
        (let (t0, t1) = (if ht_size (ht0 d) > ht_size (ht1 d) then (ht1 d, ht0 d) else (ht0 d, ht1 d)) in
         do {
           es \<leftarrow> mem_get (slot t0 v) (ht_table t0);
           (v, es') \<leftarrow> scan_expand (size_mask t0) t1 v;
           Some (v, es @ es') }))"

text \<open>
  An iteration by a client: one call per state of the dictionary, from cursor 0 until the
  cursor 0 is returned.  Between two calls the dictionary may be changed in any way.
\<close>

fun scan_all :: "('k, 'v) dict list \<Rightarrow> 64 word \<Rightarrow> (64 word \<times> ('k \<times> 'v) list) option" where
  "scan_all [] v = Some (v, [])"
| "scan_all (d # ds) v =
     do {
       (v, es) \<leftarrow> dictScan d v;
       (if v = 0 then Some (0, es)
        else do { (v, es') \<leftarrow> scan_all ds v; Some (v, es @ es') }) }"

subsection \<open>The order of cursors\<close>

text \<open>\<open>rcur v\<close> is the cursor with its bits reversed: scanning visits it in increasing order.\<close>

definition rcur :: "64 word \<Rightarrow> nat" where
  "rcur v = unat (dict_rev v)"

lemma rcur_less: "rcur v < 2 ^ 64"
  using unat_less [of "dict_rev v"] by (simp add: rcur_def)

lemma rcur_0 [simp]: "rcur 0 = 0"
  by (simp add: rcur_def)

lemma rcur_eq_0: "rcur v = 0 \<longleftrightarrow> v = 0"
  by (metis dict_rev_0 dict_rev_rev rcur_def unsigned_0 unsigned_eq_0_iff)

lemma or_mask_nat: "n OR mask j = n div 2 ^ j * 2 ^ j + (2 ^ j - 1 :: nat)"
proof -
  have "n OR mask j = push_bit j (drop_bit j n) OR mask j"
    by (rule bit_eqI) (auto simp: bit_simps)
  also have "\<dots> = push_bit j (drop_bit j n) + mask j"
    by (rule disjunctive_add [symmetric]) (auto simp: bit_simps)
  finally show ?thesis by (simp add: push_bit_eq_mult drop_bit_eq_div mask_eq_exp_minus_1)
qed

lemma unat_mask64: "j \<le> 64 \<Longrightarrow> unat (mask j :: 64 word) = mask j"
  by (rule bit_eqI) (auto simp: bit_unsigned_iff bit_mask_iff)

lemma unat_or_mask:
  fixes x :: "64 word"
  shows "j \<le> 64 \<Longrightarrow> unat (x OR mask j) = unat x div 2 ^ j * 2 ^ j + (2 ^ j - 1)"
  by (simp add: unsigned_or_eq unat_mask64 or_mask_nat)

lemma dict_rev_or_mask: "k \<le> 64 \<Longrightarrow> dict_rev (v OR NOT (mask k)) = dict_rev v OR mask (64 - k)"
  by (rule bit_word_eqI) (auto simp: bit_dict_rev bit_simps)

lemma rcur_scan_next:
  assumes "k \<le> 64"
  shows "rcur (scan_next (mask k) v) = (rcur v div 2 ^ (64 - k) + 1) * 2 ^ (64 - k) mod 2 ^ 64"
proof -
  let ?j = "64 - k"
  have "rcur (scan_next (mask k) v) = unat ((dict_rev v OR mask ?j) + 1)"
    using assms by (simp add: rcur_def scan_next_def dict_rev_or_mask)
  also have "\<dots> = (unat (dict_rev v OR mask ?j) + 1) mod 2 ^ 64"
    by (simp add: unat_word_ariths)
  also have "unat (dict_rev v OR mask ?j) + 1 = (rcur v div 2 ^ ?j + 1) * 2 ^ ?j"
    using unat_or_mask [of ?j "dict_rev v"] by (simp add: rcur_def)
  finally show ?thesis .
qed

lemma and_mask_rcur:
  assumes "k \<le> 64"
  shows "h AND mask k = v AND mask k \<longleftrightarrow> rcur h div 2 ^ (64 - k) = rcur v div 2 ^ (64 - k)"
proof -
  have "rcur h div 2 ^ (64 - k) = rcur v div 2 ^ (64 - k) \<longleftrightarrow> drop_bit (64 - k) (dict_rev h) = drop_bit (64 - k) (dict_rev v)"
    unfolding rcur_def word_unat_eq_iff [of "drop_bit (64 - k) (dict_rev h)"]
    by (simp add: unat_drop_bit_eq flip: drop_bit_eq_div)
  also have "\<dots> \<longleftrightarrow> (\<forall>n < k. bit h n = bit v n)"
  proof
    assume e: "drop_bit (64 - k) (dict_rev h) = drop_bit (64 - k) (dict_rev v)"
    show "\<forall>n < k. bit h n = bit v n"
    proof (intro allI impI)
      fix n assume n: "n < k"
      then have "bit (drop_bit (64 - k) (dict_rev h)) (k - 1 - n) = bit (drop_bit (64 - k) (dict_rev v)) (k - 1 - n)"
        by (simp only: e)
      moreover have "64 - k + (k - 1 - n) = 63 - n" "63 - (63 - n) = n" "63 - n < 64" using n assms by auto
      ultimately show "bit h n = bit v n" by (simp add: bit_drop_bit_eq bit_dict_rev)
    qed
  next
    assume "\<forall>n < k. bit h n = bit v n"
    then show "drop_bit (64 - k) (dict_rev h) = drop_bit (64 - k) (dict_rev v)"
      using assms by (intro bit_word_eqI) (auto simp: bit_simps bit_dict_rev)
  qed
  also have "\<dots> \<longleftrightarrow> h AND mask k = v AND mask k"
    using assms by (auto simp: bit_eq_iff [of "h AND mask k"] bit_simps) (meson order_less_le_trans)+
  finally show ?thesis by simp
qed

definition block_end :: "nat \<Rightarrow> nat \<Rightarrow> nat" where
  "block_end n r = (r div n + 1) * n"

lemma block_end_gt: "0 < n \<Longrightarrow> r < block_end n r"
  unfolding block_end_def by (simp add: dividend_less_div_times)

lemma dvd_block_end: "n dvd block_end n r"
  by (simp add: block_end_def)

lemma block_end_le:
  assumes "n dvd m" "r < m" shows "block_end n r \<le> m"
proof -
  obtain q where q: "m = n * q" using assms(1) by blast
  then have "r div n < q" using assms(2) by (metis less_mult_imp_div_less mult.commute)
  then show ?thesis unfolding block_end_def q by (metis Suc_eq_plus1 Suc_leI mult.commute mult_le_mono1)
qed

lemma block_end_le_div: "r div n < e div n \<Longrightarrow> block_end n r \<le> e"
  unfolding block_end_def by (metis Suc_eq_plus1 Suc_leI div_times_less_eq_dividend le_trans mult_le_mono1)

lemma block_end_same: "r \<le> s \<Longrightarrow> s < block_end n r \<Longrightarrow> s div n = r div n"
  unfolding block_end_def
  by (metis Suc_eq_plus1 div_le_mono le_antisym less_Suc_eq_le less_mult_imp_div_less)

lemma dvd_rcur:
  assumes "k \<le> 64"
  shows "2 ^ (64 - k) dvd rcur v \<longleftrightarrow> (\<forall>n. k \<le> n \<and> n < 64 \<longrightarrow> \<not> bit v n)"
proof -
  have "2 ^ (64 - k) dvd rcur v \<longleftrightarrow> take_bit (64 - k) (rcur v) = 0"
    by (simp add: take_bit_eq_0_iff)
  also have "\<dots> \<longleftrightarrow> (\<forall>j < 64 - k. \<not> bit (dict_rev v) j)"
    by (auto simp: bit_eq_iff [of "take_bit _ _"] bit_simps rcur_def)
  also have "\<dots> \<longleftrightarrow> (\<forall>n. k \<le> n \<and> n < 64 \<longrightarrow> \<not> bit v n)"
  proof
    assume a: "\<forall>j < 64 - k. \<not> bit (dict_rev v) j"
    show "\<forall>n. k \<le> n \<and> n < 64 \<longrightarrow> \<not> bit v n"
    proof (intro allI impI)
      fix n assume n: "k \<le> n \<and> n < 64"
      then have "63 - n < 64 - k" "63 - (63 - n) = n" "63 - n < 64" by auto
      then show "\<not> bit v n" using a by (auto simp: bit_dict_rev)
    qed
  next
    assume a: "\<forall>n. k \<le> n \<and> n < 64 \<longrightarrow> \<not> bit v n"
    show "\<forall>j < 64 - k. \<not> bit (dict_rev v) j"
    proof (intro allI impI)
      fix j assume "j < 64 - k"
      then have "k \<le> 63 - j" "63 - j < 64" by auto
      then show "\<not> bit (dict_rev v) j" using a by (auto simp: bit_dict_rev)
    qed
  qed
  finally show ?thesis .
qed

lemma expansion_end:
  assumes "k0 \<le> k1" "k1 \<le> 64" "2 ^ (64 - k1) dvd rcur v"
  shows "v AND (mask k0 XOR mask k1) = 0 \<longleftrightarrow> 2 ^ (64 - k0) dvd rcur v"
proof -
  have "v AND (mask k0 XOR mask k1) = 0 \<longleftrightarrow> (\<forall>n. k0 \<le> n \<and> n < k1 \<longrightarrow> \<not> bit v n)"
    using assms(1,2)
    by (auto simp: bit_eq_iff [of "v AND _"] bit_simps) (meson leD order_less_le_trans, meson not_le_imp_less)
  moreover have "\<forall>n. k1 \<le> n \<and> n < 64 \<longrightarrow> \<not> bit v n" using dvd_rcur [OF assms(2)] assms(3) by blast
  ultimately show ?thesis using dvd_rcur [of k0 v] assms(1,2) by (meson not_le_imp_less le_trans order_less_le_trans)
qed

lemma live_mask: "ht_live h ht \<Longrightarrow> ht_size ht = 2 ^ k \<Longrightarrow> k \<le> 63 \<Longrightarrow> size_mask ht = mask k"
  using of_nat_mask [of k] by (simp add: size_mask_def ht_live_def)

lemma live_visit:
  assumes "ht_live h ht" "ht_size ht = 2 ^ k" "k \<le> 63" "e \<in> set (entries ht)"
    and "rcur (h (fst e)) div 2 ^ (64 - k) = rcur v div 2 ^ (64 - k)"
  shows "e \<in> set (ht_table ht ! slot ht v)"
proof -
  have "h (fst e) AND mask k = v AND mask k" using and_mask_rcur [of k] assms(3,5) by simp
  then have "slot ht (h (fst e)) = slot ht v"
    using live_mask [OF assms(1-3)] by (simp add: slot_def size_mask_def)
  then show ?thesis using ht_live_bucket [OF assms(1,4)] by simp
qed

lemma dvd_64: "(2::nat) ^ (64 - k) dvd 2 ^ 64"
  by (rule le_imp_power_dvd) simp

lemma block_end_64: "k \<le> 64 \<Longrightarrow> block_end (2 ^ (64 - k)) (rcur v) \<le> 2 ^ 64"
  by (rule block_end_le [OF dvd_64 rcur_less])

lemma rcur_next:
  "ht_live h ht \<Longrightarrow> ht_size ht = 2 ^ k \<Longrightarrow> k \<le> 63 \<Longrightarrow>
   rcur (scan_next (size_mask ht) v) = block_end (2 ^ (64 - k)) (rcur v) mod 2 ^ 64"
  using live_mask [of h ht k] rcur_scan_next [of k v] by (simp add: block_end_def)

text \<open>The expansions of a cursor reach the end of its block in the smaller table.\<close>

lemma scan_expand_spec:
  assumes live: "ht_live h t1" "ht_size t1 = 2 ^ k1" "k1 \<le> 63" and k0: "k0 \<le> k1"
  shows "\<exists>v' es. scan_expand (mask k0) t1 v = Some (v', es) \<and>
    rcur v' = block_end (2 ^ (64 - k0)) (rcur v) mod 2 ^ 64 \<and>
    (\<forall>e \<in> set (entries t1). rcur v \<le> rcur (h (fst e)) \<and> rcur (h (fst e)) < block_end (2 ^ (64 - k0)) (rcur v) \<longrightarrow> e \<in> set es) \<and>
    set es \<subseteq> set (entries t1)"
proof (induction "block_end (2 ^ (64 - k0)) (rcur v) - rcur v" arbitrary: v rule: less_induct)
  case less
  let ?n0 = "(2::nat) ^ (64 - k0)" and ?n1 = "(2::nat) ^ (64 - k1)"
  let ?A = "block_end ?n0 (rcur v)" and ?B = "block_end ?n1 (rcur v)"
  let ?b = "ht_table t1 ! slot t1 v"
  define w where "w = scan_next (mask k1) v"
  have sl: "slot t1 v < length (ht_table t1)" by (rule slot_less [OF live(1)])
  have m: "size_mask t1 = mask k1" by (rule live_mask [OF live])
  have rw: "rcur w = ?B mod 2 ^ 64" using rcur_next [OF live, of v] m by (simp add: w_def)
  have d10: "?n1 dvd ?n0" using k0 by (simp add: le_imp_power_dvd)
  have BA: "?B \<le> ?A"
    by (rule block_end_le [OF dvd_trans [OF d10 dvd_block_end] block_end_gt]) simp
  have A64: "?A \<le> 2 ^ 64" using block_end_64 [of k0 v] k0 live(3) by simp
  have nd: "?n1 dvd rcur w"
    unfolding rw by (rule dvd_mod [OF dvd_block_end dvd_64])
  have stop: "w AND (mask k0 XOR mask k1) = 0 \<longleftrightarrow> ?n0 dvd rcur w"
    by (rule expansion_end [OF k0 _ nd]) (use live(3) in simp)
  have vis: "e \<in> set ?b" if "e \<in> set (entries t1)" "rcur v \<le> rcur (h (fst e))" "rcur (h (fst e)) < ?B" for e
    by (rule live_visit [OF live that(1)]) (rule block_end_same [OF that(2,3)])
  have sub: "set ?b \<subseteq> set (entries t1)" by (rule bucket_entries [OF sl])
  have unfold: "scan_expand (mask k0) t1 v =
      (if w AND (mask k0 XOR mask k1) \<noteq> 0 then do { (v, es') \<leftarrow> scan_expand (mask k0) t1 w; Some (v, ?b @ es') } else Some (w, ?b))"
    by (subst scan_expand.simps) (simp add: mem_simps sl m w_def)
  show ?case
  proof (cases "?n0 dvd ?B")
    case True
    then have "?B = ?A" using BA block_end_le [OF True block_end_gt] by simp
    moreover have "?n0 dvd rcur w" unfolding rw by (rule dvd_mod [OF True dvd_64])
    ultimately show ?thesis using unfold stop rw vis sub by auto
  next
    case False
    have "?B \<noteq> ?A" using False dvd_block_end by metis
    then have lt: "?B < ?A" using BA by simp
    then have rwB: "rcur w = ?B" using rw A64 by simp
    have gt: "rcur v < ?B" by (rule block_end_gt) simp
    have same: "block_end ?n0 (rcur w) = ?A"
      using block_end_same [of "rcur v" ?B ?n0] gt lt rwB by (simp add: block_end_def)
    have "block_end ?n0 (rcur w) - rcur w < ?A - rcur v" using same rwB gt lt by linarith
    from less.hyps [OF this] obtain v' es where r:
      "scan_expand (mask k0) t1 w = Some (v', es)" "rcur v' = ?A mod 2 ^ 64"
      "\<forall>e \<in> set (entries t1). rcur w \<le> rcur (h (fst e)) \<and> rcur (h (fst e)) < ?A \<longrightarrow> e \<in> set es"
      "set es \<subseteq> set (entries t1)" unfolding same by blast
    have "scan_expand (mask k0) t1 v = Some (v', ?b @ es)"
      using unfold stop r(1) rwB False by simp
    moreover have "\<forall>e \<in> set (entries t1). rcur v \<le> rcur (h (fst e)) \<and> rcur (h (fst e)) < ?A \<longrightarrow> e \<in> set (?b @ es)"
    proof (intro ballI impI)
      fix e assume e: "e \<in> set (entries t1)" "rcur v \<le> rcur (h (fst e)) \<and> rcur (h (fst e)) < ?A"
      show "e \<in> set (?b @ es)"
      proof (cases "rcur (h (fst e)) < ?B")
        case True
        then show ?thesis using vis [OF e(1)] e(2) by simp
      next
        case False
        then have "rcur w \<le> rcur (h (fst e))" by (simp add: rwB)
        then show ?thesis using r(3) e by simp
      qed
    qed
    ultimately show ?thesis using r sub by auto
  qed
qed

lemma scan_two_tables:
  assumes live: "ht_live h t0" "ht_live h t1" and le: "ht_size t0 \<le> ht_size t1"
  shows "\<exists>v' es es'. mem_get (slot t0 v) (ht_table t0) = Some es \<and> scan_expand (size_mask t0) t1 v = Some (v', es') \<and>
    set (es @ es') \<subseteq> set (entries t0) \<union> set (entries t1) \<and> (v' \<noteq> 0 \<longrightarrow> rcur v < rcur v') \<and>
    (\<forall>e \<in> set (entries t0) \<union> set (entries t1).
       rcur v \<le> rcur (h (fst e)) \<and> (v' = 0 \<or> rcur (h (fst e)) < rcur v') \<longrightarrow> e \<in> set (es @ es'))"
proof -
  obtain k0 k1 where k: "ht_size t0 = 2 ^ k0" "k0 \<le> 63" "ht_size t1 = 2 ^ k1" "k1 \<le> 63"
    using live by (auto simp: ht_live_def)
  have k01: "k0 \<le> k1" using le k by simp
  let ?A = "block_end (2 ^ (64 - k0)) (rcur v)"
  let ?b = "ht_table t0 ! slot t0 v"
  have m: "size_mask t0 = mask k0" by (rule live_mask [OF live(1) k(1,2)])
  have sl: "slot t0 v < length (ht_table t0)" by (rule slot_less [OF live(1)])
  have A64: "?A \<le> 2 ^ 64" using block_end_64 [of k0 v] k(2) by simp
  obtain v' es where r: "scan_expand (mask k0) t1 v = Some (v', es)" "rcur v' = ?A mod 2 ^ 64"
    "\<forall>e \<in> set (entries t1). rcur v \<le> rcur (h (fst e)) \<and> rcur (h (fst e)) < ?A \<longrightarrow> e \<in> set es"
    "set es \<subseteq> set (entries t1)"
    using scan_expand_spec [OF live(2) k(3,4) k01] by blast
  have end': "v' = 0 \<longrightarrow> ?A = 2 ^ 64" "v' \<noteq> 0 \<longrightarrow> rcur v' = ?A"
  proof -
    have pos: "0 < ?A" by (simp add: block_end_def)
    show "v' = 0 \<longrightarrow> ?A = 2 ^ 64"
      using r(2) A64 pos by (metis le_neq_implies_less mod_less not_less_iff_gr_or_eq rcur_eq_0)
    show "v' \<noteq> 0 \<longrightarrow> rcur v' = ?A"
      using r(2) A64 by (metis le_neq_implies_less mod_less mod_self rcur_eq_0)
  qed
  have lim: "rcur (h (fst e)) < ?A" if "v' = 0 \<or> rcur (h (fst e)) < rcur v'" for e :: "'a \<times> 'b"
    using that end' rcur_less [of "h (fst e)"] by (cases "v' = 0") auto
  have "e \<in> set ?b" if "e \<in> set (entries t0)" "rcur v \<le> rcur (h (fst e))" "rcur (h (fst e)) < ?A" for e
    by (rule live_visit [OF live(1) k(1,2) that(1)]) (rule block_end_same [OF that(2,3)])
  moreover have "mem_get (slot t0 v) (ht_table t0) = Some ?b" using sl by (simp add: mem_simps)
  moreover have "set ?b \<subseteq> set (entries t0)" by (rule bucket_entries [OF sl])
  moreover have "v' \<noteq> 0 \<longrightarrow> rcur v < rcur v'" using end'(2) block_end_gt [of "2 ^ (64 - k0)" "rcur v"] by simp
  ultimately show ?thesis using r lim m
    by (intro exI [of _ v'] exI [of _ ?b] exI [of _ es]) auto
qed

lemma dictScan_spec:
  assumes ok: "dict_ok d" and ne: "dictSize d \<noteq> 0"
  shows "\<exists>v' es. dictScan d v = Some (v', es) \<and> set es \<subseteq> set (dict_entries d) \<and> (v' \<noteq> 0 \<longrightarrow> rcur v < rcur v') \<and>
    (\<forall>e \<in> set (dict_entries d). rcur v \<le> rcur (dictGetHash d (fst e)) \<and>
       (v' = 0 \<or> rcur (dictGetHash d (fst e)) < rcur v') \<longrightarrow> e \<in> set es)"
proof (cases "dictIsRehashing d")
  case True
  define h where "h = hashFunction (dtype d)"
  have live: "ht_live h (ht0 d)" "ht_live h (ht1 d)"
    using ok True by (simp_all add: dict_ok_def dictIsRehashing_def h_def)
  obtain t0 t1 where t: "(t0, t1) = (if ht_size (ht0 d) > ht_size (ht1 d) then (ht1 d, ht0 d) else (ht0 d, ht1 d))"
    by (metis surj_pair)
  then have lt: "ht_live h t0" "ht_live h t1" "ht_size t0 \<le> ht_size t1"
      and ent: "set (dict_entries d) = set (entries t0) \<union> set (entries t1)"
    using live by (auto simp: dict_entries_def split: if_splits)
  obtain v' es es' where r: "mem_get (slot t0 v) (ht_table t0) = Some es"
    "scan_expand (size_mask t0) t1 v = Some (v', es')" "set (es @ es') \<subseteq> set (entries t0) \<union> set (entries t1)"
    "v' \<noteq> 0 \<longrightarrow> rcur v < rcur v'"
    "\<forall>e \<in> set (entries t0) \<union> set (entries t1).
       rcur v \<le> rcur (h (fst e)) \<and> (v' = 0 \<or> rcur (h (fst e)) < rcur v') \<longrightarrow> e \<in> set (es @ es')"
    using scan_two_tables [OF lt, of v] by blast
  have "dictScan d v = Some (v', es @ es')"
    using True ne r(1,2) by (simp add: dictScan_def flip: t)
  moreover have "dictGetHash d = h" by (simp add: fun_eq_iff dictGetHash_def h_def)
  ultimately show ?thesis using r(3-5) unfolding ent by metis
next
  case False
  define h where "h = hashFunction (dtype d)"
  have live: "ht_live h (ht0 d)" and r1: "ht1 d = dictReset"
    using ok False ne by (auto simp: dict_ok_def dictIsRehashing_def dictSize_def h_def)
  obtain k where k: "ht_size (ht0 d) = 2 ^ k" "k \<le> 63" using live by (auto simp: ht_live_def)
  have "scan_expand (mask k) (ht0 d) v = Some (scan_next (size_mask (ht0 d)) v, ht_table (ht0 d) ! slot (ht0 d) v)"
    using slot_less [OF live] live_mask [OF live k] by (subst scan_expand.simps) (simp add: mem_simps)
  moreover obtain v' es es' where r: "mem_get (slot (ht0 d) v) (ht_table (ht0 d)) = Some es"
    "scan_expand (size_mask (ht0 d)) (ht0 d) v = Some (v', es')" "set (es @ es') \<subseteq> set (entries (ht0 d))"
    "v' \<noteq> 0 \<longrightarrow> rcur v < rcur v'"
    "\<forall>e \<in> set (entries (ht0 d)). rcur v \<le> rcur (h (fst e)) \<and> (v' = 0 \<or> rcur (h (fst e)) < rcur v') \<longrightarrow> e \<in> set (es @ es')"
    using scan_two_tables [OF live live, of v] by auto
  ultimately have "v' = scan_next (size_mask (ht0 d)) v" "es' = es"
    using live_mask [OF live k] slot_less [OF live, of v] by (auto simp: mem_simps)
  then have "dictScan d v = Some (v', es)" using r(1) False ne by (simp add: dictScan_def)
  then show ?thesis using r(3-5) r1 \<open>es' = es\<close>
    by (intro exI [of _ v'] exI [of _ es]) (simp add: dict_entries_def dictGetHash_def h_def)
qed

lemma scan_all_complete:
  assumes "\<forall>d \<in> set ds. dict_ok d \<and> dtype d = t \<and> key \<in> dom (dict_map d)"
    and "rcur v \<le> rcur (hashFunction t key)" "scan_all ds v = Some (0, es)" "v \<noteq> 0 \<or> ds \<noteq> []"
  shows "\<exists>x. (key, x) \<in> set es"
  using assms
proof (induction ds arbitrary: v es)
  case (Cons d ds)
  have ok: "dict_ok d" and t: "dtype d = t" and key: "key \<in> dom (dict_map d)" using Cons.prems(1) by auto
  have ne: "dictSize d \<noteq> 0" using key finite_dict_map [of d] by (auto simp: dictSize_card [OF ok])
  obtain x where x: "(key, x) \<in> set (dict_entries d)" using key by (auto simp: dict_map_Some [OF ok])
  obtain v' es1 where s: "dictScan d v = Some (v', es1)"
      "\<forall>e \<in> set (dict_entries d). rcur v \<le> rcur (dictGetHash d (fst e)) \<and>
         (v' = 0 \<or> rcur (dictGetHash d (fst e)) < rcur v') \<longrightarrow> e \<in> set es1"
    using dictScan_spec [OF ok ne, of v] by blast
  have hit: "v' = 0 \<or> rcur (hashFunction t key) < rcur v' \<Longrightarrow> (key, x) \<in> set es1"
    using s(2) x Cons.prems(2) t by (auto simp: dictGetHash_def)
  show ?case
  proof (cases "v' = 0")
    case True
    then show ?thesis using hit s(1) Cons.prems(3) by auto
  next
    case False
    obtain es2 where es: "scan_all ds v' = Some (0, es2)" "es = es1 @ es2"
      using Cons.prems(3) s(1) False by (auto simp: Option.bind_eq_Some_conv)
    show ?thesis
    proof (cases "rcur (hashFunction t key) < rcur v'")
      case True
      then show ?thesis using hit es(2) by auto
    next
      case False': False
      then have "\<exists>x. (key, x) \<in> set es2"
        using Cons.IH [of v' es2] Cons.prems(1) es(1) False by auto
      then show ?thesis using es(2) by auto
    qed
  qed
qed auto

text \<open>
  C3.  The guarantee of \<open>dictScan\<close>: in an iteration that starts with cursor 0 and ends when
  cursor 0 is returned, every key that is in the dictionary at all the calls is returned,
  whatever happens to the dictionary between the calls (insertions, deletions, resizes in
  both directions, any amount of rehashing).
\<close>

theorem dictScan_complete:
  assumes "\<forall>d \<in> set ds. dict_ok d \<and> dtype d = t \<and> key \<in> dom (dict_map d)"
    and "ds \<noteq> []" "scan_all ds 0 = Some (0, es)"
  shows "key \<in> fst ` set es"
  using scan_all_complete [OF assms(1) _ assms(3)] assms(2) by force

text \<open>
  C20.  One call of \<open>dictScan\<close> stays inside the tables and returns only entries of the
  dictionary, and the cursor, read with its bits reversed, grows until it becomes 0: an
  iteration cannot go on forever.
\<close>

theorem dictScan_progress:
  assumes "dict_ok d"
  shows "\<exists>v' es. dictScan d v = Some (v', es) \<and> set es \<subseteq> set (dict_entries d) \<and>
    (v' = 0 \<or> unat (dict_rev v) < unat (dict_rev v'))"
proof (cases "dictSize d = 0")
  case False
  then show ?thesis using dictScan_spec [OF assms, of v] unfolding rcur_def by blast
qed (simp add: dictScan_def)

text \<open>
  The parallel bit swaps of \<open>rev\<close> reverse the 64 bits of a word.
\<close>

theorem dict_rev_correct: "bit (dict_rev v) n \<longleftrightarrow> n < 64 \<and> bit v (63 - n)"
  by (rule bit_dict_rev)

theorem dictScan_progress_witness:
  "\<exists>v' es. dictScan ex_dict 5 = Some (v', es) \<and> set es \<subseteq> set (dict_entries ex_dict) \<and>
    (v' = 0 \<or> unat (dict_rev 5) < unat (dict_rev v'))"
  by (rule dictScan_progress [OF ex_dict_ok])

subsection \<open>A scan of the example\<close>

lemma ex_next: "scan_next 7 0 = 4" "scan_next 7 4 = 2"  "scan_next 7 2 = 6" "scan_next 7 6 = 1" "scan_next 7 1 = 5" "scan_next 7 5 = 3" "scan_next 7 3 = 7" "scan_next 7 7 = 0"
  by (simp_all add: scan_next_def dict_rev_steps rev_step_def mask_numeral)
lemma ex_scan: "dictScan ex_dict 0 = Some (2, [])" "dictScan ex_dict 2 = Some (1, [(2, 20)])"
  "dictScan ex_dict 1 = Some (3, [(1, 10), (5, 50)])" "dictScan ex_dict 3 = Some (0, [(7, 70), (3, 30)])"
  by (simp_all add: dictScan_def ex_dict_def dictSize_def dictIsRehashing_def slot_def size_mask_def mem_get_def
     scan_expand.simps ex_next)

theorem dictScan_complete_witness:
  "scan_all [ex_dict, ex_dict, ex_dict, ex_dict] 0 = Some (0, [(2, 20), (1, 10), (5, 50), (7, 70), (3, 30)]) \<and>
   7 \<in> fst ` set [(2, 20), (1, 10), (5, 50), (7, 70), (3, 30)]"
proof -
  have s: "scan_all [ex_dict, ex_dict, ex_dict, ex_dict] 0 = Some (0, [(2, 20), (1, 10), (5, 50), (7, 70), (3, 30)])"
    by (simp add: ex_scan)
  have "7 \<in> dom (dict_map ex_dict)" by (simp add: ex_dict_def dict_map_def dict_entries_def entries_def)
  then show ?thesis using dictScan_complete [OF _ _ s, of "dtype ex_dict" 7] ex_dict_ok s by simp
qed

end
