(* ===== verification/Intset.thy ===== *)
theory Intset
  imports Interfaces
begin

section \<open>Integer sets (\<open>redis-5.0/src/intset.c\<close>)\<close>

text \<open>
  An intset is a sorted array of distinct integers, each stored in 2, 4 or 8 bytes: the
  width (\<open>encoding\<close>) is the same for all elements and grows when a value does not fit.
  The model keeps the byte array \<open>contents\<close>, the 32-bit fields \<open>encoding\<close> and \<open>length\<close>
  and the 32-bit arithmetic on positions and sizes.  The byte order conversions
  (\<open>intrev32ifbe\<close>, \<open>memrev64ifbe\<close>, \dots) keep the stored bytes little-endian on every
  host; the model states the stored bytes and leaves them out.
\<close>

subsection \<open>State and operations\<close>

record intset =
  encoding :: "32 word"
  is_length :: "32 word"
  contents :: bytes

definition INTSET_ENC_INT16 :: "8 word" where "INTSET_ENC_INT16 = 2"
definition INTSET_ENC_INT32 :: "8 word" where "INTSET_ENC_INT32 = 4"
definition INTSET_ENC_INT64 :: "8 word" where "INTSET_ENC_INT64 = 8"

lemmas intset_enc_defs = INTSET_ENC_INT16_def INTSET_ENC_INT32_def INTSET_ENC_INT64_def

definition intsetValueEncoding :: "64 word \<Rightarrow> 8 word" where
  "intsetValueEncoding v =
     (if sint v < - (2 ^ 31) \<or> sint v > 2 ^ 31 - 1 then INTSET_ENC_INT64
      else if sint v < - (2 ^ 15) \<or> sint v > 2 ^ 15 - 1 then INTSET_ENC_INT32
      else INTSET_ENC_INT16)"

text \<open>\<open>_intsetGetEncoded\<close>: the value at \<open>pos\<close>, read with the given encoding.\<close>

definition intsetGetEncoded :: "intset \<Rightarrow> int \<Rightarrow> 8 word \<Rightarrow> 64 word option" where
  "intsetGetEncoded is pos enc =
     (if pos < 0 then None
      else if enc = INTSET_ENC_INT64 then
        do { bs \<leftarrow> mem_read (8 * nat pos) 8 (contents is); Some (le_word bs) }
      else if enc = INTSET_ENC_INT32 then
        do { bs \<leftarrow> mem_read (4 * nat pos) 4 (contents is); Some (scast (le_word bs :: 32 word)) }
      else
        do { bs \<leftarrow> mem_read (2 * nat pos) 2 (contents is); Some (scast (le_word bs :: 16 word)) })"

text \<open>\<open>_intsetGet\<close> and \<open>_intsetSet\<close>: the same with the configured encoding.\<close>

definition priv_intsetGet :: "intset \<Rightarrow> int \<Rightarrow> 64 word option" where
  "priv_intsetGet is pos = intsetGetEncoded is pos (ucast (encoding is))"

definition priv_intsetSet :: "intset \<Rightarrow> int \<Rightarrow> 64 word \<Rightarrow> intset option" where
  "priv_intsetSet is pos value =
     (if pos < 0 then None
      else if encoding is = ucast INTSET_ENC_INT64 then
        do { c \<leftarrow> mem_write (8 * nat pos) (le_bytes 8 value) (contents is);
             Some (is\<lparr>contents := c\<rparr>) }
      else if encoding is = ucast INTSET_ENC_INT32 then
        do { c \<leftarrow> mem_write (4 * nat pos) (le_bytes 4 (ucast value :: 32 word)) (contents is);
             Some (is\<lparr>contents := c\<rparr>) }
      else
        do { c \<leftarrow> mem_write (2 * nat pos) (le_bytes 2 (ucast value :: 16 word)) (contents is);
             Some (is\<lparr>contents := c\<rparr>) })"

definition intsetNew :: intset where
  "intsetNew = \<lparr>encoding = ucast INTSET_ENC_INT16, is_length = 0, contents = []\<rparr>"

text \<open>\<open>intsetResize\<close> computes the size in 32-bit arithmetic: \<open>*\<close> wraps around.\<close>

definition intsetResize :: "(nat \<Rightarrow> byte) \<Rightarrow> intset \<Rightarrow> 32 word \<Rightarrow> intset" where
  "intsetResize junk is len =
     (let size = len * encoding is
      in is\<lparr>contents := mem_resize junk (unat size) (contents is)\<rparr>)"

text \<open>The binary search loop; it returns the final \<open>min\<close>, \<open>mid\<close> and \<open>cur\<close>.\<close>

partial_function (option) intsetSearch_loop ::
    "intset \<Rightarrow> 64 word \<Rightarrow> int \<Rightarrow> int \<Rightarrow> int \<Rightarrow> 64 word \<Rightarrow> (int \<times> int \<times> 64 word) option" where
  "intsetSearch_loop is value min' max' mid cur =
     (if max' \<ge> min' then
        (let mid = uint (drop_bit 1 (word_of_int min' + word_of_int max' :: 32 word)) in
         do { cur \<leftarrow> priv_intsetGet is mid;
              (if sint value > sint cur then intsetSearch_loop is value (mid + 1) max' mid cur
               else if sint value < sint cur then intsetSearch_loop is value min' (mid - 1) mid cur
               else Some (min', mid, cur)) })
      else Some (min', mid, cur))"

declare intsetSearch_loop.simps [code]

definition intsetSearch :: "intset \<Rightarrow> 64 word \<Rightarrow> (bool \<times> 32 word) option" where
  "intsetSearch is value =
     (let max' = sint (is_length is - 1) in
      if is_length is = 0 then Some (False, 0)
      else do {
        last \<leftarrow> priv_intsetGet is max';
        (if sint value > sint last then Some (False, is_length is)
         else do {
           first \<leftarrow> priv_intsetGet is 0;
           (if sint value < sint first then Some (False, 0)
            else do {
              (min', mid, cur) \<leftarrow> intsetSearch_loop is value 0 max' (-1) (-1);
              Some (if value = cur then (True, word_of_int mid) else (False, word_of_int min'))
            }) }) })"

primrec intsetUpgrade_loop :: "8 word \<Rightarrow> int \<Rightarrow> nat \<Rightarrow> intset \<Rightarrow> intset option" where
  "intsetUpgrade_loop curenc prepend 0 is = Some is"
| "intsetUpgrade_loop curenc prepend (Suc length') is =
     do { v \<leftarrow> intsetGetEncoded is (int length') curenc;
          is \<leftarrow> priv_intsetSet is (int length' + prepend) v;
          intsetUpgrade_loop curenc prepend length' is }"

definition intsetUpgradeAndAdd :: "(nat \<Rightarrow> byte) \<Rightarrow> intset \<Rightarrow> 64 word \<Rightarrow> intset option" where
  "intsetUpgradeAndAdd junk is value =
     (let curenc = ucast (encoding is);
          newenc = intsetValueEncoding value;
          length' = unat (is_length is);
          prepend = (if sint value < 0 then 1 else 0);
          is = is\<lparr>encoding := ucast newenc\<rparr>;
          is = intsetResize junk is (is_length is + 1)
      in do {
        is \<leftarrow> intsetUpgrade_loop curenc prepend length' is;
        is \<leftarrow> (if prepend \<noteq> 0 then priv_intsetSet is 0 value
               else priv_intsetSet is (sint (is_length is)) value);
        Some (is\<lparr>is_length := is_length is + 1\<rparr>) })"

definition intsetMoveTail :: "intset \<Rightarrow> 32 word \<Rightarrow> 32 word \<Rightarrow> intset option" where
  "intsetMoveTail is from to =
     (let n = is_length is - from;
          w = (if encoding is = ucast INTSET_ENC_INT64 then 8
               else if encoding is = ucast INTSET_ENC_INT32 then 4 else 2)
      in do { c \<leftarrow> mem_move (w * unat to) (w * unat from) (unat (n * of_nat w)) (contents is);
              Some (is\<lparr>contents := c\<rparr>) })"

definition intsetAdd :: "(nat \<Rightarrow> byte) \<Rightarrow> intset \<Rightarrow> 64 word \<Rightarrow> (intset \<times> bool) option" where
  "intsetAdd junk is value =
     (if ucast (intsetValueEncoding value) > encoding is then
        do { is \<leftarrow> intsetUpgradeAndAdd junk is value; Some (is, True) }
      else do {
        (found, pos) \<leftarrow> intsetSearch is value;
        (if found then Some (is, False)
         else do {
           is \<leftarrow> Some (intsetResize junk is (is_length is + 1));
           is \<leftarrow> (if pos < is_length is then intsetMoveTail is pos (pos + 1) else Some is);
           is \<leftarrow> priv_intsetSet is (sint pos) value;
           Some (is\<lparr>is_length := is_length is + 1\<rparr>, True) }) })"

definition intsetRemove :: "(nat \<Rightarrow> byte) \<Rightarrow> intset \<Rightarrow> 64 word \<Rightarrow> (intset \<times> bool) option" where
  "intsetRemove junk is value =
     (if ucast (intsetValueEncoding value) \<le> encoding is then
        do {
          (found, pos) \<leftarrow> intsetSearch is value;
          (if found then
             (let len = is_length is in
              do { is \<leftarrow> (if pos < len - 1 then intsetMoveTail is (pos + 1) pos else Some is);
                   is \<leftarrow> Some (intsetResize junk is (len - 1));
                   Some (is\<lparr>is_length := len - 1\<rparr>, True) })
           else Some (is, False)) }
      else Some (is, False))"

definition intsetFind :: "intset \<Rightarrow> 64 word \<Rightarrow> bool option" where
  "intsetFind is value =
     (if ucast (intsetValueEncoding value) \<le> encoding is
      then do { (found, pos) \<leftarrow> intsetSearch is value; Some found }
      else Some False)"

text \<open>\<open>intsetRandom\<close>, with the value of \<open>rand()\<close>, between 0 and \<open>RAND_MAX\<close>, as an argument; \<open>%\<close> by 0 is undefined.\<close>

definition intsetRandom :: "intset \<Rightarrow> 31 word \<Rightarrow> 64 word option" where
  "intsetRandom is r =
     (if is_length is = 0 then None
      else priv_intsetGet is (sint (ucast r mod is_length is)))"

text \<open>\<open>intsetGet\<close>: the inner \<open>None\<close> is the return value 0 (position out of range).\<close>

definition intsetGet :: "intset \<Rightarrow> 32 word \<Rightarrow> 64 word option option" where
  "intsetGet is pos =
     (if pos < is_length is then do { v \<leftarrow> priv_intsetGet is (sint pos); Some (Some v) }
      else Some None)"

definition intsetLen :: "intset \<Rightarrow> 32 word" where
  "intsetLen is = is_length is"

definition intsetBlobLen :: "intset \<Rightarrow> nat" where
  "intsetBlobLen is = 8 + unat (is_length is * encoding is)"


subsection \<open>The array behind the bytes\<close>

text \<open>
  \<open>elem_bytes w x\<close> is the encoding of \<open>x\<close> in \<open>w\<close> bytes, \<open>fits w x\<close> says that \<open>x\<close> is in
  the range of that encoding, \<open>intset_abs\<close> reads the array back as a list of integers.
\<close>

definition elem_bytes :: "nat \<Rightarrow> int \<Rightarrow> bytes" where
  "elem_bytes w x = le_bytes w (word_of_int x :: 64 word)"

definition fits :: "nat \<Rightarrow> int \<Rightarrow> bool" where
  "fits w x \<longleftrightarrow> - (2 ^ (8 * w - 1)) \<le> x \<and> x < 2 ^ (8 * w - 1)"

definition enc_ok :: "nat \<Rightarrow> bool" where
  "enc_ok w \<longleftrightarrow> w = 2 \<or> w = 4 \<or> w = 8"

definition intset_abs :: "intset \<Rightarrow> int list" where
  "intset_abs is = map (\<lambda>i. case priv_intsetGet is (int i) of Some v \<Rightarrow> sint v | None \<Rightarrow> 0)
                       [0..<unat (is_length is)]"

definition intset_inv :: "intset \<Rightarrow> bool" where
  "intset_inv is \<longleftrightarrow>
     enc_ok (unat (encoding is)) \<and>
     contents is = concat (map (elem_bytes (unat (encoding is))) (intset_abs is)) \<and>
     unat (encoding is) * unat (is_length is) < 2 ^ 32 \<and>
     list_all (fits (unat (encoding is))) (intset_abs is) \<and>
     sorted_wrt (<) (intset_abs is)"

lemma length_elem_bytes [simp]: "length (elem_bytes w x) = w"
  by (simp add: elem_bytes_def)

lemma length_elems [simp]: "length (concat (map (elem_bytes w) xs)) = w * length xs"
  by (simp add: length_chunks)

lemma intsetGetEncoded_elem:
  assumes "enc_ok w" and "i < length xs" and "fits w (xs ! i)"
    and "contents is = concat (map (elem_bytes w) xs) @ post"
  shows "intsetGetEncoded is (int i) (of_nat w) = Some (word_of_int (xs ! i))"
proof -
  have rd: "mem_read (w * i) w (contents is) = Some (elem_bytes w (xs ! i))"
    using assms by (simp add: mem_read_chunk)
  have 2: "le_word (elem_bytes 2 (xs ! i)) = (word_of_int (xs ! i) :: 16 word)"
    using le_word_le_bytes [where 'a = 16 and n = 2 and w = "word_of_int (xs ! i)"]
      le_bytes_ucast [where 'b = 16 and n = 2 and w = "word_of_int (xs ! i) :: 64 word"]
    by (simp add: elem_bytes_def ucast_word_of_int)
  have 4: "le_word (elem_bytes 4 (xs ! i)) = (word_of_int (xs ! i) :: 32 word)"
    using le_word_le_bytes [where 'a = 32 and n = 4 and w = "word_of_int (xs ! i)"]
      le_bytes_ucast [where 'b = 32 and n = 4 and w = "word_of_int (xs ! i) :: 64 word"]
    by (simp add: elem_bytes_def ucast_word_of_int)
  have 8: "le_word (elem_bytes 8 (xs ! i)) = (word_of_int (xs ! i) :: 64 word)"
    by (simp add: elem_bytes_def le_word_le_bytes)
  show ?thesis
    using assms(1,3) rd 2 4 8
    by (auto simp: enc_ok_def intsetGetEncoded_def intset_enc_defs fits_def scast_word_of_int)
qed

lemma priv_intsetGet_elem:
  assumes "enc_ok w" and "encoding is = of_nat w" and "i < length xs" and "list_all (fits w) xs"
    and "contents is = concat (map (elem_bytes w) xs) @ post"
  shows "priv_intsetGet is (int i) = Some (word_of_int (xs ! i))"
proof -
  have "ucast (encoding is) = (of_nat w :: 8 word)"
    using assms(1,2) by (auto simp: enc_ok_def)
  then show ?thesis
    using assms intsetGetEncoded_elem [of w i xs "is" post]
    by (simp add: priv_intsetGet_def list_all_length)
qed

lemma elem_bytes_sint: "elem_bytes w (sint v) = le_bytes w (v :: 64 word)"
  by (simp add: elem_bytes_def)

lemma priv_intsetSet_elem:
  assumes "enc_ok w" and "encoding is = of_nat w"
    and "contents is = pre @ mid @ post" and "length pre = w * i" and "length mid = w"
  shows "priv_intsetSet is (int i) v = Some (is\<lparr>contents := pre @ elem_bytes w (sint v) @ post\<rparr>)"
  using assms
  by (auto simp: priv_intsetSet_def enc_ok_def intset_enc_defs elem_bytes_sint le_bytes_ucast
      mem_write_append)


subsection \<open>Representation\<close>

definition intset_rep :: "intset \<Rightarrow> nat \<Rightarrow> int list \<Rightarrow> bool" where
  "intset_rep is w xs \<longleftrightarrow>
     enc_ok w \<and> encoding is = of_nat w \<and> is_length is = of_nat (length xs) \<and>
     contents is = concat (map (elem_bytes w) xs) \<and> w * length xs < 2 ^ 32 \<and>
     list_all (fits w) xs \<and> sorted_wrt (<) xs"

lemma intset_rep_get:
  "intset_rep is w xs \<Longrightarrow> i < length xs \<Longrightarrow> priv_intsetGet is (int i) = Some (word_of_int (xs ! i))"
  by (rule priv_intsetGet_elem [where post = "[]"]) (auto simp: intset_rep_def)

lemma intset_rep_len: "intset_rep is w xs \<Longrightarrow> length xs < 2 ^ 31"
  by (auto simp: intset_rep_def enc_ok_def)

lemma intset_rep_unat_len: "intset_rep is w xs \<Longrightarrow> unat (is_length is) = length xs"
proof -
  assume rep: "intset_rep is w xs"
  show ?thesis using intset_rep_len [OF rep] rep
    by (simp add: intset_rep_def unat_word_of_nat)
qed

lemma fits_sint: "enc_ok w \<Longrightarrow> fits w x \<Longrightarrow> sint (word_of_int x :: 64 word) = x"
  by (rule sint_word_of_int) (auto simp: fits_def enc_ok_def)

lemma intset_rep_sint:
  "intset_rep is w xs \<Longrightarrow> i < length xs \<Longrightarrow> sint (word_of_int (xs ! i) :: 64 word) = xs ! i"
  by (auto simp: intset_rep_def list_all_length intro: fits_sint)

lemma intset_rep_abs: "intset_rep is w xs \<Longrightarrow> intset_abs is = xs"
  by (rule nth_equalityI)
    (simp_all add: intset_abs_def intset_rep_unat_len intset_rep_get intset_rep_sint)

lemma intset_inv_rep: "intset_inv is \<Longrightarrow> intset_rep is (unat (encoding is)) (intset_abs is)"
  by (auto simp: intset_inv_def intset_rep_def intset_abs_def)

lemma intset_rep_inv: "intset_rep is w xs \<Longrightarrow> intset_inv is"
proof -
  assume rep: "intset_rep is w xs"
  then have "unat (encoding is) = w" by (auto simp: intset_rep_def enc_ok_def)
  with rep show ?thesis
    using intset_rep_abs [OF rep] intset_rep_unat_len [OF rep]
    by (auto simp: intset_rep_def intset_inv_def)
qed

subsection \<open>Search\<close>

lemma intset_mid:
  assumes "0 \<le> lo" and "lo \<le> hi" and "hi < 2 ^ 31"
  shows "uint (drop_bit (Suc 0) (word_of_int lo + word_of_int hi :: 32 word)) = (lo + hi) div 2"
proof -
  have "uint (word_of_int lo + word_of_int hi :: 32 word) = lo + hi"
    using assms by (simp add: uint_word_ariths take_bit_int_eq_self uint_word_of_int_small)
  moreover have "drop_bit (Suc 0) (word_of_int lo + word_of_int hi :: 32 word)
      = (word_of_int lo + word_of_int hi) div 2"
    by (simp add: drop_bit_eq_div)
  ultimately show ?thesis by (simp only: uint_div uint_numeral) simp
qed

lemma sorted_wrt_less_nth: "sorted_wrt (<) (xs :: int list) \<Longrightarrow> i < j \<Longrightarrow> j < length xs \<Longrightarrow> xs ! i < xs ! j"
  by (rule sorted_wrt_nth_less)

definition search_post :: "int list \<Rightarrow> 64 word \<Rightarrow> int \<times> int \<times> 64 word \<Rightarrow> bool" where
  "search_post xs v = (\<lambda>(lo, mid, cur).
     if cur = v then 0 \<le> mid \<and> mid < int (length xs) \<and> xs ! nat mid = sint v
     else 0 \<le> lo \<and> lo \<le> int (length xs) \<and> (\<forall>i < nat lo. xs ! i < sint v) \<and>
          (\<forall>i < length xs. nat lo \<le> i \<longrightarrow> sint v < xs ! i))"

lemma intsetSearch_loop_correct:
  assumes rep: "intset_rep is w xs"
    and "0 \<le> lo" and "hi < int (length xs)" and "lo \<le> hi + 1"
    and "\<forall>i < nat lo. xs ! i < sint v"
    and "\<forall>i < length xs. hi < int i \<longrightarrow> sint v < xs ! i"
    and "hi < lo \<longrightarrow> cur \<noteq> v"
  shows "\<exists>r. intsetSearch_loop is v lo hi mid cur = Some r \<and> search_post xs v r"
  using assms(2-)
proof (induction "nat (hi - lo + 1)" arbitrary: lo hi mid cur rule: less_induct)
  case less
  show ?case
  proof (cases "lo \<le> hi")
    case False
    then show ?thesis using less.prems
      by (subst intsetSearch_loop.simps) (auto simp: search_post_def)
  next
    case True
    let ?m = "(lo + hi) div 2"
    have len: "length xs < 2 ^ 31" using rep by (rule intset_rep_len)
    have mid: "uint (drop_bit (Suc 0) (word_of_int lo + word_of_int hi :: 32 word)) = ?m"
      using True less.prems(1,2) len by (intro intset_mid) auto
    have m: "lo \<le> ?m" "?m \<le> hi" "0 \<le> ?m" "nat ?m < length xs" "int (nat ?m) = ?m"
      using True less.prems(1,2) by auto
    let ?c = "word_of_int (xs ! nat ?m) :: 64 word"
    have get: "priv_intsetGet is ?m = Some ?c"
      using intset_rep_get [OF rep m(4)] m(5) by simp
    have c: "sint ?c = xs ! nat ?m" using intset_rep_sint [OF rep m(4)] .
    have srt: "sorted_wrt (<) xs" using rep by (simp add: intset_rep_def)
    consider (gt) "sint v > sint ?c" | (lt) "sint v < sint ?c" | (eq) "v = ?c"
      by (metis linorder_neqE_linordered_idom sint_eq_iff)
    then show ?thesis
    proof cases
      case gt
      have "\<forall>i < nat (?m + 1). xs ! i < sint v"
      proof (intro allI impI)
        fix i assume "i < nat (?m + 1)"
        then have "i = nat ?m \<or> i < nat ?m" using m by linarith
        then show "xs ! i < sint v"
          using gt c m(4) sorted_wrt_less_nth [OF srt, of i "nat ?m"] by auto
      qed
      moreover have "?c \<noteq> v" using gt by auto
      ultimately have "\<exists>r. intsetSearch_loop is v (?m + 1) hi ?m ?c = Some r \<and> search_post xs v r"
        using less.prems m True by (intro less.hyps) auto
      then show ?thesis using gt True
        by (subst intsetSearch_loop.simps) (simp add: Let_def mid get)
    next
      case lt
      have "\<forall>i < length xs. ?m - 1 < int i \<longrightarrow> sint v < xs ! i"
      proof (intro allI impI)
        fix i assume "i < length xs" and "?m - 1 < int i"
        then have "i = nat ?m \<or> nat ?m < i" by linarith
        then show "sint v < xs ! i"
          using lt c \<open>i < length xs\<close> sorted_wrt_less_nth [OF srt, of "nat ?m" i] by auto
      qed
      moreover have "?c \<noteq> v" using lt by auto
      ultimately have "\<exists>r. intsetSearch_loop is v lo (?m - 1) ?m ?c = Some r \<and> search_post xs v r"
        using less.prems m True by (intro less.hyps) auto
      then show ?thesis using lt True
        by (subst intsetSearch_loop.simps) (simp add: Let_def mid get)
    next
      case eq
      then show ?thesis using m c True
        by (subst intsetSearch_loop.simps) (auto simp: Let_def mid get search_post_def)
    qed
  qed
qed


lemma strict_sorted_last:
  assumes "sorted_wrt (<) (xs :: int list)" and "y \<in> set xs"
  shows "y \<le> xs ! (length xs - 1)"
proof -
  obtain i where i: "i < length xs" "y = xs ! i" using assms(2) by (auto simp: in_set_conv_nth)
  show ?thesis
  proof (cases "i = length xs - 1")
    case False
    then have "xs ! i < xs ! (length xs - 1)" using i by (intro sorted_wrt_less_nth [OF assms(1)]) auto
    with i show ?thesis by simp
  qed (use i in simp)
qed

lemma strict_sorted_first:
  assumes "sorted_wrt (<) (xs :: int list)" and "y \<in> set xs"
  shows "xs ! 0 \<le> y"
  using assms by (cases xs) auto

definition insert_pos :: "int list \<Rightarrow> int \<Rightarrow> bool \<Rightarrow> nat \<Rightarrow> bool" where
  "insert_pos xs x found pos \<longleftrightarrow>
     (if found then pos < length xs \<and> xs ! pos = x
      else pos \<le> length xs \<and> (\<forall>y \<in> set (take pos xs). y < x) \<and> (\<forall>y \<in> set (drop pos xs). x < y))"

lemma search_post_insert_pos:
  assumes "search_post xs v (lo, mid, cur)"
  shows "insert_pos xs (sint v) (cur = v) (nat (if cur = v then mid else lo))"
  using assms
  by (cases "cur = v") (auto simp: search_post_def insert_pos_def set_take_nth set_drop_nth)

lemma intsetSearch_correct:
  assumes rep: "intset_rep is w xs"
  shows "\<exists>found pos. intsetSearch is v = Some (found, of_nat pos) \<and> insert_pos xs (sint v) found pos"
proof (cases "xs = []")
  case True
  then show ?thesis using rep
    by (intro exI [of _ False] exI [of _ 0])
      (simp add: intset_rep_def intsetSearch_def insert_pos_def)
next
  case False
  have len: "length xs < 2 ^ 31" by (rule intset_rep_len [OF rep])
  have len1: "is_length is - 1 = of_nat (length xs - 1)"
    using False rep by (simp add: intset_rep_def of_nat_diff Suc_leI)
  have ne: "is_length is \<noteq> 0"
    using intset_rep_unat_len [OF rep] False by auto
  have mx: "sint (is_length is - 1) = int (length xs - 1)"
    unfolding len1 by (rule sint_word_of_nat) (use len in simp)
  have srt: "sorted_wrt (<) xs" using rep by (simp add: intset_rep_def)
  have last: "priv_intsetGet is (int (length xs - 1)) = Some (word_of_int (xs ! (length xs - 1)))"
    and first: "priv_intsetGet is 0 = Some (word_of_int (xs ! 0))"
    using intset_rep_get [OF rep, of "length xs - 1"] intset_rep_get [OF rep, of 0] False by auto
  have sl: "sint (word_of_int (xs ! (length xs - 1)) :: 64 word) = xs ! (length xs - 1)"
    and sf: "sint (word_of_int (xs ! 0) :: 64 word) = xs ! 0"
    using intset_rep_sint [OF rep] False by auto
  consider (gt) "sint v > xs ! (length xs - 1)"
    | (lt) "\<not> sint v > xs ! (length xs - 1)" "sint v < xs ! 0"
    | (in_range) "\<not> sint v > xs ! (length xs - 1)" "\<not> sint v < xs ! 0" by blast
  then show ?thesis
  proof cases
    case gt
    have "\<forall>y \<in> set xs. y \<le> xs ! (length xs - 1)"
      using strict_sorted_last [OF srt] by blast
    then show ?thesis using gt ne mx last sl rep
      by (intro exI [of _ False] exI [of _ "length xs"])
        (auto simp: intsetSearch_def insert_pos_def intset_rep_def)
  next
    case lt
    have "\<forall>y \<in> set xs. xs ! 0 \<le> y"
      using strict_sorted_first [OF srt] by blast
    then show ?thesis using lt ne mx last first sl sf
      by (intro exI [of _ False] exI [of _ 0])
        (auto simp: intsetSearch_def insert_pos_def)
  next
    case in_range
    obtain lo mid cur where loop:
      "intsetSearch_loop is v 0 (int (length xs - 1)) (-1) (-1) = Some (lo, mid, cur)"
      "search_post xs v (lo, mid, cur)"
      using intsetSearch_loop_correct [OF rep, of 0 "int (length xs - 1)" v "-1" "-1"] False by auto
    have "0 \<le> (if cur = v then mid else lo)"
      using loop(2) by (auto simp: search_post_def)
    then have "(if v = cur then (True, word_of_int mid) else (False, word_of_int lo))
        = (cur = v, of_nat (nat (if cur = v then mid else lo)) :: 32 word)"
      by (cases "cur = v") (auto simp flip: word_of_int_nat)
    then have "intsetSearch is v = Some (cur = v, of_nat (nat (if cur = v then mid else lo)))"
      using in_range ne mx last first sl sf loop(1) by (simp add: intsetSearch_def)
    then show ?thesis using search_post_insert_pos [OF loop(2)] by blast
  qed
qed


subsection \<open>Insertion and removal at a position\<close>

lemma value_encoding_fits:
  "enc_ok w \<Longrightarrow> ucast (intsetValueEncoding v) \<le> (of_nat w :: 32 word) \<longleftrightarrow> fits w (sint v)"
proof -
  have "fits 8 (sint v)" using sint_range_size [of v] by (simp add: fits_def word_size)
  then show "enc_ok w \<Longrightarrow> ?thesis"
    by (auto simp: enc_ok_def intsetValueEncoding_def intset_enc_defs fits_def)
qed

lemma intset_move_width:
  "enc_ok w \<Longrightarrow> encoding is = of_nat w \<Longrightarrow>
   (if encoding is = ucast INTSET_ENC_INT64 then 8
    else if encoding is = ucast INTSET_ENC_INT32 then 4 else 2) = w"
  by (auto simp: enc_ok_def intset_enc_defs)

lemma intsetMoveTail_bytes:
  assumes "enc_ok w" and "encoding is = of_nat w" and "is_length is = of_nat len"
    and "from \<le> len" and "to < 2 ^ 32" and "w * len < 2 ^ 32"
    and "mem_move (w * to) (w * from) (w * (len - from)) (contents is) = Some c"
  shows "intsetMoveTail is (of_nat from) (of_nat to) = Some (is\<lparr>contents := c\<rparr>)"
proof -
  have len: "len < 2 ^ 32" using assms(1,6) by (auto simp: enc_ok_def)
  have n: "is_length is - of_nat from = of_nat (len - from)"
    using assms(3,4) by (simp add: of_nat_diff)
  have "(len - from) * w \<le> w * len" by simp
  then have "(len - from) * w < 2 ^ 32" using assms(6) by linarith
  then have b: "unat ((is_length is - of_nat from) * of_nat w :: 32 word) = w * (len - from)"
    unfolding n by (subst unat_mult_small) (auto simp: mult.commute)
  have "unat (of_nat from :: 32 word) = from" and "unat (of_nat to :: 32 word) = to"
    using len assms(4,5) by (simp_all add: unat_word_of_nat)
  then show ?thesis
    using assms(7) b by (simp add: intsetMoveTail_def intset_move_width [OF assms(1,2)])
qed

lemma intset_open_gap:
  assumes rep: "intset_rep is w xs" and pos: "pos \<le> length xs" and J: "length J = w"
    and "w * (length xs + 1) < 2 ^ 32"
    and c: "contents is' = concat (map (elem_bytes w) xs) @ J"
    and e: "encoding is' = encoding is" and l: "is_length is' = is_length is"
  shows "\<exists>gap. length gap = w \<and>
    (if of_nat pos < is_length is' then intsetMoveTail is' (of_nat pos) (of_nat pos + 1) else Some is')
    = Some (is'\<lparr>contents := concat (map (elem_bytes w) (take pos xs)) @ gap @
                              concat (map (elem_bytes w) (drop pos xs))\<rparr>)"
proof -
  let ?A = "concat (map (elem_bytes w) (take pos xs))"
  let ?B = "concat (map (elem_bytes w) (drop pos xs))"
  have AB: "concat (map (elem_bytes w) xs) = ?A @ ?B"
    by (metis append_take_drop_id concat_append map_append)
  have len: "length xs < 2 ^ 31" by (rule intset_rep_len [OF rep])
  have lt: "of_nat pos < is_length is' \<longleftrightarrow> pos < length xs"
    using pos len l rep
    by (simp add: intset_rep_def word_less_nat_alt unat_word_of_nat)
  show ?thesis
  proof (cases "pos < length xs")
    case True
    have "mem_move (w * pos + w) (w * pos) (w * (length xs - pos)) (?A @ ?B @ J)
        = Some (?A @ take w (?B @ J) @ ?B)"
      using pos J by (intro mem_move_right) simp_all
    then have "intsetMoveTail is' (of_nat pos) (of_nat (pos + 1))
        = Some (is'\<lparr>contents := ?A @ take w (?B @ J) @ ?B\<rparr>)"
      using rep pos len assms(4) c AB e l
      by (intro intsetMoveTail_bytes [where len = "length xs" and w = w])
        (auto simp: intset_rep_def algebra_simps)
    moreover have "length (take w (?B @ J)) = w" using J by simp
    ultimately show ?thesis using True lt
      by (intro exI [of _ "take w (?B @ J)"]) (simp add: add.commute)
  next
    case False
    then have "is' = is'\<lparr>contents := ?A @ J @ ?B\<rparr>" using pos c by simp
    then show ?thesis using False lt J by (intro exI [of _ J]) simp
  qed
qed

lemma sorted_insert_pos:
  assumes "sorted_wrt (<) (xs :: int list)" and "insert_pos xs x False pos"
  shows "sorted_wrt (<) (take pos xs @ x # drop pos xs)"
proof -
  have "sorted_wrt (<) (take pos xs @ drop pos xs)" using assms(1) by simp
  then show ?thesis using assms(2)
    unfolding sorted_wrt_append by (auto simp: insert_pos_def)
qed

lemma intset_rep_insert:
  assumes "intset_rep is w xs" and "insert_pos xs x False pos" and "fits w x"
    and "w * (length xs + 1) < 2 ^ 32"
    and "encoding is' = encoding is" and "is_length is' = is_length is + 1"
    and "contents is' = concat (map (elem_bytes w) (take pos xs @ x # drop pos xs))"
  shows "intset_rep is' w (take pos xs @ x # drop pos xs)"
proof -
  have "pos \<le> length xs" using assms(2) by (simp add: insert_pos_def)
  moreover have "list_all (fits w) (take pos xs)" "list_all (fits w) (drop pos xs)"
    using assms(1) by (auto simp: intset_rep_def list_all_iff dest: in_set_takeD in_set_dropD)
  ultimately show ?thesis
    using assms sorted_insert_pos [OF _ assms(2)] by (auto simp: intset_rep_def)
qed


lemma intsetResize_contents:
  assumes "encoding is = of_nat w" and "n * w < 2 ^ 32"
  shows "intsetResize junk is (of_nat n) = is\<lparr>contents := mem_resize junk (n * w) (contents is)\<rparr>"
  using assms by (simp add: intsetResize_def unat_mult_small)

lemma intsetAdd_in_place:
  assumes rep: "intset_rep is w xs" and fit: "fits w (sint v)" and ins: "insert_pos xs (sint v) False pos"
    and search: "intsetSearch is v = Some (False, of_nat pos)" and sz: "w * (length xs + 1) < 2 ^ 32"
  shows "\<exists>is'. intsetAdd junk is v = Some (is', True) \<and>
           intset_rep is' w (take pos xs @ sint v # drop pos xs)"
proof -
  define J where "J = map junk [w * length xs..<w * (length xs + 1)]"
  let ?A = "concat (map (elem_bytes w) (take pos xs))"
  let ?B = "concat (map (elem_bytes w) (drop pos xs))"
  let ?is1 = "is\<lparr>contents := concat (map (elem_bytes w) xs) @ J\<rparr>"
  have ok: "enc_ok w" and enc: "encoding is = of_nat w" and len: "is_length is = of_nat (length xs)"
    and c: "contents is = concat (map (elem_bytes w) xs)"
    using rep by (simp_all add: intset_rep_def)
  have posl: "pos \<le> length xs" using ins by (simp add: insert_pos_def)
  have valenc: "\<not> ucast (intsetValueEncoding v) > encoding is"
    using value_encoding_fits [OF ok, of v] fit enc by (simp add: not_less)
  have len1: "is_length is + 1 = of_nat (length xs + 1)" using len by simp
  have rs: "intsetResize junk is (is_length is + 1) = ?is1"
    unfolding len1 using sz enc c
    by (subst intsetResize_contents [where w = w])
      (simp_all add: J_def mem_resize_grow algebra_simps)
  obtain gap where gap: "length gap = w" and mv:
    "(if of_nat pos < is_length ?is1 then intsetMoveTail ?is1 (of_nat pos) (of_nat pos + 1) else Some ?is1)
     = Some (?is1\<lparr>contents := ?A @ gap @ ?B\<rparr>)"
    using intset_open_gap [OF rep posl _ sz, of J ?is1] by (auto simp: J_def)
  have sp: "sint (of_nat pos :: 32 word) = int pos"
    using posl intset_rep_len [OF rep] by (intro sint_word_of_nat) simp
  have st: "priv_intsetSet (?is1\<lparr>contents := ?A @ gap @ ?B\<rparr>) (int pos) v
      = Some (is\<lparr>contents := ?A @ elem_bytes w (sint v) @ ?B\<rparr>)"
    using ok enc gap posl by (subst priv_intsetSet_elem [where w = w]) simp_all
  let ?is' = "is\<lparr>contents := ?A @ elem_bytes w (sint v) @ ?B, is_length := is_length is + 1\<rparr>"
  have "intsetAdd junk is v = Some (?is', True)"
    using valenc search rs mv sp st by (simp add: intsetAdd_def split del: if_split)
  moreover have "intset_rep ?is' w (take pos xs @ sint v # drop pos xs)"
    using ins fit sz by (intro intset_rep_insert [OF rep]) simp_all
  ultimately show ?thesis by blast
qed

lemma intset_rep_delete:
  assumes rep: "intset_rep is w xs" and pos: "pos < length xs"
    and "encoding is' = encoding is" and "is_length is' = is_length is - 1"
    and "contents is' = concat (map (elem_bytes w) (take pos xs @ drop (Suc pos) xs))"
  shows "intset_rep is' w (take pos xs @ drop (Suc pos) xs)"
proof -
  have "sorted_wrt (<) (take pos xs @ xs ! pos # drop (Suc pos) xs)"
    using rep pos by (simp add: intset_rep_def flip: id_take_nth_drop)
  then have "sorted_wrt (<) (take pos xs @ drop (Suc pos) xs)"
    by (auto simp: sorted_wrt_append)
  moreover have "list_all (fits w) (take pos xs)" "list_all (fits w) (drop (Suc pos) xs)"
    using rep by (auto simp: intset_rep_def list_all_iff dest: in_set_takeD in_set_dropD)
  moreover have "is_length is - 1 = of_nat (length xs - 1)"
    using rep pos by (simp add: intset_rep_def of_nat_diff Suc_leI)
  moreover have "w * (length xs - 1) < 2 ^ 32"
    by (rule le_less_trans [OF mult_le_mono2 [OF diff_le_self]])
      (use rep in \<open>simp add: intset_rep_def\<close>)
  moreover have "length (take pos xs @ drop (Suc pos) xs) = length xs - 1" using pos by simp
  ultimately show ?thesis using assms by (auto simp: intset_rep_def)
qed

lemma intsetRemove_at:
  assumes rep: "intset_rep is w xs" and fit: "fits w (sint v)" and pos: "pos < length xs"
    and search: "intsetSearch is v = Some (True, of_nat pos)"
  shows "\<exists>is'. intsetRemove junk is v = Some (is', True) \<and>
           intset_rep is' w (take pos xs @ drop (Suc pos) xs)"
proof -
  let ?A = "concat (map (elem_bytes w) (take pos xs))"
  let ?B = "concat (map (elem_bytes w) (drop (Suc pos) xs))"
  have ok: "enc_ok w" and enc: "encoding is = of_nat w" and len: "is_length is = of_nat (length xs)"
    and sz: "w * length xs < 2 ^ 32"
    using rep by (simp_all add: intset_rep_def)
  have c: "contents is = ?A @ elem_bytes w (xs ! pos) @ ?B"
    using rep pos concat_map_insert [of "elem_bytes w" pos xs "xs ! pos" "Suc pos"]
    by (simp add: intset_rep_def flip: id_take_nth_drop)
  have l31: "length xs < 2 ^ 31" by (rule intset_rep_len [OF rep])
  have len1: "is_length is - 1 = of_nat (length xs - 1)"
    using len pos by (simp add: of_nat_diff Suc_leI)
  have u: "unat (of_nat n :: 32 word) = n" if "n < 2 ^ 31" for n
    using that by (intro unat_word_of_nat) simp
  have ul: "unat (of_nat (length xs - 1) :: 32 word) = length xs - 1" "unat (of_nat pos :: 32 word) = pos"
    using pos l31 by (intro u; linarith)+
  have lt: "of_nat pos < is_length is - 1 \<longleftrightarrow> pos < length xs - 1"
    unfolding len1 word_less_nat_alt ul ..
  have vle: "ucast (intsetValueEncoding v) \<le> encoding is"
    using value_encoding_fits [OF ok] fit enc by auto
  have mv: "\<exists>tail. (if of_nat pos < is_length is - 1 then intsetMoveTail is (of_nat pos + 1) (of_nat pos)
      else Some is) = Some (is\<lparr>contents := ?A @ ?B @ tail\<rparr>)"
  proof (cases "pos < length xs - 1")
    case True
    have "mem_move (w * pos) (w * pos + w) (w * (length xs - Suc pos)) (contents is)
        = Some (?A @ ?B @ drop (w * (length xs - Suc pos)) (elem_bytes w (xs ! pos) @ ?B))"
      unfolding c using pos by (intro mem_move_left) simp_all
    then have "intsetMoveTail is (of_nat (Suc pos)) (of_nat pos) = Some (is\<lparr>contents :=
        ?A @ ?B @ drop (w * (length xs - Suc pos)) (elem_bytes w (xs ! pos) @ ?B)\<rparr>)"
      using ok enc len pos sz l31
      by (intro intsetMoveTail_bytes [where len = "length xs" and w = w]) (auto simp: algebra_simps)
    then show ?thesis using True lt by (auto simp: add.commute)
  next
    case False
    then have "pos = length xs - 1" using pos by simp
    then have "is = is\<lparr>contents := ?A @ ?B @ elem_bytes w (xs ! pos)\<rparr>" using c pos by simp
    then show ?thesis using False lt by auto
  qed
  then obtain tail where tail:
    "(if of_nat pos < is_length is - 1 then intsetMoveTail is (of_nat pos + 1) (of_nat pos) else Some is)
     = Some (is\<lparr>contents := ?A @ ?B @ tail\<rparr>)" by blast
  let ?is2 = "is\<lparr>contents := ?A @ ?B @ tail\<rparr>"
  have szn: "(length xs - 1) * w < 2 ^ 32"
    using sz by (metis diff_le_self le_less_trans mult.commute mult_le_mono1)
  have AB: "length (?A @ ?B) = (length xs - 1) * w" proof -
    obtain k where "length xs = Suc (pos + k)" using pos by (metis less_iff_Suc_add)
    then show ?thesis by (simp add: algebra_simps)
  qed
  have rs: "intsetResize junk ?is2 (is_length is - 1) = is\<lparr>contents := ?A @ ?B\<rparr>"
    unfolding len1 using enc mem_resize_prefix [OF AB, of junk tail]
    by (subst intsetResize_contents [where w = w, OF _ szn]) simp_all
  let ?is' = "is\<lparr>contents := ?A @ ?B, is_length := is_length is - 1\<rparr>"
  have "intsetRemove junk is v = Some (?is', True)"
    using vle search tail rs by (simp add: intsetRemove_def)
  moreover have "intset_rep ?is' w (take pos xs @ drop (Suc pos) xs)"
    using pos by (intro intset_rep_delete [OF rep]) simp_all
  ultimately show ?thesis by blast
qed


subsection \<open>Upgrade to a wider encoding\<close>

text \<open>
  The loop walks from the last element to the first.  Before the step for element \<open>n - 1\<close>
  the buffer holds the first \<open>n\<close> elements in the old width, then a gap, then the other
  elements in the new width, shifted by \<open>prepend\<close>.
\<close>

lemma intsetUpgrade_loop_correct:
  assumes ok: "enc_ok w" "enc_ok w'" "w < w'" and fit: "list_all (fits w) xs"
    and n: "n \<le> length xs"
    and enc: "encoding is = of_nat w'"
    and c: "contents is = concat (map (elem_bytes w) (take n xs)) @ gap @
                          concat (map (elem_bytes w') (drop n xs)) @ post"
    and g: "w * n + length gap = w' * (n + prepend)"
  shows "\<exists>gap'. length gap' = w' * prepend \<and>
           intsetUpgrade_loop (of_nat w) (int prepend) n is
           = Some (is\<lparr>contents := gap' @ concat (map (elem_bytes w') xs) @ post\<rparr>)"
  using n enc c g
proof (induction n arbitrary: "is" gap)
  case 0
  then show ?case by (intro exI [of _ gap]) simp
next
  case (Suc n)
  have nl: "n < length xs" using Suc.prems(1) by simp
  have tk: "take (Suc n) xs = take n xs @ [xs ! n]" using nl by (rule take_Suc_conv_app_nth)
  have dr: "drop n xs = xs ! n # drop (Suc n) xs" using nl by (simp add: Cons_nth_drop_Suc)
  have get: "intsetGetEncoded is (int n) (of_nat w) = Some (word_of_int (xs ! n))"
    using intsetGetEncoded_elem [OF ok(1), of n "take (Suc n) xs" "is"] Suc.prems(3) nl fit
    by (simp add: list_all_length)
  have x: "sint (word_of_int (xs ! n) :: 64 word) = xs ! n"
    using fit nl by (intro fits_sint [OF ok(1)]) (simp add: list_all_length)
  define old where "old = elem_bytes w (xs ! n) @ gap"
  have "w * n \<le> w' * (n + prepend)"
    using ok(3) by (intro mult_le_mono) simp_all
  then have lo: "w * n + length old = w' * (n + prepend) + w'" "w' \<le> length old"
    using Suc.prems(4) by (simp_all add: old_def algebra_simps)
  define gap1 where "gap1 = take (length old - w') old"
  define mid where "mid = drop (length old - w') old"
  have l: "length mid = w'" "w * n + length gap1 = w' * (n + prepend)" "old = gap1 @ mid"
    using lo by (simp_all add: mid_def gap1_def)
  define is1 where "is1 = is\<lparr>contents := (concat (map (elem_bytes w) (take n xs)) @ gap1) @
      elem_bytes w' (xs ! n) @ (concat (map (elem_bytes w') (drop (Suc n) xs)) @ post)\<rparr>"
  have "contents is = (concat (map (elem_bytes w) (take n xs)) @ gap1) @ mid @
      (concat (map (elem_bytes w') (drop (Suc n) xs)) @ post)"
    using Suc.prems(3) tk l(3) by (simp add: old_def)
  note set_elem = priv_intsetSet_elem [OF ok(2) Suc.prems(2) this _ l(1), of "n + prepend"]
  have st: "priv_intsetSet is (int (n + prepend)) (word_of_int (xs ! n)) = Some is1"
    unfolding is1_def by (subst set_elem) (use l(2) nl x in \<open>simp_all add: min_def\<close>)
  have "\<exists>gap'. length gap' = w' * prepend \<and>
      intsetUpgrade_loop (of_nat w) (int prepend) n is1
      = Some (is1\<lparr>contents := gap' @ concat (map (elem_bytes w') xs) @ post\<rparr>)"
    using nl Suc.prems(2) l(2) dr by (intro Suc.IH [of is1 gap1]) (simp_all add: is1_def)
  then show ?case using get st by (auto simp: is1_def)
qed


lemma fits_mono: "enc_ok w \<Longrightarrow> enc_ok w' \<Longrightarrow> w \<le> w' \<Longrightarrow> fits w x \<Longrightarrow> fits w' x"
  by (auto simp: enc_ok_def fits_def)

lemma value_encoding_wider:
  assumes "enc_ok w" and "\<not> fits w (sint v)"
  shows "enc_ok (unat (intsetValueEncoding v))" "w < unat (intsetValueEncoding v)"
    "fits (unat (intsetValueEncoding v)) (sint v)"
proof -
  have 8: "fits 8 (sint v)" using sint_range_size [of v] by (simp add: fits_def word_size)
  show "enc_ok (unat (intsetValueEncoding v))"
    by (simp add: enc_ok_def intsetValueEncoding_def intset_enc_defs)
  show "w < unat (intsetValueEncoding v)"
    using assms 8 by (auto simp: enc_ok_def intsetValueEncoding_def intset_enc_defs fits_def)
  show "fits (unat (intsetValueEncoding v)) (sint v)"
    using 8 by (auto simp: intsetValueEncoding_def intset_enc_defs fits_def)
qed

lemma upgrade_position:
  assumes "intset_rep is w xs" and "\<not> fits w (sint v)"
  shows "insert_pos xs (sint v) False (if sint v < 0 then 0 else length xs)"
  using assms by (auto simp: intset_rep_def insert_pos_def list_all_iff fits_def)

lemma intset_rep_widen:
  assumes rep: "intset_rep is w xs" and ok: "enc_ok w'" "w \<le> w'" and sz: "w' * length xs < 2 ^ 32"
  shows "intset_rep (is\<lparr>encoding := of_nat w', contents := concat (map (elem_bytes w') xs)\<rparr>) w' xs"
  using rep ok sz fits_mono [of w w'] by (auto simp: intset_rep_def list_all_iff)

lemma intsetUpgradeAndAdd_correct:
  assumes rep: "intset_rep is w xs" and nofit: "\<not> fits w (sint v)"
    and w': "w' = unat (intsetValueEncoding v)" and sz: "w' * (length xs + 1) < 2 ^ 32"
    and pos: "pos = (if sint v < 0 then 0 else length xs)"
  shows "\<exists>is'. intsetUpgradeAndAdd junk is v = Some is' \<and>
           intset_rep is' w' (take pos xs @ sint v # drop pos xs)"
proof -
  have okw: "enc_ok w" and enc: "encoding is = of_nat w" and len: "is_length is = of_nat (length xs)"
    and c: "contents is = concat (map (elem_bytes w) xs)" and fit: "list_all (fits w) xs"
    using rep by (simp_all add: intset_rep_def)
  note wide = value_encoding_wider [OF okw nofit, folded w']
  define prepend :: nat where "prepend = (if sint v < 0 then 1 else 0)"
  define J where "J = map junk [w * length xs..<w' * (length xs + 1)]"
  define gap where "gap = take (w' * (length xs + prepend) - w * length xs) J"
  define post where "post = drop (w' * (length xs + prepend) - w * length xs) J"
  have le: "w * length xs \<le> w' * length xs" using wide(2) by simp
  have le': "w * length xs \<le> w' * (length xs + 1)" using wide(2) by (intro mult_le_mono) simp_all
  then have lJ: "w * length xs + length J = w' * (length xs + 1)"
    by (simp only: J_def length_map length_upt le_add_diff_inverse)
  have lens: "w * length xs + length gap = w' * (length xs + prepend)" "length post = w' * (1 - prepend)"
    "J = gap @ post"
    using lJ le by (auto simp: gap_def post_def prepend_def)
  let ?C = "concat (map (elem_bytes w') xs)"
  define is1 where "is1 = is\<lparr>encoding := of_nat w', contents := concat (map (elem_bytes w) xs) @ J\<rparr>"
  have u: "ucast (intsetValueEncoding v) = (of_nat w' :: 32 word)" by (simp add: w')
  have len1: "is_length is + 1 = of_nat (length xs + 1)" using len by simp
  have rs: "intsetResize junk (is\<lparr>encoding := of_nat w'\<rparr>) (is_length is + 1) = is1"
    unfolding len1 is1_def J_def
    using sz c le' mem_resize_grow [of "concat (map (elem_bytes w) xs)" "w' * (length xs + 1)" junk]
    by (subst intsetResize_contents [where w = w']) (simp_all add: mult.commute)
  have ce: "ucast (encoding is) = (of_nat w :: 8 word)" using okw enc by (auto simp: enc_ok_def)
  obtain gap' where gap': "length gap' = w' * prepend" and loop:
    "intsetUpgrade_loop (of_nat w) (int prepend) (length xs) is1 = Some (is1\<lparr>contents := gap' @ ?C @ post\<rparr>)"
    using intsetUpgrade_loop_correct [OF okw wide(1,2) fit, of "length xs" is1 gap post prepend] lens
    by (auto simp: is1_def)
  let ?is2 = "is1\<lparr>contents := gap' @ ?C @ post\<rparr>"
  let ?X = "concat (map (elem_bytes w') (take pos xs @ sint v # drop pos xs))"
  have sl: "sint (is_length is) = int (length xs)"
    unfolding len using intset_rep_len [OF rep] by (intro sint_word_of_nat) simp
  have st: "(if prepend \<noteq> 0 then priv_intsetSet ?is2 0 v else priv_intsetSet ?is2 (sint (is_length ?is2)) v)
      = Some (is1\<lparr>contents := ?X\<rparr>)"
  proof (cases "sint v < 0")
    case True
    then show ?thesis
      using priv_intsetSet_elem [OF wide(1), of ?is2 "[]" gap' "?C @ post" 0 v] gap' lens(2) pos
      by (simp add: prepend_def is1_def)
  next
    case False
    then show ?thesis
      using priv_intsetSet_elem [OF wide(1), of ?is2 ?C post "[]" "length xs" v] gap' lens(2) pos sl
      by (simp add: prepend_def is1_def)
  qed
  let ?is' = "is1\<lparr>contents := ?X, is_length := is_length is + 1\<rparr>"
  have "intsetUpgradeAndAdd junk is v = Some ?is'"
    by (cases "sint v < 0")
      (use u rs loop st ce len intset_rep_unat_len [OF rep] in
        \<open>simp_all add: intsetUpgradeAndAdd_def is1_def prepend_def\<close>)
  moreover have "w' * length xs < 2 ^ 32" using sz by simp
  then have "intset_rep ?is' w' (take pos xs @ sint v # drop pos xs)"
    using upgrade_position [OF rep nofit] wide sz pos
    by (intro intset_rep_insert [OF intset_rep_widen [OF rep wide(1)]]) (auto simp: is1_def)
  ultimately show ?thesis by blast
qed


subsection \<open>Correctness of the operations\<close>

lemma strict_sorted_unique: "sorted_wrt (<) (xs :: int list) \<Longrightarrow> xs = sorted_list_of_set (set xs)"
  by (simp add: sorted_list_of_set.idem_if_sorted_distinct strict_sorted_iff)

lemma set_take_insert_drop: "set (take i xs @ x # drop i xs) = insert x (set xs)"
  by (metis Un_insert_right append_take_drop_id list.simps(15) set_append)

lemma set_delete_nth: "distinct xs \<Longrightarrow> i < length xs \<Longrightarrow> set (take i xs @ drop (Suc i) xs) = set xs - {xs ! i}"
  by (metis List.set_remove1_eq list.sel(3) nth_mem remove1_append id_take_nth_drop
      distinct_append not_distinct_conv_prefix remove1.simps(2))

lemma intset_rep_strict: "intset_rep is w xs \<Longrightarrow> xs = sorted_list_of_set (set xs)"
  by (auto simp: intset_rep_def intro: strict_sorted_unique)

lemma insert_pos_not_in: "insert_pos xs x False pos \<Longrightarrow> x \<notin> set xs"
  by (metis Un_iff append_take_drop_id insert_pos_def less_irrefl set_append)

lemma insert_pos_in: "insert_pos xs x True pos \<Longrightarrow> x \<in> set xs"
  by (auto simp: insert_pos_def)

definition intset_room :: "intset \<Rightarrow> bool" where
  "intset_room is \<longleftrightarrow> unat (is_length is) < 2 ^ 29 - 1"

lemma intsetAdd_rep:
  assumes rep: "intset_rep is w xs" and room: "length xs + 1 < 2 ^ 29"
  shows "\<exists>is' w' ys. intsetAdd junk is v = Some (is', sint v \<notin> set xs) \<and> intset_rep is' w' ys \<and>
           w \<le> w' \<and> set ys = insert (sint v) (set xs)"
proof (cases "fits w (sint v)")
  case True
  have ok: "enc_ok w" and enc: "encoding is = of_nat w" using rep by (simp_all add: intset_rep_def)
  have sz: "w * (length xs + 1) < 2 ^ 32" using ok room by (auto simp: enc_ok_def)
  obtain found pos where s: "intsetSearch is v = Some (found, of_nat pos)" "insert_pos xs (sint v) found pos"
    using intsetSearch_correct [OF rep] by blast
  show ?thesis
  proof (cases found)
    case f: True
    have "\<not> ucast (intsetValueEncoding v) > encoding is"
      using value_encoding_fits [OF ok, of v] True enc by (simp add: not_less)
    then show ?thesis using f s rep insert_pos_in [of xs "sint v" pos]
      by (auto simp: intsetAdd_def insert_absorb)
  next
    case False
    then show ?thesis
      using intsetAdd_in_place [OF rep True _ _ sz, of pos junk] s insert_pos_not_in [of xs "sint v" pos]
        set_take_insert_drop [of pos xs "sint v"] by fastforce
  qed
next
  case False
  have ok: "enc_ok w" and enc: "encoding is = of_nat w" using rep by (simp_all add: intset_rep_def)
  let ?w' = "unat (intsetValueEncoding v)"
  note wide = value_encoding_wider [OF ok False]
  have sz: "?w' * (length xs + 1) < 2 ^ 32" using wide(1) room by (auto simp: enc_ok_def)
  have gt: "ucast (intsetValueEncoding v) > encoding is"
    using value_encoding_fits [OF ok, of v] False enc by (simp add: not_le)
  define pos where "pos = (if sint v < 0 then 0 else length xs)"
  obtain is' where add: "intsetUpgradeAndAdd junk is v = Some is'"
    and rep': "intset_rep is' ?w' (take pos xs @ sint v # drop pos xs)"
    using intsetUpgradeAndAdd_correct [OF rep False refl sz pos_def] by blast
  have "intsetAdd junk is v = Some (is', sint v \<notin> set xs)"
    using gt add insert_pos_not_in [OF upgrade_position [OF rep False]] by (simp add: intsetAdd_def)
  then show ?thesis using rep' wide(2) set_take_insert_drop [of pos xs "sint v"]
    by (metis less_imp_le_nat)
qed

lemma intsetRemove_rep:
  assumes rep: "intset_rep is w xs"
  shows "\<exists>is' ys. intsetRemove junk is v = Some (is', sint v \<in> set xs) \<and> intset_rep is' w ys \<and>
           set ys = set xs - {sint v}"
proof (cases "fits w (sint v)")
  case True
  obtain found pos where s: "intsetSearch is v = Some (found, of_nat pos)" "insert_pos xs (sint v) found pos"
    using intsetSearch_correct [OF rep] by blast
  show ?thesis
  proof (cases found)
    case f: True
    then have pos: "pos < length xs" "xs ! pos = sint v" using s(2) by (simp_all add: insert_pos_def)
    have "distinct xs" using rep by (simp add: intset_rep_def strict_sorted_iff)
    then show ?thesis
      using intsetRemove_at [OF rep True pos(1)] s f set_delete_nth [of xs pos] pos
        insert_pos_in [of xs "sint v" pos] by fastforce
  next
    case False
    then show ?thesis using s rep insert_pos_not_in [of xs "sint v" pos] by (auto simp: intsetRemove_def)
  qed
next
  case False
  have ok: "enc_ok w" and enc: "encoding is = of_nat w" and "list_all (fits w) xs"
    using rep by (simp_all add: intset_rep_def)
  then have "sint v \<notin> set xs" using False by (auto simp: list_all_iff)
  then show ?thesis using value_encoding_fits [OF ok, of v] False enc rep
    by (auto simp: intsetRemove_def)
qed

lemma intsetFind_rep:
  assumes rep: "intset_rep is w xs"
  shows "intsetFind is v = Some (sint v \<in> set xs)"
proof (cases "fits w (sint v)")
  case True
  obtain found pos where s: "intsetSearch is v = Some (found, of_nat pos)" "insert_pos xs (sint v) found pos"
    using intsetSearch_correct [OF rep] by blast
  then have "found \<longleftrightarrow> sint v \<in> set xs"
    by (cases found) (auto dest: insert_pos_in insert_pos_not_in)
  then show ?thesis
    using s value_encoding_fits [of w v] True rep by (auto simp: intsetFind_def intset_rep_def)
next
  case False
  then show ?thesis
    using value_encoding_fits [of w v] rep by (auto simp: intsetFind_def intset_rep_def list_all_iff)
qed


lemma intset_abs_sorted: "intset_inv is \<Longrightarrow> intset_abs is = sorted_list_of_set (set (intset_abs is))"
  by (simp add: intset_inv_def flip: strict_sorted_unique)

lemma intsetAdd_spec:
  assumes "intset_inv is" and "intset_room is"
  shows "\<exists>is'. intsetAdd junk is v = Some (is', sint v \<notin> set (intset_abs is)) \<and> intset_inv is' \<and>
           encoding is \<le> encoding is' \<and>
           set (intset_abs is') = insert (sint v) (set (intset_abs is))"
proof -
  have "length (intset_abs is) + 1 < 2 ^ 29" using assms(2) by (simp add: intset_room_def intset_abs_def)
  then obtain is' w' ys where *: "intsetAdd junk is v = Some (is', sint v \<notin> set (intset_abs is))"
    "intset_rep is' w' ys" "unat (encoding is) \<le> w'" "set ys = insert (sint v) (set (intset_abs is))"
    using intsetAdd_rep [OF intset_inv_rep [OF assms(1)]] by blast
  have "unat (encoding is') = w'" using *(2) by (auto simp: intset_rep_def enc_ok_def)
  then have "encoding is \<le> encoding is'" using *(3) by (simp add: word_le_nat_alt)
  then show ?thesis using * intset_rep_inv [OF *(2)] intset_rep_abs [OF *(2)] by auto
qed

lemma intsetRemove_spec:
  assumes "intset_inv is"
  shows "\<exists>is'. intsetRemove junk is v = Some (is', sint v \<in> set (intset_abs is)) \<and> intset_inv is' \<and>
           encoding is' = encoding is \<and> set (intset_abs is') = set (intset_abs is) - {sint v}"
proof -
  obtain is' ys where *: "intsetRemove junk is v = Some (is', sint v \<in> set (intset_abs is))"
    "intset_rep is' (unat (encoding is)) ys" "set ys = set (intset_abs is) - {sint v}"
    using intsetRemove_rep [OF intset_inv_rep [OF assms]] by blast
  have "encoding is' = encoding is" using *(2) by (simp add: intset_rep_def)
  then show ?thesis using * intset_rep_inv [OF *(2)] intset_rep_abs [OF *(2)] by auto
qed

text \<open>
  C7. Adding a value to a well-formed intset that has room returns a well-formed intset with
  the sorted elements of the old set and the value, and reports success exactly when the
  value is new; the encoding never shrinks.  The statement includes that no access leaves
  the allocation, whatever bytes \<open>realloc\<close> returns, and covers the in-place and the upgrade
  path.
\<close>
theorem intsetAdd_correct:
  assumes "intset_inv is" and "intset_room is"
  shows "\<exists>is'. intsetAdd junk is v = Some (is', sint v \<notin> set (intset_abs is)) \<and> intset_inv is' \<and>
           encoding is \<le> encoding is' \<and>
           intset_abs is' = sorted_list_of_set (insert (sint v) (set (intset_abs is)))"
proof -
  obtain is' where *: "intsetAdd junk is v = Some (is', sint v \<notin> set (intset_abs is))"
    "intset_inv is'" "encoding is \<le> encoding is'"
    and elems: "set (intset_abs is') = insert (sint v) (set (intset_abs is))"
    using intsetAdd_spec [OF assms] by blast
  show ?thesis using * intset_abs_sorted [OF *(2), unfolded elems] by blast
qed

definition intset_13 :: intset where
  "intset_13 = \<lparr>encoding = 2, is_length = 2, contents = [1, 0, 3, 0]\<rparr>"

lemma intset_13_abs: "intset_abs intset_13 = [1, 3]"
  by code_simp

lemma intset_13_inv: "intset_inv intset_13"
proof -
  have "elem_bytes 2 1 = [1, 0]" and "elem_bytes 2 3 = [3, 0]" by code_simp+
  then show ?thesis
    unfolding intset_inv_def intset_13_abs by (simp add: enc_ok_def fits_def intset_13_def)
qed

lemma intset_13_room: "intset_room intset_13"
  by (simp add: intset_room_def intset_13_def)

theorem intsetAdd_correct_witness:
  "intset_inv intset_13 \<and> intset_room intset_13 \<and>
   (\<exists>is'. intsetAdd (\<lambda>_. 7) intset_13 70000 = Some (is', True) \<and> intset_abs is' = [1, 3, 70000])"
  using intset_13_inv intset_13_room intset_13_abs
    intsetAdd_correct [OF intset_13_inv intset_13_room, of "\<lambda>_. 7" 70000] by auto

text \<open>
  C25. Removing a value from a well-formed intset returns a well-formed intset of the same
  encoding with exactly the other elements, and reports whether the value was there.
\<close>
theorem intsetRemove_correct:
  assumes "intset_inv is"
  shows "\<exists>is'. intsetRemove junk is v = Some (is', sint v \<in> set (intset_abs is)) \<and> intset_inv is' \<and>
           encoding is' = encoding is \<and>
           intset_abs is' = sorted_list_of_set (set (intset_abs is) - {sint v})"
proof -
  obtain is' where *: "intsetRemove junk is v = Some (is', sint v \<in> set (intset_abs is))"
    "intset_inv is'" "encoding is' = encoding is"
    and elems: "set (intset_abs is') = set (intset_abs is) - {sint v}"
    using intsetRemove_spec [OF assms] by blast
  show ?thesis using * intset_abs_sorted [OF *(2), unfolded elems] by blast
qed

theorem intsetRemove_correct_witness:
  "intset_inv intset_13 \<and>
   (\<exists>is'. intsetRemove (\<lambda>_. 7) intset_13 1 = Some (is', True) \<and> intset_abs is' = [3])"
  using intset_13_inv intset_13_abs intsetRemove_correct [OF intset_13_inv, of "\<lambda>_. 7" 1] by auto

lemma intset_abs_word:
  assumes "intset_inv is" and "x \<in> set (intset_abs is)"
  shows "sint (word_of_int x :: 64 word) = x"
proof (rule fits_sint)
  show "enc_ok (unat (encoding is))" using assms(1) by (simp only: intset_inv_def)
  show "fits (unat (encoding is)) x" using assms by (simp only: intset_inv_def list_all_iff)
qed

lemma intset_set_image:
  assumes "intset_inv is"
  shows "{v. sint (v :: 64 word) \<in> set (intset_abs is)} = word_of_int ` set (intset_abs is)"
proof (intro set_eqI iffI)
  fix v :: "64 word" assume "v \<in> {v. sint v \<in> set (intset_abs is)}"
  then have "word_of_int (sint v) \<in> (word_of_int ` set (intset_abs is) :: 64 word set)" by blast
  then show "v \<in> word_of_int ` set (intset_abs is)" by simp
next
  fix v :: "64 word" assume "v \<in> word_of_int ` set (intset_abs is)"
  then show "v \<in> {v. sint v \<in> set (intset_abs is)}" using intset_abs_word [OF assms] by auto
qed

lemma intset_set_card:
  assumes "intset_inv is"
  shows "card {v. sint (v :: 64 word) \<in> set (intset_abs is)} = unat (is_length is)"
proof -
  have "inj_on (word_of_int :: int \<Rightarrow> 64 word) (set (intset_abs is))"
    using intset_abs_word [OF assms] by (metis inj_onI)
  then have "card {v. sint (v :: 64 word) \<in> set (intset_abs is)} = card (set (intset_abs is))"
    by (simp only: intset_set_image [OF assms] card_image)
  also have "sorted_wrt (<) (intset_abs is)" using assms by (simp only: intset_inv_def)
  then have "card (set (intset_abs is)) = length (intset_abs is)"
    by (simp add: distinct_card strict_sorted_iff)
  finally show ?thesis by (simp add: intset_abs_def)
qed

interpretation intset_store: set_store intset_inv "\<lambda>is. {v. sint (v :: 64 word) \<in> set (intset_abs is)}"
  "2 ^ 29 - 1" "\<lambda>_. True" "intsetAdd junk" "intsetRemove junk" intsetFind for junk
proof (unfold_locales, goal_cases)
  case (1 s)
  then show ?case by (simp only: intset_set_image) simp
next
  case (2 s x)
  then have "intset_room s" using intset_set_card [OF 2(1)] by (simp add: intset_room_def)
  then show ?case using intsetAdd_spec [OF 2(1), of junk x] by (auto simp: sint_eq_iff)
next
  case (3 s x)
  then show ?case using intsetRemove_spec [OF 3, of junk x] by (auto simp: sint_eq_iff)
next
  case (4 s x)
  then show ?case using intsetFind_rep [OF intset_inv_rep] by simp
qed


lemma intsetNew_inv: "intset_inv intsetNew" "intset_abs intsetNew = []"
  by (simp_all add: intset_inv_def intset_abs_def intsetNew_def enc_ok_def intset_enc_defs)

text \<open>
  C16. Every sequence of additions and removals on a new intset, of any length, behaves as on a set:
  the same success flags in the same order and the same final elements.  The sequence adds
  fewer than \<open>2 ^ 29 - 1\<close> different values; beyond that the 32-bit size computations of \<open>intset.c\<close>
  wrap.
\<close>
theorem intset_refines_set:
  assumes "card (added ops) < 2 ^ 29 - 1"
  shows "\<exists>is'. run_set_ops (intsetAdd junk) (intsetRemove junk) intsetNew ops
                 = Some (is', snd (spec_set_ops {} ops)) \<and>
               intset_inv is' \<and>
               {v. sint (v :: 64 word) \<in> set (intset_abs is')} = fst (spec_set_ops {} ops)"
  using intset_store.run_refines [OF intsetNew_inv(1), of ops junk] assms
  by (simp add: intsetNew_inv(2))

theorem intset_refines_set_witness:
  "\<exists>is'. run_set_ops (intsetAdd (\<lambda>_. 0)) (intsetRemove (\<lambda>_. 0)) intsetNew
           [SAdd 5, SAdd 100000, SAdd 5, SRemove 5] = Some (is', [True, True, False, True]) \<and>
         {v. sint (v :: 64 word) \<in> set (intset_abs is')} = {100000}"
  using intset_refines_set [of "[SAdd 5, SAdd 100000, SAdd 5, SRemove 5]" "\<lambda>_. 0"]
  by (auto simp: card_insert_if)

lemma intsetGet_rank:
  assumes "intset_inv is"
  shows "intsetGet is pos = Some (if unat pos < unat (intsetLen is)
          then Some (word_of_int (intset_abs is ! unat pos)) else None)"
proof (cases "pos < is_length is")
  note rep = intset_inv_rep [OF assms]
  case True
  then have p: "unat pos < length (intset_abs is)"
    by (simp add: word_less_nat_alt intset_rep_unat_len [OF rep])
  moreover have "sint pos = int (unat pos)"
    using sint_word_of_nat [where 'a = 32, of "unat pos"] p intset_rep_len [OF rep] by simp
  ultimately show ?thesis using True intset_rep_get [OF rep p]
    by (simp add: intsetGet_def intsetLen_def word_less_nat_alt)
next
  case False
  then show ?thesis by (simp add: intsetGet_def intsetLen_def word_less_nat_alt)
qed

text \<open>
  C33. Membership and positional access: \<open>intsetFind\<close> decides membership for every value, and
  \<open>intsetGet\<close> returns the element of the given rank, or 0 exactly when the position is out of
  range.
\<close>
theorem intset_lookup_correct:
  assumes "intset_inv is"
  shows "intsetFind is v = Some (sint v \<in> set (intset_abs is)) \<and>
         intsetGet is pos =
           Some (if unat pos < unat (intsetLen is)
                 then Some (word_of_int (intset_abs is ! unat pos)) else None)"
proof
  note rep = intset_inv_rep [OF assms]
  show "intsetFind is v = Some (sint v \<in> set (intset_abs is))" by (rule intsetFind_rep [OF rep])
  show "intsetGet is pos = Some (if unat pos < unat (intsetLen is)
          then Some (word_of_int (intset_abs is ! unat pos)) else None)" by (rule intsetGet_rank [OF assms])
qed

theorem intset_lookup_correct_witness:
  "intset_inv intset_13 \<and> intsetFind intset_13 3 = Some True \<and> intsetGet intset_13 1 = Some (Some 3) \<and>
   intsetGet intset_13 2 = Some None"
  using intset_13_inv intset_lookup_correct [OF intset_13_inv]
  by (simp add: intset_13_abs intsetLen_def) (simp add: intset_13_def)

subsection \<open>The size computation overflows\<close>

lemma intset_rep_iota:
  assumes "8 * n < 2 ^ 32"
  shows "intset_rep \<lparr>encoding = 8, is_length = of_nat n,
      contents = concat (map (elem_bytes 8) (map int [0..<n]))\<rparr> 8 (map int [0..<n])"
proof -
  have "list_all (fits 8) (map int [0..<n])"
    using assms by (auto simp: list_all_iff fits_def)
  moreover have "sorted_wrt (<) (map int [0..<n])" by (simp add: sorted_wrt_map)
  ultimately show ?thesis using assms by (simp add: intset_rep_def enc_ok_def)
qed

text \<open>
  C37. The 32-bit size of \<open>intsetResize\<close> wraps around: an intset of \<open>2^29 - 1\<close> elements of 8
  bytes is resized to an empty allocation when one more value is added, and the addition
  accesses memory outside of it.
\<close>
theorem intsetAdd_size_overflow:
  assumes inv: "intset_inv is" and enc: "encoding is = 8" and len: "is_length is = 2 ^ 29 - 1"
    and new: "sint v \<notin> set (intset_abs is)"
  shows "contents (intsetResize junk is (is_length is + 1)) = [] \<and> intsetAdd junk is v = None"
proof
  note rep = intset_inv_rep [OF inv]
  have w: "unat (encoding is) = 8" using enc by simp
  show rs: "contents (intsetResize junk is (is_length is + 1)) = []"
    by (simp add: intsetResize_def enc len mem_resize_def)
  obtain found pos where s: "intsetSearch is v = Some (found, of_nat pos)"
      "insert_pos (intset_abs is) (sint v) found pos"
    using intsetSearch_correct [OF rep] by blast
  have f: "\<not> found" using s(2) new by (auto dest: insert_pos_in)
  have fit: "fits 8 (sint v)" using sint_range_size [of v] by (simp add: fits_def word_size)
  have lx: "length (intset_abs is) = 2 ^ 29 - 1" by (simp add: intset_abs_def len)
  have pl: "pos \<le> 2 ^ 29 - 1" using s(2) f lx by (simp add: insert_pos_def)
  have up: "unat (of_nat pos :: 32 word) = pos" using pl by (intro unat_word_of_nat) simp
  have sp: "sint (of_nat pos :: 32 word) = int pos" using pl by (intro sint_word_of_nat) simp
  have venc: "\<not> ucast (intsetValueEncoding v) > encoding is"
    using value_encoding_fits [of 8 v] fit enc by (simp add: enc_ok_def not_less)
  define is1 where "is1 = intsetResize junk is (is_length is + 1)"
  have is1: "contents is1 = []" "encoding is1 = 8" "is_length is1 = 2 ^ 29 - 1"
    using rs enc len by (simp_all add: is1_def intsetResize_def)
  have "priv_intsetSet is1 (int pos) v = None"
    by (simp add: priv_intsetSet_def is1 intset_enc_defs mem_write_def)
  moreover have "intsetMoveTail is1 (of_nat pos) (of_nat pos + 1) = None" if "of_nat pos < is_length is1"
  proof -
    have lt: "pos < 2 ^ 29 - 1" using that up by (simp add: is1 word_less_nat_alt)
    have "(2 ^ 29 - 1 - of_nat pos :: 32 word) = of_nat (2 ^ 29 - 1 - pos)" using lt by (simp add: of_nat_diff)
    then have "unat ((2 ^ 29 - 1 - of_nat pos :: 32 word) * of_nat 8) = (2 ^ 29 - 1 - pos) * 8"
      by (simp only:) (rule unat_mult_small, simp)
    then show ?thesis using lt
      by (simp add: intsetMoveTail_def is1 intset_enc_defs mem_move_def mem_read_def)
  qed
  ultimately show "intsetAdd junk is v = None"
    using venc s f sp by (simp add: intsetAdd_def flip: is1_def)
qed


definition intset_iota :: "nat \<Rightarrow> intset" where
  "intset_iota n = \<lparr>encoding = 8, is_length = of_nat n,
     contents = concat (map (elem_bytes 8) (map int [0..<n]))\<rparr>"

lemma intset_iota_facts:
  assumes "8 * n < 2 ^ 32"
  shows "intset_inv (intset_iota n)" "encoding (intset_iota n) = 8" "is_length (intset_iota n) = of_nat n"
    "sint (- 1 :: 64 word) \<notin> set (intset_abs (intset_iota n))"
proof -
  note rep = intset_rep_iota [OF assms, folded intset_iota_def]
  show "intset_inv (intset_iota n)" by (rule intset_rep_inv [OF rep])
  show "sint (- 1 :: 64 word) \<notin> set (intset_abs (intset_iota n))"
    unfolding intset_rep_abs [OF rep] by auto
qed (simp_all add: intset_iota_def)

theorem intsetAdd_size_overflow_witness:
  "contents (intsetResize (\<lambda>_. 0) (intset_iota (2 ^ 29 - 1)) (is_length (intset_iota (2 ^ 29 - 1)) + 1)) = [] \<and>
   intsetAdd (\<lambda>_. 0) (intset_iota (2 ^ 29 - 1)) (- 1) = None"
proof (rule intsetAdd_size_overflow)
  have le: "8 * (2 ^ 29 - 1 :: nat) < 2 ^ 32" by simp
  show "intset_inv (intset_iota (2 ^ 29 - 1))" and "encoding (intset_iota (2 ^ 29 - 1)) = 8"
    and "sint (- 1 :: 64 word) \<notin> set (intset_abs (intset_iota (2 ^ 29 - 1)))"
    by (rule intset_iota_facts [OF le])+
  have "(of_nat (2 ^ 29 - 1) :: 32 word) = 2 ^ 29 - 1" by simp
  then show "is_length (intset_iota (2 ^ 29 - 1)) = 2 ^ 29 - 1"
    by (simp only: intset_iota_facts(3) [OF le])
qed

end
