(* ===== verification/DictIter.thy ===== *)
theory DictIter
  imports Dict
begin

section \<open>Iterators and random entries of hash tables (\<open>redis-5.0/src/dict.c\<close>)\<close>

text \<open>
  A pointer into a chain (\<open>entry\<close>, \<open>nextEntry\<close>) is the rest of the chain from that node on; \<open>NULL\<close>
  is the empty list.  The fingerprint that an unsafe iterator compares on release is a hash of
  pointers and is left out.  \<open>random()\<close> is a stream of readings, an argument of the operations; it
  returns 31-bit numbers.
\<close>

subsection \<open>Iterators\<close>

record ('k, 'v) dictIterator =
  it_table :: nat
  it_index :: int
  it_safe :: bool
  it_entry :: "('k \<times> 'v) list"
  it_next :: "('k \<times> 'v) list"

definition dictGetIterator :: "('k, 'v) dictIterator" where
  "dictGetIterator = \<lparr>it_table = 0, it_index = -1, it_safe = False, it_entry = [], it_next = []\<rparr>"

definition dictGetSafeIterator :: "('k, 'v) dictIterator" where
  "dictGetSafeIterator = dictGetIterator\<lparr>it_safe := True\<rparr>"

text \<open>The body of the loop of \<open>dictNext\<close> up to the new \<open>entry\<close>; the flag is \<open>True\<close> for \<open>break\<close>.\<close>

definition iter_advance ::
    "('k, 'v) dict \<Rightarrow> ('k, 'v) dictIterator \<Rightarrow> (('k, 'v) dict \<times> ('k, 'v) dictIterator \<times> bool) option" where
  "iter_advance d it =
     (if it_entry it = [] then
        (let ht = the_ht d (it_table it);
             d = (if it_index it = -1 \<and> it_table it = 0 \<and> it_safe it
                  then d\<lparr>iterators := iterators d + 1\<rparr> else d);
             it = it\<lparr>it_index := it_index it + 1\<rparr>
         in if it_index it \<ge> int (ht_size ht) then
              (if dictIsRehashing d \<and> it_table it = 0 then
                 do { es \<leftarrow> mem_get 0 (ht_table (ht1 d));
                      Some (d, it\<lparr>it_table := 1, it_index := 0, it_entry := es\<rparr>, False) }
               else Some (d, it, True))
            else
              do { es \<leftarrow> mem_get (nat (it_index it)) (ht_table ht);
                   Some (d, it\<lparr>it_entry := es\<rparr>, False) })
      else Some (d, it\<lparr>it_entry := it_next it\<rparr>, False))"

partial_function (option) dictNext ::
    "('k, 'v) dict \<Rightarrow> ('k, 'v) dictIterator \<Rightarrow>
     (('k, 'v) dict \<times> ('k, 'v) dictIterator \<times> ('k \<times> 'v) option) option" where
  "dictNext d it =
     do {
       (d, it, brk) \<leftarrow> iter_advance d it;
       (if brk then Some (d, it, None)
        else case it_entry it of
               [] \<Rightarrow> dictNext d it
             | e # es \<Rightarrow> Some (d, it\<lparr>it_next := es\<rparr>, Some e)) }"

declare dictNext.simps [code]

definition dictReleaseIterator :: "('k, 'v) dict \<Rightarrow> ('k, 'v) dictIterator \<Rightarrow> ('k, 'v) dict" where
  "dictReleaseIterator d it =
     (if \<not> (it_index it = -1 \<and> it_table it = 0) \<and> it_safe it
      then d\<lparr>iterators := iterators d - 1\<rparr> else d)"

text \<open>\<open>n\<close> calls of \<open>dictNext\<close>.\<close>

primrec next_calls ::
    "nat \<Rightarrow> ('k, 'v) dict \<Rightarrow> ('k, 'v) dictIterator \<Rightarrow>
     (('k, 'v) dict \<times> ('k, 'v) dictIterator \<times> ('k \<times> 'v) option list) option" where
  "next_calls 0 d it = Some (d, it, [])"
| "next_calls (Suc n) d it =
     do { (d, it, e) \<leftarrow> dictNext d it; (d, it, es) \<leftarrow> next_calls n d it; Some (d, it, e # es) }"

text \<open>What an iterator has still to return.\<close>

definition started :: "('k, 'v) dictIterator \<Rightarrow> bool" where
  "started it \<longleftrightarrow> \<not> (it_index it = -1 \<and> it_table it = 0)"

definition iter_ok :: "('k, 'v) dict \<Rightarrow> ('k, 'v) dictIterator \<Rightarrow> bool" where
  "iter_ok d it \<longleftrightarrow> -1 \<le> it_index it \<and> (it_table it = 0 \<or> it_table it = 1 \<and> dictIsRehashing d) \<and>
     (it_entry it \<noteq> [] \<longrightarrow> started it)"

definition buckets_left :: "('k, 'v) dict \<Rightarrow> ('k, 'v) dictIterator \<Rightarrow> ('k \<times> 'v) list list" where
  "buckets_left d it =
     drop (nat (it_index it + 1)) (ht_table (the_ht d (it_table it))) @
     (if it_table it = 0 \<and> dictIsRehashing d then ht_table (ht1 d) else [])"

definition iter_rest :: "('k, 'v) dict \<Rightarrow> ('k, 'v) dictIterator \<Rightarrow> ('k \<times> 'v) list" where
  "iter_rest d it = (if it_entry it = [] then [] else it_next it) @ concat (buckets_left d it)"

lemma dict_ok_length: "dict_ok d \<Longrightarrow> t = 0 \<or> t = 1 \<Longrightarrow> length (ht_table (the_ht d t)) = ht_size (the_ht d t)"
  by (auto simp: dict_ok_def the_ht_def ht_live_size split: if_splits)

lemma dict_ok_ht1_nonempty: "dict_ok d \<Longrightarrow> dictIsRehashing d \<Longrightarrow> ht_table (ht1 d) \<noteq> []"
  by (auto simp: dict_ok_def dictIsRehashing_def ht_live_def)

lemma dict_ok_iterators [simp]: "dict_ok (d\<lparr>iterators := n\<rparr>) = dict_ok d"
  by (simp add: dict_ok_def dict_entries_def)

lemma iterators_irrelevant [simp]:
  "dictIsRehashing (d\<lparr>iterators := n\<rparr>) = dictIsRehashing d" "the_ht (d\<lparr>iterators := n\<rparr>) t = the_ht d t"
  "buckets_left (d\<lparr>iterators := n\<rparr>) it = buckets_left d it" "iter_rest (d\<lparr>iterators := n\<rparr>) it = iter_rest d it"
  "iter_ok (d\<lparr>iterators := n\<rparr>) it = iter_ok d it" "dict_entries (d\<lparr>iterators := n\<rparr>) = dict_entries d"
  by (simp_all add: dictIsRehashing_def the_ht_def buckets_left_def iter_rest_def iter_ok_def dict_entries_def)

text \<open>One step: it consumes the next chain of the iteration, or ends it.\<close>

lemma iter_advance_spec:
  assumes ok: "dict_ok d" "iter_ok d it"
    and n: "n = (if it_safe it \<and> \<not> started it then iterators d + 1 else iterators d)"
  shows "\<exists>it'. it_safe it' = it_safe it \<and> iter_ok d it' \<and> started it' \<and>
    (if it_entry it \<noteq> []
     then iter_advance d it = Some (d\<lparr>iterators := n\<rparr>, it', False) \<and> it_entry it' = it_next it \<and> buckets_left d it' = buckets_left d it
     else (case buckets_left d it of
             [] \<Rightarrow> iter_advance d it = Some (d\<lparr>iterators := n\<rparr>, it', True) \<and> buckets_left d it' = [] \<and> it_entry it' = []
           | b # bs \<Rightarrow> iter_advance d it = Some (d\<lparr>iterators := n\<rparr>, it', False) \<and> it_entry it' = b \<and> buckets_left d it' = bs))"
proof (cases "it_entry it = []")
  case False
  then show ?thesis using ok n
    by (intro exI [of _ "it\<lparr>it_entry := it_next it\<rparr>"]) (auto simp: iter_advance_def iter_ok_def buckets_left_def started_def)
next
  case e: True
  let ?t = "it_table it" and ?i = "it_index it + 1"
  let ?ht = "the_ht d ?t"
  have t: "?t = 0 \<or> ?t = 1 \<and> dictIsRehashing d" and i: "0 \<le> ?i" using ok(2) by (auto simp: iter_ok_def)
  have len: "length (ht_table ?ht) = ht_size ?ht" using dict_ok_length [OF ok(1), of ?t] t by auto
  have dn: "(if it_index it = -1 \<and> ?t = 0 \<and> it_safe it then d\<lparr>iterators := iterators d + 1\<rparr> else d) = d\<lparr>iterators := n\<rparr>"
    using n e by (auto simp: started_def)
  show ?thesis
  proof (cases "?i \<ge> int (ht_size ?ht)")
    case True
    then have dr: "drop (nat ?i) (ht_table ?ht) = []" using len by simp
    show ?thesis
    proof (cases "dictIsRehashing d \<and> ?t = 0")
      case re: True
      then obtain b bs where b: "ht_table (ht1 d) = b # bs" using dict_ok_ht1_nonempty [OF ok(1)] by (cases "ht_table (ht1 d)") auto
      have "iter_advance d it = Some (d\<lparr>iterators := n\<rparr>, it\<lparr>it_table := 1, it_index := 0, it_entry := b\<rparr>, False)"
        using e True re b dn by (simp add: iter_advance_def Let_def mem_get_def)
      then show ?thesis using e dr re b
        by (intro exI [of _ "it\<lparr>it_table := 1, it_index := 0, it_entry := b\<rparr>"])
           (simp add: buckets_left_def iter_ok_def started_def the_ht_def)
    next
      case nre: False
      have "iter_advance d it = Some (d\<lparr>iterators := n\<rparr>, it\<lparr>it_index := ?i\<rparr>, True)"
        using e True nre dn by (auto simp add: iter_advance_def Let_def)
      then show ?thesis using e dr nre i t True len
        by (intro exI [of _ "it\<lparr>it_index := ?i\<rparr>"]) (auto simp: buckets_left_def iter_ok_def started_def)
    qed
  next
    case False
    then have il: "nat ?i < length (ht_table ?ht)" using i len by linarith
    then have dr: "drop (nat ?i) (ht_table ?ht) = ht_table ?ht ! nat ?i # drop (nat (?i + 1)) (ht_table ?ht)"
      using i Cons_nth_drop_Suc [OF il] by (simp add: Suc_nat_eq_nat_zadd1)
    have "iter_advance d it = Some (d\<lparr>iterators := n\<rparr>, it\<lparr>it_index := ?i, it_entry := ht_table ?ht ! nat ?i\<rparr>, False)"
      using e False dn il by (simp add: iter_advance_def Let_def mem_simps)
    then show ?thesis using e dr t i
      by (intro exI [of _ "it\<lparr>it_index := ?i, it_entry := ht_table ?ht ! nat ?i\<rparr>"])
         (auto simp: buckets_left_def iter_ok_def started_def)
  qed
qed


lemma dictNext_spec:
  assumes "dict_ok d" "iter_ok d it"
    and "n = (if it_safe it \<and> \<not> started it then iterators d + 1 else iterators d)"
  shows "\<exists>it'. it_safe it' = it_safe it \<and> iter_ok d it' \<and> started it' \<and>
    (case iter_rest d it of
       [] \<Rightarrow> dictNext d it = Some (d\<lparr>iterators := n\<rparr>, it', None) \<and> iter_rest d it' = []
     | e # es \<Rightarrow> dictNext d it = Some (d\<lparr>iterators := n\<rparr>, it', Some e) \<and> iter_rest d it' = es)"
  using assms
proof (induction "(if it_entry it = [] then 0 else 1) + 2 * length (buckets_left d it)" arbitrary: d it n rule: less_induct)
  case less
  obtain it1 where a: "it_safe it1 = it_safe it" "iter_ok d it1" "started it1"
    "if it_entry it \<noteq> []
     then iter_advance d it = Some (d\<lparr>iterators := n\<rparr>, it1, False) \<and> it_entry it1 = it_next it \<and> buckets_left d it1 = buckets_left d it
     else (case buckets_left d it of
             [] \<Rightarrow> iter_advance d it = Some (d\<lparr>iterators := n\<rparr>, it1, True) \<and> buckets_left d it1 = [] \<and> it_entry it1 = []
           | b # bs \<Rightarrow> iter_advance d it = Some (d\<lparr>iterators := n\<rparr>, it1, False) \<and> it_entry it1 = b \<and> buckets_left d it1 = bs)"
    using iter_advance_spec [OF less.prems] by blast
  show ?case
  proof (cases "it_entry it = [] \<and> buckets_left d it = []")
    case True
    then have "iter_advance d it = Some (d\<lparr>iterators := n\<rparr>, it1, True)" "iter_rest d it1 = []" using a(4) by (auto simp: iter_rest_def)
    then have "dictNext d it = Some (d\<lparr>iterators := n\<rparr>, it1, None)" by (subst dictNext.simps) simp
    then show ?thesis using a(1-3) True \<open>iter_rest d it1 = []\<close> by (auto simp: iter_rest_def)
  next
    case False
    then have adv: "iter_advance d it = Some (d\<lparr>iterators := n\<rparr>, it1, False)"
      and rest: "it_entry it1 @ concat (buckets_left d it1) = iter_rest d it"
      and dec: "2 * length (buckets_left d it1) < (if it_entry it = [] then 0 else 1) + 2 * length (buckets_left d it)"
      using a(4) by (auto simp: iter_rest_def split: list.splits if_splits)
    show ?thesis
    proof (cases "it_entry it1")
      case (Cons e es)
      let ?it = "it1\<lparr>it_next := es\<rparr>"
      have "dictNext d it = Some (d\<lparr>iterators := n\<rparr>, ?it, Some e)" using adv Cons by (subst dictNext.simps) simp
      moreover have "iter_rest d ?it = es @ concat (buckets_left d it1)" using Cons by (simp add: iter_rest_def buckets_left_def)
      moreover have "iter_ok d ?it" "started ?it" using a(2,3) by (auto simp: iter_ok_def started_def)
      ultimately show ?thesis using rest Cons a(1) by (intro exI [of _ ?it]) (auto simp flip: rest)
    next
      case Nil
      let ?d = "d\<lparr>iterators := n\<rparr>"
      have "dictNext d it = dictNext ?d it1" using adv Nil by (subst dictNext.simps) simp
      moreover have "\<exists>it'. it_safe it' = it_safe it1 \<and> iter_ok ?d it' \<and> started it' \<and>
        (case iter_rest ?d it1 of
           [] \<Rightarrow> dictNext ?d it1 = Some (?d\<lparr>iterators := n\<rparr>, it', None) \<and> iter_rest ?d it' = []
         | e # es \<Rightarrow> dictNext ?d it1 = Some (?d\<lparr>iterators := n\<rparr>, it', Some e) \<and> iter_rest ?d it' = es)"
        by (rule less.hyps) (use dec Nil less.prems(1) a in auto)
      moreover have "iter_rest d it1 = iter_rest d it" using rest Nil by (simp add: iter_rest_def)
      ultimately show ?thesis using a(1) by (simp cong: list.case_cong)
    qed
  qed
qed

lemma next_calls_rest:
  assumes "dict_ok d" "iter_ok d it" "started it"
  shows "\<exists>it'. next_calls n d it =
      Some (d, it', map Some (take n (iter_rest d it)) @ replicate (n - length (iter_rest d it)) None) \<and>
    it_safe it' = it_safe it \<and> started it'"
  using assms
proof (induction n arbitrary: it)
  case (Suc n)
  have d: "d\<lparr>iterators := iterators d\<rparr> = d" by simp
  obtain it1 where 1: "it_safe it1 = it_safe it" "iter_ok d it1" "started it1"
    "case iter_rest d it of
       [] \<Rightarrow> dictNext d it = Some (d, it1, None) \<and> iter_rest d it1 = []
     | e # es \<Rightarrow> dictNext d it = Some (d, it1, Some e) \<and> iter_rest d it1 = es"
    using dictNext_spec [OF Suc.prems(1,2), of "iterators d"] Suc.prems(3) unfolding d by auto
  show ?case using Suc.IH [OF Suc.prems(1) 1(2,3)] 1(1,4) by (auto split: list.splits)
qed auto

text \<open>
  C18.  A safe iterator over a dictionary, in the middle of a rehash or not: the calls of \<open>dictNext\<close>
  yield every entry exactly once, first those of the old table, then those of the new one, and
  \<open>NULL\<close> from then on.  After every number of calls, from the first one on, the dictionary
  does no rehashing steps, and releasing the iterator leaves the dictionary as it was.
\<close>

theorem dict_iterator_correct:
  fixes d :: "('k, 'v) dict"
  assumes ok: "dict_ok d"
  shows "\<exists>d' it. next_calls n d dictGetSafeIterator =
      Some (d', it, map Some (take n (dict_entries d)) @ replicate (n - length (dict_entries d)) None) \<and>
    (0 < n \<longrightarrow> dictRehashStep d' = Some d') \<and> dictReleaseIterator d' it = d"
proof (cases n)
  case 0
  then show ?thesis by (simp add: dictReleaseIterator_def dictGetSafeIterator_def dictGetIterator_def)
next
  case (Suc m)
  let ?it = "dictGetSafeIterator :: ('k, 'v) dictIterator" and ?n = "iterators d + 1"
  let ?d = "d\<lparr>iterators := ?n\<rparr>"
  have it: "iter_ok d ?it" "\<not> started ?it" "it_safe ?it" by (simp_all add: iter_ok_def started_def dictGetSafeIterator_def dictGetIterator_def)
  have "rehashidx d = -1 \<Longrightarrow> entries (ht1 d) = []" using ok by (simp add: dict_ok_def)
  then have rest: "iter_rest d ?it = dict_entries d"
    by (auto simp: iter_rest_def buckets_left_def dictGetSafeIterator_def dictGetIterator_def dict_entries_def
        entries_def the_ht_def dictIsRehashing_def)
  obtain it1 where 1: "it_safe it1" "iter_ok d it1" "started it1"
    "case dict_entries d of
       [] \<Rightarrow> dictNext d ?it = Some (?d, it1, None) \<and> iter_rest d it1 = []
     | e # es \<Rightarrow> dictNext d ?it = Some (?d, it1, Some e) \<and> iter_rest d it1 = es"
    using dictNext_spec [OF ok it(1), of ?n] it(2,3) unfolding rest by auto
  obtain it2 where 2: "next_calls m ?d it1 =
      Some (?d, it2, map Some (take m (iter_rest ?d it1)) @ replicate (m - length (iter_rest ?d it1)) None)"
      "it_safe it2" "started it2"
    using next_calls_rest [of ?d it1 m] ok 1(1-3) by auto
  have "next_calls (Suc m) d ?it =
      Some (?d, it2, map Some (take (Suc m) (dict_entries d)) @ replicate (Suc m - length (dict_entries d)) None)"
    unfolding next_calls.simps(2) using 1(4) 2(1) by (auto simp del: next_calls.simps split: list.splits)
  moreover have "dictReleaseIterator ?d it2 = d"
    using 2(2,3) by (simp add: dictReleaseIterator_def started_def)
  moreover have "dictRehashStep ?d = Some ?d" by (simp add: dictRehashStep_def)
  ultimately show ?thesis using Suc by blast
qed

theorem dict_iterator_correct_witness:
  "\<exists>d' it. next_calls 3 ex_dict dictGetSafeIterator = Some (d', it, [Some (2, 20), Some (7, 70), Some (3, 30)]) \<and>
     dictRehashStep d' = Some d' \<and> dictReleaseIterator d' it = ex_dict"
proof -
  have e: "dict_entries ex_dict = [(2, 20), (7, 70), (3, 30), (1, 10), (5, 50)]"
    by (simp add: ex_dict_def dict_entries_def entries_def)
  show ?thesis using dict_iterator_correct [OF ex_dict_ok, of 3] unfolding e by simp
qed

subsection \<open>Random entries\<close>

text \<open>The loop that draws a bucket until it is not empty; \<open>n\<close> counts the readings of \<open>random()\<close>.\<close>

partial_function (option) random_bucket ::
    "(31 word \<Rightarrow> 'a list option) \<Rightarrow> (nat \<Rightarrow> 31 word) \<Rightarrow> nat \<Rightarrow> ('a list \<times> nat) option" where
  "random_bucket pick rnd n =
     do {
       he \<leftarrow> pick (rnd n);
       (if he = [] then random_bucket pick rnd (n + 1) else Some (he, n + 1)) }"

declare random_bucket.simps [code]

definition pick_bucket :: "('k, 'v) dict \<Rightarrow> 31 word \<Rightarrow> ('k \<times> 'v) list option" where
  "pick_bucket d r =
     (if dictIsRehashing d then
        (let h = nat (rehashidx d) + unat r mod (ht_size (ht0 d) + ht_size (ht1 d) - nat (rehashidx d))
         in if h \<ge> ht_size (ht0 d) then mem_get (h - ht_size (ht0 d)) (ht_table (ht1 d))
            else mem_get h (ht_table (ht0 d)))
      else mem_get (slot (ht0 d) (ucast r)) (ht_table (ht0 d)))"

text \<open>The length of the chain is counted in an \<open>int\<close>, whose overflow is undefined.\<close>

definition dictGetRandomKey ::
    "(nat \<Rightarrow> 31 word) \<Rightarrow> ('k, 'v) dict \<Rightarrow> (('k, 'v) dict \<times> ('k \<times> 'v) option) option" where
  "dictGetRandomKey rnd d =
     (if dictSize d = 0 then Some (d, None)
      else do {
        d \<leftarrow> rehash_if d;
        (he, n) \<leftarrow> random_bucket (pick_bucket d) rnd 0;
        let listlen = length he;
        (if listlen \<ge> 2 ^ 31 then None
         else do {
           let listele = unat (rnd n) mod listlen;
           e \<leftarrow> mem_get listele he;
           Some (d, Some e) }) })"

text \<open>
  \<open>dictGetSomeKeys\<close>: the state of its loop is the bucket index, the number of empty buckets
  in a row, the entries stored so far and the number of readings of \<open>random()\<close>.  A result
  \<open>Inl\<close> is \<open>return\<close> in the middle of a bucket.
\<close>

type_synonym ('k, 'v) pick_state = "nat \<times> nat \<times> ('k \<times> 'v) list \<times> nat"

definition some_keys_bucket ::
    "(nat \<Rightarrow> 31 word) \<Rightarrow> nat \<Rightarrow> nat \<Rightarrow> ('k, 'v) dictht \<Rightarrow> ('k, 'v) pick_state \<Rightarrow>
     (('k \<times> 'v) list + ('k, 'v) pick_state) option" where
  "some_keys_bucket rnd cnt m ht = (\<lambda>(i, emptylen, des, n).
     if i \<ge> ht_size ht then Some (Inr (i, emptylen, des, n))
     else do {
       he \<leftarrow> mem_get i (ht_table ht);
       (if he = [] then
          (if emptylen + 1 \<ge> 5 \<and> emptylen + 1 > cnt
           then Some (Inr (unat (ucast (rnd n) AND of_nat m :: 64 word), 0, des, n + 1))
           else Some (Inr (i, emptylen + 1, des, n)))
        else if length des + length he \<ge> cnt then Some (Inl (des @ take (cnt - length des) he))
        else Some (Inr (i, 0, des @ he, n))) })"

definition some_keys_step ::
    "(nat \<Rightarrow> 31 word) \<Rightarrow> nat \<Rightarrow> nat \<Rightarrow> ('k, 'v) dict \<Rightarrow> ('k, 'v) pick_state \<Rightarrow>
     (('k \<times> 'v) list + ('k, 'v) pick_state) option" where
  "some_keys_step rnd cnt m d = (\<lambda>(i, emptylen, des, n).
     if \<not> dictIsRehashing d then some_keys_bucket rnd cnt m (ht0 d) (i, emptylen, des, n)
     else do {
       r \<leftarrow> (if i < nat (rehashidx d) then
               (if i \<ge> ht_size (ht1 d)
                then some_keys_bucket rnd cnt m (ht0 d) (nat (rehashidx d), emptylen, des, n)
                else Some (Inr (i, emptylen, des, n)))
             else some_keys_bucket rnd cnt m (ht0 d) (i, emptylen, des, n));
       (case r of Inl out \<Rightarrow> Some (Inl out) | Inr s \<Rightarrow> some_keys_bucket rnd cnt m (ht1 d) s) })"

primrec some_keys_loop ::
    "(nat \<Rightarrow> 31 word) \<Rightarrow> nat \<Rightarrow> nat \<Rightarrow> ('k, 'v) dict \<Rightarrow> nat \<Rightarrow> ('k, 'v) pick_state \<Rightarrow> ('k \<times> 'v) list option" where
  "some_keys_loop rnd cnt m d 0 s = Some (fst (snd (snd s)))"
| "some_keys_loop rnd cnt m d (Suc steps) s =
     (if length (fst (snd (snd s))) < cnt then
        do {
          r \<leftarrow> some_keys_step rnd cnt m d s;
          (case r of
             Inl des \<Rightarrow> Some des
           | Inr (i, emptylen, des, n) \<Rightarrow>
               some_keys_loop rnd cnt m d steps
                 (unat (of_nat (i + 1) AND of_nat m :: 64 word), emptylen, des, n)) }
      else Some (fst (snd (snd s))))"

primrec rehash_times :: "nat \<Rightarrow> ('k, 'v) dict \<Rightarrow> ('k, 'v) dict option" where
  "rehash_times 0 d = Some d"
| "rehash_times (Suc n) d =
     (if dictIsRehashing d then do { d \<leftarrow> dictRehashStep d; rehash_times n d } else Some d)"

text \<open>\<open>count\<close> is an \<open>unsigned int\<close>, and so is the product \<open>count*10\<close>.\<close>

definition dictGetSomeKeys ::
    "(nat \<Rightarrow> 31 word) \<Rightarrow> ('k, 'v) dict \<Rightarrow> 32 word \<Rightarrow> (('k, 'v) dict \<times> ('k \<times> 'v) list) option" where
  "dictGetSomeKeys rnd d cnt =
     (let cnt = (if dictSize d < unat cnt then of_nat (dictSize d) else cnt);
          maxsteps = unat (cnt * 10);
          cnt = unat cnt in
      do {
        d \<leftarrow> rehash_times cnt d;
        let m = (if dictIsRehashing d \<and> ht_sizemask (ht0 d) < ht_sizemask (ht1 d)
                 then ht_sizemask (ht1 d) else ht_sizemask (ht0 d));
        des \<leftarrow> some_keys_loop rnd cnt m d maxsteps
                 (unat (ucast (rnd 0) AND of_nat m :: 64 word), 0, [], 1);
        Some (d, des) })"

subsection \<open>What they return\<close>

lemma random_bucket_returns:
  assumes "\<forall>r. \<exists>es. pick r = Some es" "pick (rnd (n + k)) = Some es" "es \<noteq> []"
  shows "\<exists>he n' r. random_bucket pick rnd n = Some (he, n') \<and> pick r = Some he \<and> he \<noteq> []"
  using assms
proof (induction k arbitrary: n)
  case 0
  then show ?case by (subst random_bucket.simps) auto
next
  case (Suc k)
  obtain he where he: "pick (rnd n) = Some he" using assms(1) by blast
  show ?case
  proof (cases "he = []")
    case True
    have "\<exists>he n' r. random_bucket pick rnd (n + 1) = Some (he, n') \<and> pick r = Some he \<and> he \<noteq> []"
      by (rule Suc.IH [OF assms(1)]) (use Suc.prems in auto)
    then show ?thesis using he True by (subst random_bucket.simps) simp
  next
    case False
    then show ?thesis using he by (subst random_bucket.simps) auto
  qed
qed

lemma slot_of_nat:
  assumes "ht_live h ht" "j < ht_size ht"
  shows "slot ht (of_nat j) = j"
proof -
  obtain k where k: "k \<le> 63" "ht_size ht = 2 ^ k" using assms by (auto simp: ht_live_def)
  have m: "(of_nat (ht_sizemask ht) :: 64 word) = mask k"
    using assms(1) k of_nat_mask [of k] by (simp add: ht_live_def)
  have "(2::nat) ^ k \<le> 2 ^ 63" using k(1) by (rule power_increasing) simp
  then have j: "j < 2 ^ LENGTH(64)" "j < 2 ^ k" using assms(2) k(2) by auto
  have "(of_nat j AND mask k :: 64 word) = of_nat j"
    by (simp add: take_bit_nat_eq_self j flip: take_bit_eq_mask of_nat_take_bit)
  then show ?thesis unfolding slot_def m using unat_word_of_nat [OF j(1)] by simp
qed

lemma nonempty_bucket:
  assumes "xs \<noteq> []" "xs = concat bs" shows "\<exists>j < length bs. bs ! j \<noteq> []"
  using assms by (metis concat_eq_Nil_conv in_set_conv_nth)

lemma pick_bucket_some:
  assumes ok: "dict_ok d" and ne: "dictSize d \<noteq> 0"
  shows "\<exists>es. pick_bucket d r = Some es \<and> set es \<subseteq> set (dict_entries d)"
proof (cases "dictIsRehashing d")
  case True
  then have live: "ht_live (hashFunction (dtype d)) (ht0 d)" "ht_live (hashFunction (dtype d)) (ht1 d)"
      and ri: "nat (rehashidx d) \<le> ht_size (ht0 d)"
    using ok by (auto simp: dict_ok_def dictIsRehashing_def)
  let ?m = "ht_size (ht0 d) + ht_size (ht1 d) - nat (rehashidx d)"
  let ?h = "nat (rehashidx d) + unat r mod ?m"
  have "0 < ht_size (ht1 d)" using live(2) by (auto simp: ht_live_def)
  then have "unat r mod ?m < ?m" using ri by simp
  then have h: "?h < ht_size (ht0 d) + ht_size (ht1 d)" using ri by linarith
  show ?thesis
  proof (cases "?h \<ge> ht_size (ht0 d)")
    case ge: True
    have l: "?h - ht_size (ht0 d) < length (ht_table (ht1 d))" using h ge ht_live_size [OF live(2)] by linarith
    then show ?thesis using True ge bucket_entries [OF l]
      by (simp add: pick_bucket_def mem_simps dict_entries_def Let_def) blast
  next
    case False
    then have l: "?h < length (ht_table (ht0 d))" using ht_live_size [OF live(1)] by simp
    then show ?thesis using True False bucket_entries [OF l]
      by (simp add: pick_bucket_def mem_simps dict_entries_def Let_def) blast
  qed
next
  case False
  then have live: "ht_live (hashFunction (dtype d)) (ht0 d)"
    using ok ne by (auto simp: dict_ok_def dictIsRehashing_def dictSize_def)
  show ?thesis using False slot_less [OF live] bucket_entries [OF slot_less [OF live]]
    by (simp add: pick_bucket_def mem_simps dict_entries_def) blast
qed

lemma pick_bucket_nonempty:
  assumes ok: "dict_ok d" and ne: "dictSize d \<noteq> 0"
  shows "\<exists>r < ht_size (ht0 d) + ht_size (ht1 d). \<forall>w. unat w = r \<longrightarrow> (\<exists>es. pick_bucket d w = Some es \<and> es \<noteq> [])"
proof (cases "dictIsRehashing d")
  case True
  then have re: "rehashidx d \<noteq> -1" by (simp add: dictIsRehashing_def)
  have live: "ht_live (hashFunction (dtype d)) (ht0 d)" "ht_live (hashFunction (dtype d)) (ht1 d)"
      and ri: "nat (rehashidx d) \<le> ht_size (ht0 d)"
    using ok re by (auto simp: dict_ok_def)
  let ?i = "nat (rehashidx d)"
  note len = ht_live_size [OF live(1)] ht_live_size [OF live(2)]
  show ?thesis
  proof (cases "ht_used (ht0 d) = 0")
    case False
    then obtain j where j: "?i \<le> j" "j < length (ht_table (ht0 d))" "ht_table (ht0 d) ! j \<noteq> []"
      using used_bucket [OF ok re] by blast
    have "0 < ht_size (ht1 d)" using live(2) by (auto simp: ht_live_def)
    then have "?i + (j - ?i) mod (ht_size (ht0 d) + ht_size (ht1 d) - ?i) = j" using j(1,2) len by simp
    then have "pick_bucket d w = Some (ht_table (ht0 d) ! j)" if "unat w = j - ?i" for w
      using True j(2) len that by (simp add: pick_bucket_def mem_simps)
    then show ?thesis using j len by (intro exI [of _ "j - ?i"]) auto
  next
    case used0: True
    then have "entries (ht1 d) \<noteq> []" using ne ht_live_used [OF live(2)] by (auto simp: dictSize_def)
    then obtain j where j: "j < length (ht_table (ht1 d))" "ht_table (ht1 d) ! j \<noteq> []"
      using nonempty_bucket [of "entries (ht1 d)"] by (auto simp: entries_def)
    have "?i + (ht_size (ht0 d) + j - ?i) mod (ht_size (ht0 d) + ht_size (ht1 d) - ?i) = ht_size (ht0 d) + j"
      using ri j(1) len by simp
    then have "pick_bucket d w = Some (ht_table (ht1 d) ! j)" if "unat w = ht_size (ht0 d) + j - ?i" for w
      using True j(1) len that by (simp add: pick_bucket_def mem_simps)
    then show ?thesis using j len by (intro exI [of _ "ht_size (ht0 d) + j - ?i"]) auto
  qed
next
  case False
  then have live: "ht_live (hashFunction (dtype d)) (ht0 d)" and r1: "ht1 d = dictReset"
    using ok ne by (auto simp: dict_ok_def dictIsRehashing_def dictSize_def)
  have "entries (ht0 d) \<noteq> []" using ne r1 ht_live_used [OF live] by (auto simp: dictSize_def)
  then obtain j where j: "j < length (ht_table (ht0 d))" "ht_table (ht0 d) ! j \<noteq> []"
    using nonempty_bucket [of "entries (ht0 d)"] by (auto simp: entries_def)
  moreover have "slot (ht0 d) (ucast w) = j" if "unat w = j" for w :: "31 word"
  proof -
    have "(ucast w :: 64 word) = of_nat j" unfolding that [symmetric] by (rule of_nat_unat [symmetric])
    then show ?thesis using slot_of_nat [OF live, of j] j(1) ht_live_size [OF live] by simp
  qed
  ultimately show ?thesis using ht_live_size [OF live] False
    by (intro exI [of _ j]) (auto simp: pick_bucket_def mem_simps)
qed

text \<open>A step of rehashing does not allocate: the tables have no more buckets than before.\<close>

definition slots_total :: "('k, 'v) dict \<Rightarrow> nat" where
  "slots_total d = ht_size (ht0 d) + ht_size (ht1 d)"

lemma move_bucket_slots: "move_bucket es d = Some d' \<Longrightarrow> slots_total d' = slots_total d"
  by (induction es arbitrary: d) (auto simp: slots_total_def Let_def split: bind_splits)

lemma rehash_loop_slots: "rehash_loop n ev d = Some (d', b) \<Longrightarrow> slots_total d' \<le> slots_total d"
proof (induction n arbitrary: ev d)
  case 0
  then show ?case by (auto simp: rehash_finish_def slots_total_def split: if_splits)
next
  case (Suc n)
  show ?case
  proof (cases "ht_used (ht0 d) = 0")
    case True
    then show ?thesis using Suc.prems by (auto simp: rehash_finish_def slots_total_def)
  next
    case False
    then obtain idx ev' out where s: "skip_empty (ht_table (ht0 d)) (nat (rehashidx d)) ev = Some (idx, ev', out)"
      using Suc.prems by (auto split: if_splits bind_splits)
    show ?thesis
    proof (cases out)
      case True
      then show ?thesis using Suc.prems False s by (auto simp: slots_total_def split: if_splits)
    next
      case nout: False
      obtain es d1 where d1: "move_bucket es d = Some d1"
          "rehash_loop n ev' (d1\<lparr>ht0 := put_bucket idx [] (ht0 d1), rehashidx := int idx + 1\<rparr>) = Some (d', b)"
        using Suc.prems False s nout by (auto split: if_splits bind_splits)
      from Suc.IH [OF d1(2)] move_bucket_slots [OF d1(1)] show ?thesis by (simp add: slots_total_def)
    qed
  qed
qed

lemma rehash_if_slots: "rehash_if d = Some d' \<Longrightarrow> slots_total d' \<le> slots_total d"
  by (auto simp: rehash_if_def dictRehashStep_def dictRehash_def dest: rehash_loop_slots split: if_splits
      simp del: rehash_loop.simps)

lemma pick_bucket_length:
  assumes "dict_ok d" "pick_bucket d r = Some es"
  shows "length es \<le> dictSize d"
proof -
  have le: "es \<in> set (ht_table ht) \<Longrightarrow> length es \<le> length (entries ht)" for ht :: "('a, 'b) dictht"
    by (simp add: entries_def length_concat member_le_sum_list)
  have "mem_get i xs = Some x \<Longrightarrow> x \<in> set xs" for i x and xs :: "('a \<times> 'b) list list"
    by (auto simp: mem_get_def split: if_splits)
  then have "es \<in> set (ht_table (ht0 d)) \<or> es \<in> set (ht_table (ht1 d))"
    using assms(2) unfolding pick_bucket_def Let_def by (metis (no_types, lifting))
  then show ?thesis using le [of "ht0 d"] le [of "ht1 d"] dict_ok_used [OF assms(1)] by (auto simp: dictSize_def)
qed

text \<open>
  C34.  \<open>dictGetRandomKey\<close> on a dictionary that is not empty returns an entry of it, and keeps the
  map, as soon as every 31-bit number occurs in the stream of random numbers: the bucket it draws
  is always inside the tables, and some draw hits an entry.  The tables have at most \<open>2 ^ 31\<close>
  buckets (a bucket beyond that is never drawn) and fewer than \<open>2 ^ 31\<close> entries.
\<close>

theorem dictGetRandomKey_correct:
  assumes ok: "dict_ok d" and ne: "dictSize d \<noteq> 0" and rnd: "\<forall>r. \<exists>n. rnd n = r"
    and small: "ht_size (ht0 d) + ht_size (ht1 d) \<le> 2 ^ 31" "dictSize d < 2 ^ 31"
  shows "\<exists>d' e. dictGetRandomKey rnd d = Some (d', Some e) \<and> dict_ok d' \<and> dict_map d' = dict_map d \<and>
    dict_map d (fst e) = Some (snd e)"
proof -
  obtain d1 where d1: "rehash_if d = Some d1" "dict_keeps d d1" using rehash_if_keeps [OF ok] by blast
  then have ok1: "dict_ok d1" and m1: "dict_map d1 = dict_map d" and sz1: "dictSize d1 = dictSize d"
    using dict_keeps_map [OF ok] dict_keeps_size [OF ok] by (auto simp: dict_keeps_def)
  have ne1: "dictSize d1 \<noteq> 0" using ne sz1 by simp
  obtain j where j: "j < ht_size (ht0 d1) + ht_size (ht1 d1)"
      "\<forall>w. unat w = j \<longrightarrow> (\<exists>es. pick_bucket d1 w = Some es \<and> es \<noteq> [])"
    using pick_bucket_nonempty [OF ok1 ne1] by blast
  have "j < 2 ^ LENGTH(31)" using j(1) rehash_if_slots [OF d1(1)] small(1) by (simp add: slots_total_def)
  then obtain es where r: "pick_bucket d1 (of_nat j) = Some es" "es \<noteq> []"
    using j(2) unat_word_of_nat [where 'a = 31] by blast
  obtain k where k: "rnd (0 + k) = of_nat j" using rnd by auto
  have "\<forall>r. \<exists>es. pick_bucket d1 r = Some es" using pick_bucket_some [OF ok1 ne1] by blast
  from random_bucket_returns [where rnd = rnd, OF this r(1) [folded k] r(2)]
  obtain he n r' where he: "random_bucket (pick_bucket d1) rnd 0 = Some (he, n)" "pick_bucket d1 r' = Some he" "he \<noteq> []"
    by blast
  let ?e = "he ! (unat (rnd n) mod length he)"
  have l: "unat (rnd n) mod length he < length he" using he(3) by simp
  have "length he < 2 ^ 31" using pick_bucket_length [OF ok1 he(2)] sz1 small(2) by simp
  moreover have "?e \<in> set (dict_entries d1)"
    using pick_bucket_some [OF ok1 ne1, of r'] he(2) nth_mem [OF l] by auto
  then have "dict_map d (fst ?e) = Some (snd ?e)" using dict_map_Some [OF ok1] m1 by simp
  moreover have "dictGetRandomKey rnd d = Some (d1, Some ?e)"
    using ne d1(1) he(1) l calculation(1) by (simp add: dictGetRandomKey_def mem_simps)
  ultimately show ?thesis using ok1 m1 by blast
qed

definition keys_result_ok :: "nat \<Rightarrow> ('k \<times> 'v) set \<Rightarrow> ('k \<times> 'v) list + ('k, 'v) pick_state \<Rightarrow> bool" where
  "keys_result_ok cnt E r \<longleftrightarrow>
     (case r of Inl des \<Rightarrow> set des \<subseteq> E \<and> length des \<le> cnt
      | Inr (i, el, des, n) \<Rightarrow> set des \<subseteq> E \<and> length des < cnt)"

lemma some_keys_bucket_ok:
  assumes "keys_result_ok cnt E (Inr s)" "length (ht_table ht) = ht_size ht" "set (entries ht) \<subseteq> E"
  shows "\<exists>r. some_keys_bucket rnd cnt m ht s = Some r \<and> keys_result_ok cnt E r"
proof -
  obtain i el des n where s: "s = (i, el, des, n)" by (cases s)
  have d: "set des \<subseteq> E" "length des < cnt" using assms(1) by (simp_all add: s keys_result_ok_def)
  show ?thesis
  proof (cases "i \<ge> ht_size ht")
    case True
    then show ?thesis using d by (simp add: s some_keys_bucket_def keys_result_ok_def)
  next
    case False
    then have i: "i < length (ht_table ht)" using assms(2) by simp
    have sub: "set (ht_table ht ! i) \<subseteq> E" using bucket_entries [OF i] assms(3) by blast
    then have "set (take k (ht_table ht ! i)) \<subseteq> E" for k using set_take_subset by fastforce
    then show ?thesis using False i d sub by (simp add: s some_keys_bucket_def keys_result_ok_def mem_simps)
  qed
qed

lemma dict_ok_tables:
  "dict_ok d \<Longrightarrow> length (ht_table (ht0 d)) = ht_size (ht0 d) \<and> length (ht_table (ht1 d)) = ht_size (ht1 d)"
  using dict_ok_length [of d 0] dict_ok_length [of d 1] by (simp add: the_ht_def)

lemma some_keys_step_ok:
  assumes ok: "dict_ok d" and s: "keys_result_ok cnt (set (dict_entries d)) (Inr s)"
  shows "\<exists>r. some_keys_step rnd cnt m d s = Some r \<and> keys_result_ok cnt (set (dict_entries d)) r"
proof -
  obtain i el des n where e: "s = (i, el, des, n)" by (cases s)
  have s': "keys_result_ok cnt (set (dict_entries d)) (Inr (j, el, des, n))" for j
    using s by (simp add: e keys_result_ok_def)
  note len = dict_ok_tables [OF ok]
  have sub: "set (entries (ht0 d)) \<subseteq> set (dict_entries d)" "set (entries (ht1 d)) \<subseteq> set (dict_entries d)"
    by (auto simp: dict_entries_def)
  have b0: "\<exists>r. some_keys_bucket rnd cnt m (ht0 d) (j, el, des, n) = Some r \<and> keys_result_ok cnt (set (dict_entries d)) r" for j
    using some_keys_bucket_ok [OF s' _ sub(1)] len by blast
  show ?thesis
  proof (cases "dictIsRehashing d")
    case False
    then show ?thesis using b0 [of i] by (simp add: e some_keys_step_def)
  next
    case True
    let ?r = "if i < nat (rehashidx d) then
               (if i \<ge> ht_size (ht1 d) then some_keys_bucket rnd cnt m (ht0 d) (nat (rehashidx d), el, des, n)
                else Some (Inr (i, el, des, n)))
             else some_keys_bucket rnd cnt m (ht0 d) (i, el, des, n)"
    obtain r where r: "?r = Some r" "keys_result_ok cnt (set (dict_entries d)) r"
      using b0 s' by (metis (full_types))
    show ?thesis
    proof (cases r)
      case (Inl out)
      then show ?thesis using True r by (simp add: e some_keys_step_def split: if_splits)
    next
      case (Inr s1)
      have "\<exists>r. some_keys_bucket rnd cnt m (ht1 d) s1 = Some r \<and> keys_result_ok cnt (set (dict_entries d)) r"
        using some_keys_bucket_ok [OF _ _ sub(2)] len r(2) Inr by blast
      then show ?thesis using True r(1) Inr by (simp add: e some_keys_step_def split: if_splits)
    qed
  qed
qed

lemma some_keys_loop_ok:
  assumes ok: "dict_ok d"
  shows "keys_result_ok cnt (set (dict_entries d)) (Inr s) \<Longrightarrow>
   \<exists>des. some_keys_loop rnd cnt m d steps s = Some des \<and> set des \<subseteq> set (dict_entries d) \<and> length des \<le> cnt"
proof (induction steps arbitrary: s)
  case 0
  then show ?case by (auto simp: keys_result_ok_def split: prod.splits)
next
  case (Suc steps)
  obtain i el des n where s: "s = (i, el, des, n)" by (cases s)
  have lt: "length des < cnt" using Suc.prems by (simp add: s keys_result_ok_def)
  obtain r where r: "some_keys_step rnd cnt m d s = Some r" "keys_result_ok cnt (set (dict_entries d)) r"
    using some_keys_step_ok [OF ok Suc.prems] by blast
  show ?case
  proof (cases r)
    case (Inl out)
    then show ?thesis using r lt by (simp add: s keys_result_ok_def)
  next
    case (Inr s1)
    obtain i1 el1 des1 n1 where s1: "s1 = (i1, el1, des1, n1)" by (cases s1)
    have "keys_result_ok cnt (set (dict_entries d)) (Inr (j, el1, des1, n1))" for j
      using r(2) Inr s1 by (simp add: keys_result_ok_def)
    from Suc.IH [OF this] show ?thesis using r(1) Inr s1 lt by (simp add: s)
  qed
qed

lemma rehash_times_keeps: "dict_ok d \<Longrightarrow> \<exists>d'. rehash_times n d = Some d' \<and> dict_keeps d d'"
proof (induction n arbitrary: d)
  case (Suc n)
  obtain d1 where d1: "dictRehashStep d = Some d1" "dict_keeps d d1" using dictRehashStep_keeps [OF Suc.prems] by blast
  then show ?case using Suc.IH [of d1] dict_keeps_trans [OF d1(2)] dict_keeps_refl [OF Suc.prems]
    by (auto simp: dict_keeps_def)
qed (auto intro: dict_keeps_refl)

text \<open>
  C35.  \<open>dictGetSomeKeys\<close>, for any stream of random numbers and any 32-bit \<open>count\<close>, stays inside the
  tables, returns and stores at most \<open>count\<close> and at most \<open>dictSize\<close> entries, all of them entries of
  the dictionary, and keeps the map.
\<close>

theorem dictGetSomeKeys_bounds:
  assumes ok: "dict_ok d"
  shows "\<exists>d' des. dictGetSomeKeys rnd d cnt = Some (d', des) \<and> dict_ok d' \<and> dict_map d' = dict_map d \<and>
    set des \<subseteq> set (dict_entries d') \<and> length des \<le> min (unat cnt) (dictSize d)"
proof -
  define w where "w = (if dictSize d < unat cnt then of_nat (dictSize d) else cnt)"
  define c where "c = unat w"
  have c: "c = min (unat cnt) (dictSize d)"
  proof (cases "dictSize d < unat cnt")
    case True
    then have "dictSize d < 2 ^ LENGTH(32)" using unat_less [of cnt] by linarith
    from unat_word_of_nat [OF this] True show ?thesis by (simp add: c_def w_def)
  qed (simp add: c_def w_def)
  obtain d1 where d1: "rehash_times c d = Some d1" "dict_keeps d d1" using rehash_times_keeps [OF ok] by blast
  have ok1: "dict_ok d1" using d1(2) by (simp add: dict_keeps_def)
  define m where "m = (if dictIsRehashing d1 \<and> ht_sizemask (ht0 d1) < ht_sizemask (ht1 d1)
                       then ht_sizemask (ht1 d1) else ht_sizemask (ht0 d1))"
  define i where "i = unat (ucast (rnd 0) AND of_nat m :: 64 word)"
  have "\<exists>des. some_keys_loop rnd c m d1 (unat (w * 10)) (i, 0, [], 1) = Some des \<and> set des \<subseteq> set (dict_entries d1) \<and> length des \<le> c"
  proof (cases "c = 0")
    case False
    then show ?thesis by (intro some_keys_loop_ok [OF ok1]) (simp add: keys_result_ok_def)
  next
    case True
    then have "w = 0" by (simp add: c_def unat_eq_zero)
    then show ?thesis using True by simp
  qed
  then obtain des where des: "some_keys_loop rnd c m d1 (unat (w * 10)) (i, 0, [], 1) = Some des"
    "set des \<subseteq> set (dict_entries d1)" "length des \<le> c" by blast
  have "dictGetSomeKeys rnd d cnt = Some (d1, des)"
    unfolding dictGetSomeKeys_def Let_def w_def [symmetric] c_def [symmetric] using d1(1) des(1)
    by (simp flip: m_def i_def)
  then show ?thesis using des d1 ok1 dict_keeps_map [OF ok d1(2)] by (auto simp: c)
qed

theorem dictGetRandomKey_correct_witness:
  "\<exists>d' e. dictGetRandomKey of_nat ex_dict = Some (d', Some e) \<and> dict_ok d' \<and> dict_map ex_dict (fst e) = Some (snd e)"
proof -
  have "dictSize ex_dict \<noteq> 0" "ht_size (ht0 ex_dict) + ht_size (ht1 ex_dict) \<le> 2 ^ 31" "dictSize ex_dict < 2 ^ 31"
    by (simp_all add: dictSize_def ex_dict_def)
  moreover have "\<forall>r :: 31 word. \<exists>n. of_nat n = r"
  proof
    fix r :: "31 word"
    show "\<exists>n. of_nat n = r" by (rule exI [of _ "unat r"]) simp
  qed
  ultimately show ?thesis using dictGetRandomKey_correct [OF ex_dict_ok, of of_nat] by auto
qed

theorem dictGetSomeKeys_bounds_witness:
  "\<exists>d' des. dictGetSomeKeys of_nat ex_dict 3 = Some (d', des) \<and> length des \<le> 3"
  using dictGetSomeKeys_bounds [OF ex_dict_ok, of of_nat 3] by auto

end
