(* ===== verification/T_set.thy ===== *)
theory T_set
  imports Intset Util DictIter
begin

section \<open>Set objects (redis \<open>t_set.c\<close>)\<close>

text \<open>
  A set of strings is an integer set while all its elements are integers and there are few of
  them, and a dictionary without values otherwise.  The operations of \<open>t_set.c\<close> over the models of
  \<open>intset.c\<close>, \<open>dict.c\<close> and \<open>string2ll\<close>, with the conversion between the two encodings, implement one
  abstract set.  A failing assertion is \<open>None\<close>.
\<close>

subsection \<open>Strings of integers (\<open>sds.c\<close>)\<close>

text \<open>
  The elements of sets are strings shorter than \<open>2 ^ 31\<close>: \<open>dictSdsKeyCompare\<close> converts their lengths
  to \<open>int\<close> (the protocol limits the length of an argument to 512 MB by default).
\<close>

typedef sds = "{s :: bytes. length s < 2 ^ 31}" morphisms sds_bytes Sds
  by (rule exI [of _ "[]"]) simp

instantiation sds :: equal
begin

definition equal_sds :: "sds \<Rightarrow> sds \<Rightarrow> bool" where
  "equal_sds a b = (sds_bytes a = sds_bytes b)"

instance
  by standard (simp add: equal_sds_def sds_bytes_inject)

end

definition sdslen :: "sds \<Rightarrow> nat" where
  "sdslen s = length (sds_bytes s)"

definition sdsnewlen :: "bytes \<Rightarrow> sds option" where
  "sdsnewlen s = (if length s < 2 ^ 31 then Some (Sds s) else None)"

definition SDS_LLSTR_SIZE :: nat where
  "SDS_LLSTR_SIZE = 21"

text \<open>The digits from the last to the first, as they are stored from \<open>s\<close> on.\<close>

function ll2str_digits :: "64 word \<Rightarrow> bytes" where
  "ll2str_digits v =
     (let c = ch CHR ''0'' + ucast (v mod 10); v = v div 10 in
      if v \<noteq> 0 then c # ll2str_digits v else [c])"
  by pat_completeness auto
termination
  by (relation "measure unat") (auto simp: unat_div_distrib unat_eq_0 [symmetric] simp del: unat_eq_0)

declare ll2str_digits.simps [simp del]

text \<open>The reversal in place, between the positions \<open>s\<close> and \<open>p\<close>.\<close>

function reverse_loop :: "bytes \<Rightarrow> nat \<Rightarrow> nat \<Rightarrow> bytes option" where
  "reverse_loop buf s p =
     (if s < p then
        do {
          aux \<leftarrow> mem_get s buf;
          c \<leftarrow> mem_get p buf;
          buf \<leftarrow> mem_write s [c] buf;
          buf \<leftarrow> mem_write p [aux] buf;
          reverse_loop buf (s + 1) (p - 1) }
      else Some buf)"
  by pat_completeness auto
termination
  by (relation "measure (\<lambda>(buf, s, p). p - s)") auto

declare reverse_loop.simps [simp del]

text \<open>
  The buffer after the call and the length of the string in it.  The negation of \<open>LLONG_MIN\<close>
  overflows a \<open>long long\<close>, which is undefined.
\<close>

definition sdsll2str :: "bytes \<Rightarrow> 64 word \<Rightarrow> (bytes \<times> nat) option" where
  "sdsll2str buf val =
     (if val = LLONG_MIN then None
      else let v = (if sint val < 0 then - val else val);
          ds = ll2str_digits v @ (if sint val < 0 then [ch CHR ''-''] else []);
          l = length ds
      in do {
        buf \<leftarrow> mem_write 0 (ds @ [0]) buf;
        buf \<leftarrow> reverse_loop buf 0 (l - 1);
        Some (buf, l) })"

definition sdsfromlonglong :: "64 word \<Rightarrow> sds option" where
  "sdsfromlonglong val =
     do {
       (buf, len) \<leftarrow> sdsll2str (replicate SDS_LLSTR_SIZE 0) val;
       s \<leftarrow> mem_read 0 len buf;
       sdsnewlen s }"

definition isSdsRepresentableAsLongLong :: "sds \<Rightarrow> 64 word option" where
  "isSdsRepresentableAsLongLong s = string2ll (sds_bytes s)"

subsection \<open>The dictionary type of sets (\<open>server.c\<close>)\<close>

definition dictSdsKeyCompare :: "sds \<Rightarrow> sds \<Rightarrow> bool" where
  "dictSdsKeyCompare key1 key2 =
     (let l1 = sint (of_nat (sdslen key1) :: 32 word);
          l2 = sint (of_nat (sdslen key2) :: 32 word)
      in if l1 \<noteq> l2 then False else take (nat l1) (sds_bytes key1) = take (nat l1) (sds_bytes key2))"

definition setDictType :: "(sds \<Rightarrow> 64 word) \<Rightarrow> sds dictType" where
  "setDictType dictSdsHash = \<lparr>hashFunction = dictSdsHash, keyCompare = dictSdsKeyCompare\<rparr>"

definition HASHTABLE_MIN_FILL :: nat where
  "HASHTABLE_MIN_FILL = 10"

definition dictSlots :: "('k, 'v) dict \<Rightarrow> nat" where
  "dictSlots d = ht_size (ht0 d) + ht_size (ht1 d)"

definition htNeedsResize :: "('k, 'v) dict \<Rightarrow> bool" where
  "htNeedsResize d =
     (dictSlots d > DICT_HT_INITIAL_SIZE \<and> dictSize d * 100 div dictSlots d < HASHTABLE_MIN_FILL)"

subsection \<open>Operations\<close>

datatype set_obj = IntsetObj intset | HTObj "(sds, unit) dict"

text \<open>
  What the operations depend on: the hash function, \<open>dict_can_resize\<close>, the contents of fresh memory
  and \<open>server.set_max_intset_entries\<close>.
\<close>

record set_env =
  se_hash :: "sds \<Rightarrow> 64 word"
  se_can_resize :: bool
  se_junk :: "nat \<Rightarrow> byte"
  se_max_intset :: nat

definition createIntsetObject :: set_obj where
  "createIntsetObject = IntsetObj intsetNew"

definition createSetObject :: "set_env \<Rightarrow> set_obj" where
  "createSetObject env = HTObj (dictCreate (setDictType (se_hash env)))"

definition setTypeCreate :: "set_env \<Rightarrow> sds \<Rightarrow> set_obj" where
  "setTypeCreate env val =
     (if isSdsRepresentableAsLongLong val \<noteq> None then createIntsetObject else createSetObject env)"

datatype set_iter = IterHT "(sds, unit) dictIterator" | IterIntset int

datatype set_ele = SdsEle sds | LlEle "64 word"

definition setTypeInitIterator :: "set_obj \<Rightarrow> set_iter" where
  "setTypeInitIterator subject = (case subject of HTObj d \<Rightarrow> IterHT dictGetIterator | IntsetObj is \<Rightarrow> IterIntset 0)"

definition setTypeReleaseIterator :: "set_obj \<Rightarrow> set_iter \<Rightarrow> set_obj" where
  "setTypeReleaseIterator subject si =
     (case (subject, si) of
        (HTObj d, IterHT di) \<Rightarrow> HTObj (dictReleaseIterator d di)
      | _ \<Rightarrow> subject)"

text \<open>\<open>setTypeNext\<close>: the element, \<open>None\<close> at the end; an iterator of the other encoding is an error.\<close>

definition setTypeNext :: "set_obj \<Rightarrow> set_iter \<Rightarrow> (set_obj \<times> set_iter \<times> set_ele option) option" where
  "setTypeNext subject si =
     (case (subject, si) of
        (HTObj d, IterHT di) \<Rightarrow>
          do { (d, di, de) \<leftarrow> dictNext d di; Some (HTObj d, IterHT di, map_option (\<lambda>e. SdsEle (fst e)) de) }
      | (IntsetObj is, IterIntset ii) \<Rightarrow>
          do { llele \<leftarrow> intsetGet is (word_of_int ii); Some (subject, IterIntset (ii + 1), map_option LlEle llele) }
      | _ \<Rightarrow> None)"

definition setTypeNextObject :: "set_obj \<Rightarrow> set_iter \<Rightarrow> (set_obj \<times> set_iter \<times> sds option) option" where
  "setTypeNextObject subject si =
     do {
       (subject, si, ele) \<leftarrow> setTypeNext subject si;
       (case ele of
          None \<Rightarrow> Some (subject, si, None)
        | Some (LlEle intele) \<Rightarrow> do { s \<leftarrow> sdsfromlonglong intele; Some (subject, si, Some s) }
        | Some (SdsEle sdsele) \<Rightarrow> Some (subject, si, Some sdsele)) }"

text \<open>\<open>rnd\<close> is the sequence of random numbers.\<close>

definition setTypeRandomElement :: "(nat \<Rightarrow> 31 word) \<Rightarrow> set_obj \<Rightarrow> (set_obj \<times> set_ele) option" where
  "setTypeRandomElement rnd setobj =
     (case setobj of
        HTObj d \<Rightarrow> do { (d, de) \<leftarrow> dictGetRandomKey rnd d; e \<leftarrow> de; Some (HTObj d, SdsEle (fst e)) }
      | IntsetObj is \<Rightarrow> do { v \<leftarrow> intsetRandom is (rnd 0); Some (setobj, LlEle v) })"

definition setTypeSize :: "set_obj \<Rightarrow> nat" where
  "setTypeSize subject = (case subject of HTObj d \<Rightarrow> dictSize d | IntsetObj is \<Rightarrow> unat (intsetLen is))"

partial_function (option) convert_loop ::
    "set_env \<Rightarrow> set_obj \<Rightarrow> set_iter \<Rightarrow> (sds, unit) dict \<Rightarrow> (sds, unit) dict option" where
  "convert_loop env setobj si d =
     do {
       (setobj, si, ele) \<leftarrow> setTypeNext setobj si;
       (case ele of
          None \<Rightarrow> Some d
        | Some (SdsEle s) \<Rightarrow> None
        | Some (LlEle intele) \<Rightarrow>
            do {
              element \<leftarrow> sdsfromlonglong intele;
              (d, ok) \<leftarrow> dictAdd (se_can_resize env) () d element ();
              (if ok then convert_loop env setobj si d else None) }) }"

declare convert_loop.simps [code]

text \<open>\<open>setTypeConvert\<close> to \<open>OBJ_ENCODING_HT\<close>, the only encoding it converts to.\<close>

definition setTypeConvert :: "set_env \<Rightarrow> set_obj \<Rightarrow> set_obj option" where
  "setTypeConvert env setobj =
     (case setobj of
        HTObj d \<Rightarrow> None
      | IntsetObj is \<Rightarrow>
          (let d = dictCreate (setDictType (se_hash env));
               d = fst (dictExpand d (unat (intsetLen is)))
           in do { d \<leftarrow> convert_loop env setobj (setTypeInitIterator setobj) d; Some (HTObj d) }))"

definition setTypeAdd :: "set_env \<Rightarrow> set_obj \<Rightarrow> sds \<Rightarrow> (set_obj \<times> bool) option" where
  "setTypeAdd env subject val =
     (case subject of
        HTObj ht \<Rightarrow>
          do {
            (ht, de, existing) \<leftarrow> dictAddRaw (se_can_resize env) () ht val;
            (case de of
               Some r \<Rightarrow> do { ht \<leftarrow> dictSetVal ht r (); Some (HTObj ht, True) }
             | None \<Rightarrow> Some (HTObj ht, False)) }
      | IntsetObj is \<Rightarrow>
          (case isSdsRepresentableAsLongLong val of
             Some llval \<Rightarrow>
               do {
                 (is, success) \<leftarrow> intsetAdd (se_junk env) is llval;
                 (if success then
                    if unat (intsetLen is) > se_max_intset env
                    then do { subject \<leftarrow> setTypeConvert env (IntsetObj is); Some (subject, True) }
                    else Some (IntsetObj is, True)
                  else Some (IntsetObj is, False)) }
           | None \<Rightarrow>
               do {
                 subject \<leftarrow> setTypeConvert env subject;
                 (case subject of
                    HTObj ht \<Rightarrow>
                      do {
                        (ht, ok) \<leftarrow> dictAdd (se_can_resize env) () ht val ();
                        (if ok then Some (HTObj ht, True) else None) }
                  | IntsetObj is \<Rightarrow> None) }))"

definition setTypeRemove :: "set_env \<Rightarrow> set_obj \<Rightarrow> sds \<Rightarrow> (set_obj \<times> bool) option" where
  "setTypeRemove env setobj val =
     (case setobj of
        HTObj d \<Rightarrow>
          do {
            (d, ok) \<leftarrow> dictDelete d val;
            (if ok then
               Some (HTObj (if htNeedsResize d then fst (dictResize (se_can_resize env) d) else d), True)
             else Some (HTObj d, False)) }
      | IntsetObj is \<Rightarrow>
          (case isSdsRepresentableAsLongLong val of
             Some llval \<Rightarrow>
               do { (is, success) \<leftarrow> intsetRemove (se_junk env) is llval; Some (IntsetObj is, success) }
           | None \<Rightarrow> Some (setobj, False)))"

definition setTypeIsMember :: "set_obj \<Rightarrow> sds \<Rightarrow> (set_obj \<times> bool) option" where
  "setTypeIsMember subject val =
     (case subject of
        HTObj d \<Rightarrow> do { (d, de) \<leftarrow> dictFind d val; Some (HTObj d, de \<noteq> None) }
      | IntsetObj is \<Rightarrow>
          (case isSdsRepresentableAsLongLong val of
             Some llval \<Rightarrow> do { b \<leftarrow> intsetFind is llval; Some (subject, b) }
           | None \<Rightarrow> Some (subject, False)))"

subsection \<open>Strings of integers\<close>

lemma ch_0: "ch CHR ''0'' = 48" "ch CHR ''-'' = 45"
  by (simp_all add: ch_def of_char_def)

lemma digit_word: "(ucast ((v :: 64 word) mod 10) :: byte) = of_nat (unat v mod 10)"
  by (simp add: word_unat_eq_iff unsigned_ucast_eq unsigned_of_nat unat_mod_distrib)

lemma ll2str_digits_dec: "ll2str_digits v = rev (dec (unat v))"
proof (induction v rule: ll2str_digits.induct)
  case (1 v)
  have d: "unat (v div 10) = unat v div 10" by (simp add: unat_div_distrib)
  have z: "(v div 10 \<noteq> 0) = (10 \<le> unat v)"
  proof -
    have "(v div 10 = 0) = (unat v div 10 = 0)" by (metis d unat_0 unat_eq_zero)
    then show ?thesis by auto
  qed
  show ?case
  proof (cases "10 \<le> unat v")
    case True
    then show ?thesis using 1 [OF refl refl] z d dec_step [OF True]
      by (subst ll2str_digits.simps) (simp add: Let_def ch_0 digit_word)
  next
    case False
    then show ?thesis using z dec_small [of "unat v"]
      by (subst ll2str_digits.simps) (simp add: Let_def ch_0 digit_word)
  qed
qed

lemma reverse_loop_rev:
  "p + 1 = length a + length m \<Longrightarrow> reverse_loop (a @ m @ b) (length a) p = Some (a @ rev m @ b)"
proof (induction "length m" arbitrary: a m b p rule: less_induct)
  case less
  show ?case
  proof (cases "length m < 2")
    case True
    then have "rev m = m" by (cases m) auto
    then show ?thesis using True less.prems by (subst reverse_loop.simps) auto
  next
    case False
    then obtain x m1 where m1: "m = x # m1" "m1 \<noteq> []" by (cases m) auto
    define k y where "k = butlast m1" and "y = last m1"
    have m: "m = x # k @ [y]" using m1 by (simp add: k_def y_def)
    have p: "p = length a + 1 + length k" using less.prems m by simp
    have g: "mem_get (length a) (a @ m @ b) = Some x" "mem_get p (a @ m @ b) = Some y"
      by (simp_all add: mem_get_def m p nth_append)
    have w: "mem_write (length a) [y] (a @ m @ b) = Some (a @ y # k @ y # b)"
        "mem_write p [x] (a @ y # k @ y # b) = Some ((a @ [y]) @ k @ x # b)"
      by (simp_all add: mem_write_def m p)
    have "reverse_loop ((a @ [y]) @ k @ x # b) (length (a @ [y])) (p - 1) = Some ((a @ [y]) @ rev k @ x # b)"
      using less.hyps [of k "p - 1" "a @ [y]" "x # b"] m p by simp
    then show ?thesis using g w p by (subst reverse_loop.simps) (simp add: m)
  qed
qed

definition ll_sds :: "int \<Rightarrow> sds" where
  "ll_sds x = Sds (sdec x)"

lemma sds_short: "length (sds_bytes s) < 2 ^ 31"
  using sds_bytes [of s] by simp

lemma sds_bytes_ll: "sds_bytes (ll_sds (sint (v :: 64 word))) = sdec (sint v)"
  using length_sdec_le [of v] by (simp add: ll_sds_def Sds_inverse)

lemma sds_string2ll: "isSdsRepresentableAsLongLong s = Some v \<longleftrightarrow> s = ll_sds (sint v)"
  unfolding isSdsRepresentableAsLongLong_def string2ll_iff by (metis sds_bytes_ll sds_bytes_inject)

interpretation sds_codec: partial_codec "\<lambda>v :: 64 word. ll_sds (sint v)" isSdsRepresentableAsLongLong
  by unfold_locales (rule sds_string2ll)

lemma sdsfromlonglong_min: "sdsfromlonglong LLONG_MIN = None"
  by (simp add: sdsfromlonglong_def sdsll2str_def)

lemma sdsfromlonglong_dec:
  assumes "v \<noteq> LLONG_MIN"
  shows "sdsfromlonglong v = Some (ll_sds (sint v))"
proof -
  let ?n = "if sint v < 0 then - v else v"
  define ds where "ds = ll2str_digits ?n @ (if sint v < 0 then [ch CHR ''-''] else [])"
  have "rev ds = sdec (sint v)"
  proof (cases "sint v < 0")
    case True
    have "unat (- v) = nat (- sint v)" using neg_word [OF True] by simp
    then show ?thesis using True by (simp add: ds_def ll2str_digits_dec ch_0 sdec_def)
  next
    case False
    have "unat v = nat (sint v)" using False ll_magnitude [of v] by simp
    then show ?thesis using False by (simp add: ds_def ll2str_digits_dec sdec_def)
  qed
  then have r: "rev ds = sdec (sint v)" "length (sdec (sint v)) = length ds" by (auto simp flip: length_rev [of ds])
  have l: "length ds \<le> 20" "length ds - 1 + 1 = length ds"
    using length_sdec_le [of v] sdec_ne [of "sint v"] r by (auto simp: Suc_pred' [symmetric] simp flip: length_greater_0_conv)
  have "mem_write 0 (ds @ [0]) (replicate SDS_LLSTR_SIZE 0) = Some (ds @ 0 # replicate (20 - length ds) 0)"
    using l(1) by (simp add: mem_write_def SDS_LLSTR_SIZE_def)
  moreover have "reverse_loop (ds @ 0 # replicate (20 - length ds) 0) 0 (length ds - 1) =
      Some (sdec (sint v) @ 0 # replicate (20 - length ds) 0)"
    using reverse_loop_rev [of "length ds - 1" "[]" ds] l(2) r(1) by simp
  ultimately show ?thesis
    unfolding sdsfromlonglong_def sdsll2str_def Let_def ds_def [symmetric] using assms l(1)
    by (simp add: mem_read_def r(2) sdsnewlen_def ll_sds_def)
qed

subsection \<open>Invariant and abstraction\<close>

text \<open>
  The limit on integer sets is configurable; below \<open>2 ^ 29 - 1\<close> the sizes of integer sets do not
  overflow (the default is 512).  \<open>LLONG_MIN\<close> is left out of integer sets, because \<open>sdsll2str\<close> cannot
  convert it.
\<close>

definition set_ok :: "set_env \<Rightarrow> set_obj \<Rightarrow> bool" where
  "set_ok env obj =
     (se_max_intset env < 2 ^ 29 - 1 \<and>
      (case obj of
         IntsetObj is \<Rightarrow> intset_inv is \<and> unat (intsetLen is) \<le> se_max_intset env \<and> sint LLONG_MIN \<notin> set (intset_abs is)
       | HTObj d \<Rightarrow> dict_ok d))"

definition int_strings :: "intset \<Rightarrow> sds set" where
  "int_strings is = (\<lambda>v :: 64 word. ll_sds (sint v)) ` {v. sint v \<in> set (intset_abs is)}"

definition set_elems :: "set_obj \<Rightarrow> sds set" where
  "set_elems obj = (case obj of IntsetObj is \<Rightarrow> int_strings is | HTObj d \<Rightarrow> dom (dict_map d))"

interpretation dict_keys: map_as_set dict_ok dict_map "2 ^ 61" "dictAdd c ()" "dictReplace c ()" dictDelete dictFetchValue "()"
  for c
  by unfold_locales

lemma setDictType_ok: "type_ok (setDictType h)"
proof -
  have "dictSdsKeyCompare a b \<longleftrightarrow> a = b" for a b
  proof -
    have l: "sint (of_nat (sdslen s) :: 32 word) = int (sdslen s)" for s
      by (rule sint_word_of_nat) (use sds_short [of s] in \<open>simp add: sdslen_def\<close>)
    show ?thesis using sds_bytes_inject [of a b] unfolding dictSdsKeyCompare_def l Let_def
      by (auto simp: sdslen_def)
  qed
  then show ?thesis by (simp add: type_ok_def setDictType_def)
qed

lemma ll_sds_inj: "inj (\<lambda>v :: 64 word. ll_sds (sint v))"
  using sds_codec.encode_inj by (auto simp: inj_def)

lemma int_strings_card: "intset_inv is \<Longrightarrow> card (int_strings is) = unat (intsetLen is)"
  unfolding int_strings_def by (simp add: card_image inj_on_subset [OF ll_sds_inj] intset_set_card intsetLen_def)

lemma int_strings_mem:
  "isSdsRepresentableAsLongLong s = Some v \<Longrightarrow> s \<in> int_strings is \<longleftrightarrow> sint v \<in> set (intset_abs is)"
  using sds_codec.decode_mem [of s v] by (simp add: int_strings_def)

lemma int_strings_ll: "ll_sds (sint (v :: 64 word)) \<in> int_strings is \<longleftrightarrow> sint v \<in> set (intset_abs is)"
  by (rule int_strings_mem) simp

lemma int_strings_int: "isSdsRepresentableAsLongLong s = None \<Longrightarrow> s \<notin> int_strings is"
  using sds_codec.decode_None [of s] by (auto simp: int_strings_def)

lemma dictResize_keeps:
  assumes "dict_ok d"
  shows "dict_keeps d (fst (dictResize c d))"
proof -
  have "sint (of_nat (ht_used (ht0 d)) :: 32 word) < 2 ^ 31"
    using sint_range_size [of "of_nat (ht_used (ht0 d)) :: 32 word"] by (simp add: word_size)
  then have "nat (if sint (of_nat (ht_used (ht0 d)) :: 32 word) < int DICT_HT_INITIAL_SIZE then int DICT_HT_INITIAL_SIZE
      else sint (of_nat (ht_used (ht0 d)) :: 32 word)) < 2 ^ 62"
    by (auto simp: DICT_HT_INITIAL_SIZE_def)
  then show ?thesis using dictExpand_keeps [OF assms] dict_keeps_refl [OF assms]
    unfolding dictResize_def Let_def by auto
qed

subsection \<open>Conversion\<close>

lemma intset_rank_word:
  assumes "intset_inv is" "n < unat (intsetLen is)"
  shows "\<exists>v. setTypeNext (IntsetObj is) (IterIntset (int n)) = Some (IntsetObj is, IterIntset (int (Suc n)), Some (LlEle v)) \<and>
    sint v = intset_abs is ! n"
proof -
  have u: "unat (word_of_int (int n) :: 32 word) = n"
    using assms(2) unat_less [of "intsetLen is"] by (simp add: unat_of_nat take_bit_nat_eq_self)
  have "n < length (intset_abs is)" using assms(2) by (simp add: intset_abs_def intsetLen_def)
  then have "sint (word_of_int (intset_abs is ! n) :: 64 word) = intset_abs is ! n"
    using intset_abs_word [OF assms(1)] by simp
  then show ?thesis using intsetGet_rank [OF assms(1), of "word_of_int (int n)"] u assms(2)
    by (simp add: setTypeNext_def add.commute)
qed

lemma ll_sds_abs_inj:
  assumes "intset_inv is" "x \<in> set (intset_abs is)" "y \<in> set (intset_abs is)" "ll_sds x = ll_sds y"
  shows "x = y"
  using sds_codec.encode_inj [of "word_of_int x" "word_of_int y"] assms(4) intset_abs_word [OF assms(1,2)]
    intset_abs_word [OF assms(1,3)] by metis

lemma convert_loop_spec:
  assumes inv: "intset_inv is" and nomin: "sint LLONG_MIN \<notin> set (intset_abs is)"
  shows "n \<le> unat (intsetLen is) \<Longrightarrow> dict_ok d \<Longrightarrow> dom (dict_map d) = ll_sds ` set (take n (intset_abs is)) \<Longrightarrow>
    \<exists>d'. convert_loop env (IntsetObj is) (IterIntset (int n)) d = Some d' \<and> dict_ok d' \<and>
      dom (dict_map d') = ll_sds ` set (intset_abs is)"
proof (induction "unat (intsetLen is) - n" arbitrary: n d)
  have len: "length (intset_abs is) = unat (intsetLen is)" by (simp add: intset_abs_def intsetLen_def)
  have dist: "distinct (intset_abs is)" using inv by (simp add: intset_inv_def strict_sorted_iff)
  {
    case 0
    then have n: "n = unat (intsetLen is)" by simp
    have "setTypeNext (IntsetObj is) (IterIntset (int n)) = Some (IntsetObj is, IterIntset (int n + 1), None)"
      using intsetGet_rank [OF inv, of "intsetLen is"] by (simp add: setTypeNext_def n)
    then show ?case using 0 len n by (subst convert_loop.simps) simp
  next
    case (Suc m)
    then have n: "n < unat (intsetLen is)" by simp
    obtain v where v: "setTypeNext (IntsetObj is) (IterIntset (int n)) = Some (IntsetObj is, IterIntset (int (Suc n)), Some (LlEle v))"
        "sint v = intset_abs is ! n"
      using intset_rank_word [OF inv n] by blast
    let ?s = "ll_sds (sint v)"
    have old: "intset_abs is ! n \<notin> set (take n (intset_abs is))"
      using dist n len by (metis distinct_take distinct_append not_distinct_conv_prefix take_Suc_conv_app_nth)
    have mem: "intset_abs is ! n \<in> set (intset_abs is)" using n len by simp
    have "v \<noteq> LLONG_MIN" using mem nomin v(2) by auto
    then have str: "sdsfromlonglong v = Some ?s" by (rule sdsfromlonglong_dec)
    have new: "dict_map d ?s = None"
    proof (rule ccontr)
      assume "dict_map d ?s \<noteq> None"
      then have "?s \<in> dom (dict_map d)" by (simp add: domIff)
      then obtain x where x: "x \<in> set (take n (intset_abs is))" "ll_sds (intset_abs is ! n) = ll_sds x"
        using Suc.prems(3) v(2) by auto
      have "x = intset_abs is ! n" by (rule ll_sds_abs_inj [OF inv in_set_takeD [OF x(1)] mem x(2) [symmetric]])
      then show False using x(1) old by simp
    qed
    have "card (dom (dict_map d)) \<le> n" using Suc.prems(3) card_image_le [of "set (take n (intset_abs is))" ll_sds]
        card_length [of "take n (intset_abs is)"] by simp
    also have "n < 2 ^ 61" using n unat_less [of "intsetLen is"] by simp
    finally have "dictSize d < 2 ^ 61" using dictSize_card [OF Suc.prems(2)] by simp
    from dictAdd_map [OF Suc.prems(2) this, of "se_can_resize env" "()" ?s "()"] new
    obtain d1 where d1: "dictAdd (se_can_resize env) () d ?s () = Some (d1, True)" "dict_ok d1" "dict_map d1 = (dict_map d)(?s \<mapsto> ())"
      by auto
    have "dom (dict_map d1) = ll_sds ` set (take (Suc n) (intset_abs is))"
      using Suc.prems(3) d1(3) v(2) n len by (simp add: take_Suc_conv_app_nth)
    then obtain d' where d': "convert_loop env (IntsetObj is) (IterIntset (int (Suc n))) d1 = Some d'" "dict_ok d'"
        "dom (dict_map d') = ll_sds ` set (intset_abs is)"
      using Suc.hyps(1) [OF _ _ d1(2), of "Suc n"] Suc.hyps(2) n by (metis Suc_diff_Suc Suc_leI nat.inject)
    show ?case using v(1) d1(1) d' by (subst convert_loop.simps) (simp add: str)
  }
qed

lemma int_strings_abs: "intset_inv is \<Longrightarrow> int_strings is = ll_sds ` set (intset_abs is)"
  using intset_abs_word by (auto simp: int_strings_def image_iff) (metis)

lemma setTypeConvert_spec:
  assumes "intset_inv is" "sint LLONG_MIN \<notin> set (intset_abs is)"
  shows "\<exists>d. setTypeConvert env (IntsetObj is) = Some (HTObj d) \<and> dict_ok d \<and> dom (dict_map d) = int_strings is"
proof -
  let ?e = "dictCreate (setDictType (se_hash env)) :: (sds, unit) dict"
  let ?d = "fst (dictExpand ?e (unat (intsetLen is)))"
  have ok0: "dict_ok ?e" "dict_map ?e = Map.empty" using dictCreate_ok [OF setDictType_ok] by auto
  have "unat (intsetLen is) < 2 ^ 62" using unat_less [of "intsetLen is"] by simp
  from dictExpand_keeps [OF ok0(1) this] have "dict_ok ?d" "dict_map ?d = Map.empty"
    using dict_keeps_map [OF ok0(1)] ok0(2) by (auto simp: dict_keeps_def)
  then show ?thesis using convert_loop_spec [OF assms, of 0 ?d env]
    by (auto simp: setTypeConvert_def Let_def setTypeInitIterator_def int_strings_abs [OF assms(1)])
qed

subsection \<open>The operations on the abstract set\<close>

lemma intset_add_cases:
  assumes "intset_inv is" "unat (intsetLen is) < 2 ^ 29 - 1"
  obtains is' where "intsetAdd junk is v = Some (is', sint v \<notin> set (intset_abs is))" "intset_inv is'"
    "int_strings is' = insert (ll_sds (sint v)) (int_strings is)"
proof -
  have "card {v :: 64 word. sint v \<in> set (intset_abs is)} < 2 ^ 29 - 1"
    using assms intset_set_card [OF assms(1)] by (simp add: intsetLen_def)
  from intset_store.add_law [OF assms(1) this, of junk v]
  obtain is' where "intsetAdd junk is v = Some (is', sint v \<notin> set (intset_abs is))" "intset_inv is'"
      "{v :: 64 word. sint v \<in> set (intset_abs is')} = insert v {v. sint v \<in> set (intset_abs is)}"
    by auto
  then show ?thesis using that [of is'] by (simp add: int_strings_def)
qed

lemma setTypeAdd_ht:
  "setTypeAdd env (HTObj d) val = map_option (\<lambda>(d, ok). (HTObj d, ok)) (dictAdd (se_can_resize env) () d val ())"
  by (cases "dictAddRaw (se_can_resize env) () d val")
    (auto simp: setTypeAdd_def dictAdd_def split: option.split bind_splits)

lemma setTypeAdd_law:
  assumes ok: "set_ok env obj" and room: "card (set_elems obj) < 2 ^ 61" and adm: "val \<noteq> ll_sds (sint LLONG_MIN)"
  shows "\<exists>obj'. setTypeAdd env obj val = Some (obj', val \<notin> set_elems obj) \<and> set_ok env obj' \<and>
    set_elems obj' = insert val (set_elems obj)"
proof (cases obj)
  case (HTObj d)
  have "dict_ok d" "card (dom (dict_map d)) < 2 ^ 61" using ok room HTObj by (simp_all add: set_ok_def set_elems_def)
  from dict_keys.keys.add_law [OF this, of "se_can_resize env" val]
  show ?thesis using ok by (auto simp: setTypeAdd_ht HTObj set_ok_def set_elems_def)
next
  case (IntsetObj iset)
  have inv: "intset_inv iset" "unat (intsetLen iset) \<le> se_max_intset env" "sint LLONG_MIN \<notin> set (intset_abs iset)"
    using ok IntsetObj by (simp_all add: set_ok_def)
  have max: "se_max_intset env < 2 ^ 29 - 1" using ok by (simp add: set_ok_def)
  have elems: "set_elems obj = int_strings iset" by (simp add: IntsetObj set_elems_def)
  show ?thesis
  proof (cases "isSdsRepresentableAsLongLong val")
    case (Some v)
    then have val: "val = ll_sds (sint v)" by (simp add: sds_string2ll)
    obtain is' where is': "intsetAdd (se_junk env) iset v = Some (is', sint v \<notin> set (intset_abs iset))" "intset_inv is'"
        "int_strings is' = insert (ll_sds (sint v)) (int_strings iset)"
      using intset_add_cases [OF inv(1), of "se_junk env" v] inv(2) max by (metis order_le_less_trans)
    have mem: "val \<in> set_elems obj \<longleftrightarrow> sint v \<in> set (intset_abs iset)" using int_strings_mem [OF Some] elems by simp
    have nomin: "sint LLONG_MIN \<notin> set (intset_abs is')"
      using adm inv(3) is'(3) val int_strings_ll [of LLONG_MIN is'] int_strings_ll [of LLONG_MIN iset] by auto
    obtain d where d: "setTypeConvert env (IntsetObj is') = Some (HTObj d)" "dict_ok d" "dom (dict_map d) = int_strings is'"
      using setTypeConvert_spec [OF is'(2) nomin] by blast
    have same: "unat (intsetLen is') \<le> se_max_intset env" if "sint v \<in> set (intset_abs iset)"
    proof -
      have "ll_sds (sint v) \<in> int_strings iset" using that int_strings_mem [OF Some] val by simp
      then have "card (int_strings is') = card (int_strings iset)" using is'(3) by (simp add: insert_absorb)
      then show ?thesis using inv int_strings_card [OF inv(1)] int_strings_card [OF is'(2)] by simp
    qed
    show ?thesis
      using is' d mem same elems val Some max nomin
      by (auto simp: setTypeAdd_def IntsetObj set_ok_def set_elems_def)
  next
    case None
    obtain d where d: "setTypeConvert env (IntsetObj iset) = Some (HTObj d)" "dict_ok d" "dom (dict_map d) = int_strings iset"
      using setTypeConvert_spec [OF inv(1,3)] by blast
    have new: "val \<notin> int_strings iset" by (rule int_strings_int [OF None])
    have "card (dom (dict_map d)) < 2 ^ 61" using room elems d(3) by simp
    from dict_keys.keys.add_law [OF d(2) this, of "se_can_resize env" val] new d(3)
    obtain d' where "dictAdd (se_can_resize env) () d val () = Some (d', True)" "dict_ok d'" "dom (dict_map d') = insert val (int_strings iset)"
      by auto
    then show ?thesis using d(1) new elems None max
      by (simp add: setTypeAdd_def IntsetObj set_ok_def set_elems_def)
  qed
qed

lemma setTypeRemove_law:
  assumes ok: "set_ok env obj"
  shows "\<exists>obj'. setTypeRemove env obj val = Some (obj', val \<in> set_elems obj) \<and> set_ok env obj' \<and>
    set_elems obj' = set_elems obj - {val}"
proof (cases obj)
  case (HTObj d)
  then have "dict_ok d" using ok by (simp add: set_ok_def)
  from dict_keys.keys.rem_law [OF this, of val]
  obtain d' where d': "dictDelete d val = Some (d', val \<in> dom (dict_map d))" "dict_ok d'" "dom (dict_map d') = dom (dict_map d) - {val}"
    by blast
  have "dict_ok (fst (dictResize c d'))" "dict_map (fst (dictResize c d')) = dict_map d'" for c
    using dictResize_keeps [OF d'(2), of c] dict_keeps_map [OF d'(2)] by (auto simp: dict_keeps_def)
  then show ?thesis using d' ok by (auto simp: setTypeRemove_def HTObj set_ok_def set_elems_def)
next
  case (IntsetObj iset)
  have inv: "intset_inv iset" "unat (intsetLen iset) \<le> se_max_intset env" "sint LLONG_MIN \<notin> set (intset_abs iset)"
    using ok IntsetObj by (simp_all add: set_ok_def)
  show ?thesis
  proof (cases "isSdsRepresentableAsLongLong val")
    case (Some v)
    then have val: "val = ll_sds (sint v)" by (simp add: sds_string2ll)
    from intset_store.rem_law [OF inv(1), of "se_junk env" v]
    obtain is' where is': "intsetRemove (se_junk env) iset v = Some (is', sint v \<in> set (intset_abs iset))" "intset_inv is'"
        "{v :: 64 word. sint v \<in> set (intset_abs is')} = {v. sint v \<in> set (intset_abs iset)} - {v}"
      by auto
    have e: "int_strings is' = int_strings iset - {val}"
      unfolding int_strings_def is'(3) using inj_on_subset [OF ll_sds_inj] val by (subst inj_on_image_set_diff [OF ll_sds_inj]) auto
    then have "unat (intsetLen is') \<le> unat (intsetLen iset)"
      using int_strings_card [OF inv(1)] int_strings_card [OF is'(2)] finite_imageI [OF intset_store.finite_elems [OF inv(1)]]
      by (metis card_Diff1_le int_strings_def)
    moreover have "sint LLONG_MIN \<notin> set (intset_abs is')"
      using e inv(3) int_strings_ll [of LLONG_MIN is'] int_strings_ll [of LLONG_MIN iset] by auto
    ultimately show ?thesis using is' e inv(2) ok Some int_strings_mem [OF Some]
      by (auto simp: setTypeRemove_def IntsetObj set_ok_def set_elems_def)
  next
    case None
    then show ?thesis using inv ok int_strings_int [OF None]
      by (auto simp: setTypeRemove_def IntsetObj set_ok_def set_elems_def)
  qed
qed

lemma setTypeIsMember_law:
  assumes ok: "set_ok env obj"
  shows "\<exists>obj'. setTypeIsMember obj val = Some (obj', val \<in> set_elems obj) \<and> set_ok env obj' \<and> set_elems obj' = set_elems obj"
proof (cases obj)
  case (HTObj d)
  then have d: "dict_ok d" using ok by (simp add: set_ok_def)
  obtain d' r where r: "dictFind d val = Some (d', r)" "dict_keeps d d'"
      "case r of None \<Rightarrow> dict_map d val = None | Some ref \<Rightarrow> \<exists>v. at_ref d' ref (val, v) \<and> dict_map d val = Some v"
    using dictFind_spec [OF d] by blast
  then have "(r \<noteq> None) = (val \<in> dom (dict_map d))" by (auto simp: domIff split: option.splits)
  then show ?thesis using r(1,2) ok dict_keeps_map [OF d r(2)]
    by (simp add: setTypeIsMember_def HTObj set_ok_def set_elems_def dict_keeps_def)
next
  case (IntsetObj iset)
  then have inv: "intset_inv iset" using ok by (simp add: set_ok_def)
  show ?thesis
  proof (cases "isSdsRepresentableAsLongLong val")
    case (Some v)
    then show ?thesis using intset_store.mem_law [OF inv, of v] int_strings_mem [OF Some] ok
      by (simp add: setTypeIsMember_def IntsetObj set_elems_def)
  next
    case None
    then show ?thesis using int_strings_int [OF None] ok
      by (simp add: setTypeIsMember_def IntsetObj set_elems_def)
  qed
qed

lemma set_elems_finite: "set_ok env obj \<Longrightarrow> finite (set_elems obj)"
  using intset_store.finite_elems finite_dict_map by (auto simp: set_ok_def set_elems_def int_strings_def split: set_obj.splits)

lemma setTypeSize_card: "set_ok env obj \<Longrightarrow> setTypeSize obj = card (set_elems obj)"
  using int_strings_card dictSize_card by (auto simp: set_ok_def set_elems_def setTypeSize_def split: set_obj.splits)

interpretation set_type: set_store "set_ok env" set_elems "2 ^ 61" "\<lambda>val. val \<noteq> ll_sds (sint LLONG_MIN)" "setTypeAdd env" "setTypeRemove env"
  "\<lambda>obj val. map_option snd (setTypeIsMember obj val)" for env
proof (unfold_locales, goal_cases)
  case (1 s)
  then show ?case by (rule set_elems_finite)
next
  case (2 s x)
  then show ?case by (rule setTypeAdd_law)
next
  case (3 s x)
  then show ?case by (rule setTypeRemove_law)
next
  case (4 s x)
  then show ?case using setTypeIsMember_law [of _ s x] by fastforce
qed

lemma set_new:
  assumes "se_max_intset env < 2 ^ 29 - 1"
  shows "set_ok env (setTypeCreate env val) \<and> set_elems (setTypeCreate env val) = {}"
  using assms intsetNew_inv dictCreate_ok [OF setDictType_ok, of "se_hash env", where 'b = unit]
  by (auto simp: setTypeCreate_def createIntsetObject_def createSetObject_def set_ok_def set_elems_def int_strings_def
      intsetLen_def intsetNew_def)

text \<open>
  C4. A set object refines a set of strings, whatever its encoding: any sequence of \<open>setTypeAdd\<close> and
  \<open>setTypeRemove\<close> on a new object returns the flags of the abstract set, no assertion fails on the
  conversions in between, and at the end \<open>setTypeSize\<close> and \<open>setTypeIsMember\<close> agree with the abstract set.
  The limit \<open>set_max_intset_entries\<close> is below \<open>2 ^ 29 - 1\<close>, fewer than \<open>2 ^ 61\<close> different strings are
  added, all strings are shorter than \<open>2 ^ 31\<close>, and the string of \<open>LLONG_MIN\<close> is not added.
\<close>

theorem set_type_refines_set:
  assumes "se_max_intset env < 2 ^ 29 - 1" "card (added ops) < 2 ^ 61" "ll_sds (sint LLONG_MIN) \<notin> added ops"
  shows "\<exists>obj. run_set_ops (setTypeAdd env) (setTypeRemove env) (setTypeCreate env first_val) ops =
      Some (obj, snd (spec_set_ops {} ops)) \<and>
    setTypeSize obj = card (fst (spec_set_ops {} ops)) \<and>
    (\<forall>s. \<exists>obj'. setTypeIsMember obj s = Some (obj', s \<in> fst (spec_set_ops {} ops)))"
proof -
  note new = set_new [OF assms(1), of first_val]
  have "\<forall>x \<in> added ops. x \<noteq> ll_sds (sint LLONG_MIN)" using assms(3) by blast
  then obtain obj where obj: "run_set_ops (setTypeAdd env) (setTypeRemove env) (setTypeCreate env first_val) ops =
      Some (obj, snd (spec_set_ops {} ops))" "set_ok env obj" "set_elems obj = fst (spec_set_ops {} ops)"
    using set_type.run_refines [of env "setTypeCreate env first_val" ops] new assms(2) by auto
  then show ?thesis using setTypeSize_card [OF obj(2)] setTypeIsMember_law [OF obj(2)] by metis
qed

definition ex_env :: set_env where
  "ex_env = \<lparr>se_hash = (\<lambda>s. of_nat (sdslen s)), se_can_resize = True, se_junk = (\<lambda>_. 0), se_max_intset = 1\<rparr>"

lemma Sds_eq: "length a < 2 ^ 31 \<Longrightarrow> length b < 2 ^ 31 \<Longrightarrow> Sds a = Sds b \<longleftrightarrow> a = b"
  by (simp add: Sds_inject)

lemma ll_sds_min_long:
  assumes "length s < 19"
  shows "Sds s \<noteq> ll_sds (sint LLONG_MIN)"
proof
  assume "Sds s = ll_sds (sint LLONG_MIN)"
  then have "s = sdec (sint LLONG_MIN)" using assms sds_bytes_ll [of LLONG_MIN] Sds_inverse [of s] by simp
  moreover have "sint LLONG_MIN = - int (2 ^ 63)" by (simp add: ll_limits)
  ultimately have "s = 45 # dec (2 ^ 63)" using sdec_neg [of "2 ^ 63"] by simp
  then show False using assms length_dec [of 18 "2 ^ 63"] by simp
qed

theorem set_type_refines_set_witness:
  "\<exists>obj. run_set_ops (setTypeAdd ex_env) (setTypeRemove ex_env) (setTypeCreate ex_env (Sds [49]))
       [SAdd (Sds [49]), SAdd (Sds [50]), SAdd (Sds [49]), SAdd (Sds [48, 49]), SRemove (Sds [50])] =
       Some (obj, [True, True, False, True, True]) \<and>
     setTypeSize obj = 2"
proof -
  let ?ops = "[SAdd (Sds [49]), SAdd (Sds [50]), SAdd (Sds [49]), SAdd (Sds [48, 49]), SRemove (Sds [50])]"
  have s: "spec_set_ops {} ?ops = ({Sds [49], Sds [48, 49]}, [True, True, False, True, True])"
    by (auto simp: Sds_eq)
  have "se_max_intset ex_env < 2 ^ 29 - 1" "card (added ?ops) < 2 ^ 61"
    by (simp_all add: ex_env_def card_insert_if)
  moreover have "ll_sds (sint LLONG_MIN) \<notin> added ?ops"
    using ll_sds_min_long [of "[49]"] ll_sds_min_long [of "[50]"] ll_sds_min_long [of "[48, 49]"] by auto
  ultimately show ?thesis using set_type_refines_set [of ex_env ?ops "Sds [49]"]
    unfolding s by (auto simp: Sds_eq)
qed

text \<open>
  C40. \<open>LLONG_MIN\<close> in a set: the string is an integer for \<open>string2ll\<close>, so adding it to a new set stores
  it in the integer set and succeeds, but from then on adding a string that is not an integer,
  which converts the set, and reading the first element with \<open>setTypeNextObject\<close> both negate
  \<open>LLONG_MIN\<close> in \<open>sdsll2str\<close>, which is undefined.
\<close>

theorem set_type_llong_min:
  assumes "0 < se_max_intset env" "se_max_intset env < 2 ^ 29 - 1" "isSdsRepresentableAsLongLong val = None"
  shows "\<exists>obj. setTypeAdd env (setTypeCreate env (ll_sds (sint LLONG_MIN))) (ll_sds (sint LLONG_MIN)) = Some (obj, True) \<and>
    setTypeAdd env obj val = None \<and> setTypeNextObject obj (setTypeInitIterator obj) = None"
proof -
  have emp: "intset_inv intsetNew" "set (intset_abs intsetNew) = {}" "unat (intsetLen intsetNew) = 0"
    using intsetNew_inv by (simp_all add: intsetLen_def intsetNew_def)
  obtain s where s: "intsetAdd (se_junk env) intsetNew LLONG_MIN = Some (s, True)" "intset_inv s"
      "int_strings s = {ll_sds (sint LLONG_MIN)}"
    using intset_add_cases [OF emp(1), of "se_junk env" LLONG_MIN] emp(2,3) by (auto simp: int_strings_def)
  have len: "unat (intsetLen s) = 1" using int_strings_card [OF s(2)] s(3) by simp
  have "sint LLONG_MIN \<in> set (intset_abs s)" using s(3) int_strings_ll [of LLONG_MIN s] by simp
  moreover have "length (intset_abs s) = 1" using len by (simp add: intset_abs_def intsetLen_def)
  ultimately have abs: "intset_abs s = [sint LLONG_MIN]" by (auto simp: length_Suc_conv)
  obtain v where v: "setTypeNext (IntsetObj s) (IterIntset 0) = Some (IntsetObj s, IterIntset 1, Some (LlEle v))"
      "sint v = sint LLONG_MIN"
    using intset_rank_word [OF s(2), of 0] len abs by auto
  have vm: "v = LLONG_MIN" using v(2) by (simp add: sint_eq_iff)
  have add: "setTypeAdd env (setTypeCreate env (ll_sds (sint LLONG_MIN))) (ll_sds (sint LLONG_MIN)) = Some (IntsetObj s, True)"
    using s(1) len assms(1) by (simp add: setTypeCreate_def setTypeAdd_def createIntsetObject_def)
  have "setTypeNextObject (IntsetObj s) (setTypeInitIterator (IntsetObj s)) = None"
    using v(1) by (simp add: setTypeNextObject_def setTypeInitIterator_def vm sdsfromlonglong_min)
  moreover have "setTypeConvert env (IntsetObj s) = None"
    using v(1) by (simp add: setTypeConvert_def setTypeInitIterator_def Let_def) (subst convert_loop.simps, simp add: vm sdsfromlonglong_min)
  then have "setTypeAdd env (IntsetObj s) val = None" using assms(3) by (simp add: setTypeAdd_def)
  ultimately show ?thesis using add by blast
qed

theorem set_type_llong_min_witness:
  "\<exists>obj. setTypeAdd ex_env (setTypeCreate ex_env (ll_sds (sint LLONG_MIN))) (ll_sds (sint LLONG_MIN)) = Some (obj, True) \<and>
    setTypeAdd ex_env obj (Sds []) = None"
proof -
  have "isSdsRepresentableAsLongLong (Sds []) = None"
    by (simp add: isSdsRepresentableAsLongLong_def Sds_inverse string2ll_def)
  then show ?thesis using set_type_llong_min [of ex_env "Sds []"] by (auto simp: ex_env_def)
qed

subsection \<open>Iteration\<close>

text \<open>\<open>n\<close> calls of \<open>setTypeNextObject\<close>.\<close>

primrec next_objects :: "nat \<Rightarrow> set_obj \<Rightarrow> set_iter \<Rightarrow> (set_obj \<times> set_iter \<times> sds option list) option" where
  "next_objects 0 obj si = Some (obj, si, [])"
| "next_objects (Suc n) obj si =
     do { (obj, si, x) \<leftarrow> setTypeNextObject obj si; (obj, si, xs) \<leftarrow> next_objects n obj si; Some (obj, si, x # xs) }"

text \<open>The strings that an iterator has still to return.\<close>

fun iter_left :: "set_obj \<Rightarrow> set_iter \<Rightarrow> sds list \<Rightarrow> bool" where
  "iter_left (IntsetObj s) (IterIntset i) xs \<longleftrightarrow>
     (\<exists>n \<le> unat (intsetLen s). i = int n \<and> xs = map ll_sds (drop n (intset_abs s)))"
| "iter_left (HTObj d) (IterHT di) xs \<longleftrightarrow> iter_ok d di \<and> \<not> it_safe di \<and> xs = map fst (iter_rest d di)"
| "iter_left _ _ _ \<longleftrightarrow> False"

lemma next_object_cons:
  assumes "set_ok env obj" "iter_left obj si (x # xs)"
  shows "\<exists>si'. setTypeNextObject obj si = Some (obj, si', Some x) \<and> iter_left obj si' xs"
proof (cases obj)
  case (IntsetObj s)
  then obtain n where n: "n \<le> unat (intsetLen s)" "si = IterIntset (int n)" "x # xs = map ll_sds (drop n (intset_abs s))"
    using assms(2) by (cases si) auto
  have len: "length (intset_abs s) = unat (intsetLen s)" by (simp add: intset_abs_def intsetLen_def)
  have n': "n < unat (intsetLen s)" using n(1,3) len by (cases "n = unat (intsetLen s)") auto
  obtain v where v: "setTypeNext (IntsetObj s) (IterIntset (int n)) = Some (IntsetObj s, IterIntset (int (Suc n)), Some (LlEle v))"
      "sint v = intset_abs s ! n"
    using intset_rank_word [OF _ n'] assms(1) IntsetObj by (auto simp: set_ok_def)
  have "intset_abs s ! n \<in> set (intset_abs s)" using n' len by simp
  then have "v \<noteq> LLONG_MIN" using v(2) assms(1) IntsetObj by (auto simp: set_ok_def)
  from sdsfromlonglong_dec [OF this] have str: "sdsfromlonglong v = Some (ll_sds (sint v))" .
  have "drop n (intset_abs s) = intset_abs s ! n # drop (Suc n) (intset_abs s)" using n' len by (simp add: Cons_nth_drop_Suc)
  then have "x = ll_sds (sint v)" "xs = map ll_sds (drop (Suc n) (intset_abs s))" using n(3) v(2) by simp_all
  then show ?thesis using v n' IntsetObj n(2)
    by (intro exI [of _ "IterIntset (int (Suc n))"])
      (auto simp: setTypeNextObject_def str intro!: exI [of _ "Suc n"])
next
  case (HTObj d)
  then obtain di where di: "si = IterHT di" "iter_ok d di" "\<not> it_safe di" "x # xs = map fst (iter_rest d di)"
    using assms(2) by (cases si) auto
  then obtain e es where e: "iter_rest d di = e # es" "x = fst e" "xs = map fst es" by (cases "iter_rest d di") auto
  have "dict_ok d" using assms(1) HTObj by (simp add: set_ok_def)
  from dictNext_spec [OF this di(2) refl] e(1) di(3)
  obtain di' where "\<not> it_safe di'" "iter_ok d di'" "dictNext d di = Some (d, di', Some e)" "iter_rest d di' = es" by auto
  then show ?thesis using HTObj di(1) e
    by (intro exI [of _ "IterHT di'"]) (simp add: setTypeNextObject_def setTypeNext_def)
qed

lemma next_object_nil:
  assumes "set_ok env obj" "iter_left obj si []"
  shows "\<exists>si'. setTypeNextObject obj si = Some (obj, si', None)"
proof (cases obj)
  case (IntsetObj s)
  then obtain n where n: "n \<le> unat (intsetLen s)" "si = IterIntset (int n)" "[] = map ll_sds (drop n (intset_abs s))"
    using assms(2) by (cases si) auto
  have "length (intset_abs s) = unat (intsetLen s)" by (simp add: intset_abs_def intsetLen_def)
  then have "n = unat (intsetLen s)" using n by simp
  moreover have "intset_inv s" using assms(1) IntsetObj by (simp add: set_ok_def)
  ultimately show ?thesis using intsetGet_rank [of s "intsetLen s"] IntsetObj n(2)
    by (simp add: setTypeNextObject_def setTypeNext_def)
next
  case (HTObj d)
  then obtain di where di: "si = IterHT di" "iter_ok d di" "\<not> it_safe di" "[] = map fst (iter_rest d di)"
    using assms(2) by (cases si) auto
  have "dict_ok d" using assms(1) HTObj by (simp add: set_ok_def)
  from dictNext_spec [OF this di(2) refl] di(3,4)
  obtain di' where "dictNext d di = Some (d, di', None)" by auto
  then show ?thesis using HTObj di(1) by (simp add: setTypeNextObject_def setTypeNext_def)
qed

lemma next_objects_all:
  "set_ok env obj \<Longrightarrow> iter_left obj si xs \<Longrightarrow>
   \<exists>si'. next_objects (Suc (length xs)) obj si = Some (obj, si', map Some xs @ [None])"
proof (induction xs arbitrary: si)
  case Nil
  then show ?case using next_object_nil [OF Nil] by auto
next
  case (Cons x xs)
  obtain s1 where "setTypeNextObject obj si = Some (obj, s1, Some x)" "iter_left obj s1 xs"
    using next_object_cons [OF Cons.prems] by blast
  moreover obtain si' where "next_objects (Suc (length xs)) obj s1 = Some (obj, si', map Some xs @ [None])"
    using Cons.IH [OF Cons.prems(1)] calculation(2) by blast
  ultimately show ?case unfolding list.size(4) add_0_right add_Suc_right by (subst next_objects.simps(2)) (simp del: next_objects.simps)
qed

lemma iter_init:
  assumes "set_ok env obj"
  shows "\<exists>xs. iter_left obj (setTypeInitIterator obj) xs \<and> distinct xs \<and> set xs = set_elems obj"
proof (cases obj)
  case (IntsetObj s)
  then have inv: "intset_inv s" using assms by (simp add: set_ok_def)
  have "distinct (map ll_sds (intset_abs s))"
    using inv ll_sds_abs_inj [OF inv] by (auto simp: distinct_map inj_on_def intset_inv_def strict_sorted_iff)
  then show ?thesis using IntsetObj int_strings_abs [OF inv]
    by (auto simp: setTypeInitIterator_def set_elems_def intro!: exI [of _ "map ll_sds (intset_abs s)"])
next
  case (HTObj d)
  then have ok: "dict_ok d" using assms by (simp add: set_ok_def)
  have "rehashidx d = -1 \<Longrightarrow> entries (ht1 d) = []" using ok by (simp add: dict_ok_def)
  then have rest: "iter_rest d dictGetIterator = dict_entries d"
    by (auto simp: iter_rest_def buckets_left_def dictGetIterator_def dict_entries_def
        entries_def the_ht_def dictIsRehashing_def)
  have "distinct (map fst (dict_entries d))" using ok by (simp add: dict_ok_def)
  then show ?thesis using HTObj rest dict_map_dom [of d]
    by (intro exI [of _ "map fst (dict_entries d)"])
      (auto simp: setTypeInitIterator_def set_elems_def iter_ok_def dictGetIterator_def)
qed

text \<open>
  C21. Iterating over a set object of either encoding with \<open>setTypeNextObject\<close> yields every element
  exactly once as a string, then \<open>NULL\<close>, and leaves the object as it is.  The object satisfies the
  invariant of sets; in particular an integer set is below the limit and without \<open>LLONG_MIN\<close>.
\<close>

theorem set_type_iteration:
  assumes "set_ok env obj"
  shows "\<exists>xs si. next_objects (Suc (setTypeSize obj)) obj (setTypeInitIterator obj) = Some (obj, si, map Some xs @ [None]) \<and>
    distinct xs \<and> set xs = set_elems obj"
proof -
  obtain xs where xs: "iter_left obj (setTypeInitIterator obj) xs" "distinct xs" "set xs = set_elems obj"
    using iter_init [OF assms] by blast
  then have "setTypeSize obj = length xs" using setTypeSize_card [OF assms] by (metis distinct_card)
  then show ?thesis using next_objects_all [OF assms xs(1)] xs(2,3) by auto
qed

theorem set_type_iteration_witness:
  "\<exists>xs si. next_objects 3 (IntsetObj intset_13) (IterIntset 0) = Some (IntsetObj intset_13, si, map Some xs @ [None]) \<and>
     set xs = {Sds [49], Sds [51]}"
proof -
  have "sint LLONG_MIN < 0" by (simp add: ll_limits)
  then have ok: "set_ok (ex_env\<lparr>se_max_intset := 512\<rparr>) (IntsetObj intset_13)"
    using intset_13_inv intset_13_abs by (auto simp: set_ok_def intsetLen_def intset_13_def)
  have "set_elems (IntsetObj intset_13) = {Sds [49], Sds [51]}"
    using int_strings_abs [OF intset_13_inv] intset_13_abs by (simp add: set_elems_def ll_sds_def sdec_def dec_small)
  moreover have "setTypeSize (IntsetObj intset_13) = 2" by (simp add: setTypeSize_def intsetLen_def intset_13_def)
  ultimately show ?thesis using set_type_iteration [OF ok]
    by (simp add: setTypeInitIterator_def numeral_3_eq_3 del: next_objects.simps) blast
qed

end
