(* ===== verification/Coding.thy ===== *)
theory Coding
  imports Interfaces
begin

section \<open>Encoding of integers and strings (\<open>leveldb-1.20/util/coding.cc\<close>)\<close>

text \<open>
  Fixed-width and variable-width integers and length-prefixed strings.  A string or slice is a
  list of bytes; an encoder returns the bytes it appends, a decoder the value and the rest of
  the input, or \<open>None\<close> where the C++ code returns \<open>false\<close> or a null pointer.
\<close>

unbundle bit_operations_syntax

text \<open>The results of operations that can fail (\<open>util/status.cc\<close>); the message is kept.\<close>

datatype status =
    StatusOK | NotFound string | Corruption string | NotSupported string | InvalidArgument string | IOError string

subsection \<open>Fixed-width integers\<close>

text \<open>The parameter is \<open>port::kLittleEndian\<close>; on such a machine the bytes are copied.\<close>

definition EncodeFixed32 :: "bool \<Rightarrow> 32 word \<Rightarrow> bytes" where
  "EncodeFixed32 le v =
     (if le then le_bytes 4 v
      else [ucast (v AND 0xff), ucast (drop_bit 8 v AND 0xff), ucast (drop_bit 16 v AND 0xff),
            ucast (drop_bit 24 v AND 0xff)])"

definition EncodeFixed64 :: "bool \<Rightarrow> 64 word \<Rightarrow> bytes" where
  "EncodeFixed64 le v =
     (if le then le_bytes 8 v
      else [ucast (v AND 0xff), ucast (drop_bit 8 v AND 0xff), ucast (drop_bit 16 v AND 0xff),
            ucast (drop_bit 24 v AND 0xff), ucast (drop_bit 32 v AND 0xff), ucast (drop_bit 40 v AND 0xff),
            ucast (drop_bit 48 v AND 0xff), ucast (drop_bit 56 v AND 0xff)])"

text \<open>The decoders read four or eight bytes at the start of a buffer.\<close>

definition DecodeFixed32 :: "bool \<Rightarrow> bytes \<Rightarrow> 32 word option" where
  "DecodeFixed32 le p =
     do {
       raw \<leftarrow> mem_read 0 4 p;
       Some (if le then le_word raw
             else ucast (raw ! 0) OR push_bit 8 (ucast (raw ! 1)) OR push_bit 16 (ucast (raw ! 2)) OR
                  push_bit 24 (ucast (raw ! 3))) }"

definition DecodeFixed64 :: "bool \<Rightarrow> bytes \<Rightarrow> 64 word option" where
  "DecodeFixed64 le p =
     (if le then do { raw \<leftarrow> mem_read 0 8 p; Some (le_word raw) }
      else do {
        lo \<leftarrow> DecodeFixed32 le p;
        raw \<leftarrow> mem_read 4 4 p;
        hi \<leftarrow> DecodeFixed32 le raw;
        Some (push_bit 32 (ucast hi) OR ucast lo) })"

definition PutFixed32 :: "bool \<Rightarrow> bytes \<Rightarrow> 32 word \<Rightarrow> bytes" where
  "PutFixed32 le dst v = dst @ EncodeFixed32 le v"

definition PutFixed64 :: "bool \<Rightarrow> bytes \<Rightarrow> 64 word \<Rightarrow> bytes" where
  "PutFixed64 le dst v = dst @ EncodeFixed64 le v"

subsection \<open>Variable-width integers\<close>

definition EncodeVarint32 :: "32 word \<Rightarrow> bytes" where
  "EncodeVarint32 v =
     (if v < 2 ^ 7 then [ucast v]
      else if v < 2 ^ 14 then [ucast (v OR 128), ucast (drop_bit 7 v)]
      else if v < 2 ^ 21 then [ucast (v OR 128), ucast (drop_bit 7 v OR 128), ucast (drop_bit 14 v)]
      else if v < 2 ^ 28 then
        [ucast (v OR 128), ucast (drop_bit 7 v OR 128), ucast (drop_bit 14 v OR 128), ucast (drop_bit 21 v)]
      else
        [ucast (v OR 128), ucast (drop_bit 7 v OR 128), ucast (drop_bit 14 v OR 128),
         ucast (drop_bit 21 v OR 128), ucast (drop_bit 28 v)])"

lemma varint_shift_less: "128 \<le> v \<Longrightarrow> unat (drop_bit 7 v) < unat (v :: 64 word)"
  by (simp add: drop_bit_eq_div unat_div_distrib word_le_nat_alt)

function EncodeVarint64 :: "64 word \<Rightarrow> bytes" where
  "EncodeVarint64 v =
     (if v \<ge> 128 then ucast ((v AND (128 - 1)) OR 128) # EncodeVarint64 (drop_bit 7 v) else [ucast v])"
  by pat_completeness auto
termination
  by (relation "measure unat") (auto simp: varint_shift_less)

declare EncodeVarint64.simps [simp del]

definition PutVarint32 :: "bytes \<Rightarrow> 32 word \<Rightarrow> bytes" where
  "PutVarint32 dst v = dst @ EncodeVarint32 v"

definition PutVarint64 :: "bytes \<Rightarrow> 64 word \<Rightarrow> bytes" where
  "PutVarint64 dst v = dst @ EncodeVarint64 v"

text \<open>\<open>value.size()\<close> is converted to 32 bits.\<close>

definition PutLengthPrefixedSlice :: "bytes \<Rightarrow> bytes \<Rightarrow> bytes" where
  "PutLengthPrefixedSlice dst v = PutVarint32 dst (of_nat (length v)) @ v"

function VarintLength_loop :: "64 word \<Rightarrow> nat \<Rightarrow> nat" where
  "VarintLength_loop v len = (if v \<ge> 128 then VarintLength_loop (drop_bit 7 v) (len + 1) else len)"
  by pat_completeness auto
termination
  by (relation "measure (\<lambda>(v, len). unat v)") (auto simp: varint_shift_less)

declare VarintLength_loop.simps [simp del]

definition VarintLength :: "64 word \<Rightarrow> nat" where
  "VarintLength v = VarintLength_loop v 1"

text \<open>
  The loop of both decoders: \<open>shift\<close> runs up to \<open>28\<close> for 32 bits and up to \<open>63\<close> for 64 bits.
\<close>

fun varint_loop :: "nat \<Rightarrow> nat \<Rightarrow> 'a::len word \<Rightarrow> bytes \<Rightarrow> ('a word \<times> bytes) option" where
  "varint_loop lim shift result [] = None"
| "varint_loop lim shift result (b # p) =
     (if \<not> shift \<le> lim then None
      else (let byte = ucast b :: 'a word in
        if b AND 128 \<noteq> 0 then varint_loop lim (shift + 7) (result OR push_bit shift (byte AND 127)) p
        else Some (result OR push_bit shift byte, p)))"

definition GetVarint32PtrFallback :: "bytes \<Rightarrow> (32 word \<times> bytes) option" where
  "GetVarint32PtrFallback p = varint_loop 28 0 0 p"

definition GetVarint64Ptr :: "bytes \<Rightarrow> (64 word \<times> bytes) option" where
  "GetVarint64Ptr p = varint_loop 63 0 0 p"

definition GetVarint32Ptr :: "bytes \<Rightarrow> (32 word \<times> bytes) option" where
  "GetVarint32Ptr p =
     (case p of
        b # q \<Rightarrow> if b AND 128 = 0 then Some (ucast b, q) else GetVarint32PtrFallback p
      | [] \<Rightarrow> GetVarint32PtrFallback p)"

definition GetVarint32 :: "bytes \<Rightarrow> (32 word \<times> bytes) option" where
  "GetVarint32 input = GetVarint32Ptr input"

definition GetVarint64 :: "bytes \<Rightarrow> (64 word \<times> bytes) option" where
  "GetVarint64 input = GetVarint64Ptr input"

text \<open>\<open>Slice::remove_prefix\<close>, with its assertion.\<close>

definition remove_prefix :: "nat \<Rightarrow> bytes \<Rightarrow> bytes option" where
  "remove_prefix n s = (if n \<le> length s then Some (drop n s) else None)"

text \<open>\<open>GetLengthPrefixedSlice\<close>: the inner \<open>None\<close> is the result \<open>false\<close>, the outer one an access outside of the input.\<close>

definition GetLengthPrefixedSlice :: "bytes \<Rightarrow> (bytes \<times> bytes) option option" where
  "GetLengthPrefixedSlice input =
     (case GetVarint32 input of
        None \<Rightarrow> Some None
      | Some (len, input) \<Rightarrow>
          if length input \<ge> unat len then
            do {
              result \<leftarrow> mem_read 0 (unat len) input;
              input \<leftarrow> remove_prefix (unat len) input;
              Some (Some (result, input)) }
          else Some None)"

subsection \<open>Fixed-width integers: both byte orders agree\<close>

lemma le_word_bits: "bit (le_word bs :: 'a::len word) n \<Longrightarrow> n < LENGTH('a)"
  by (simp add: bit_le_word)

lemma le_bytes_4: "le_bytes 4 w = [ucast w, ucast (drop_bit 8 w), ucast (drop_bit 16 w), ucast (drop_bit 24 w)]"
  by (simp add: le_bytes_def upt_rec)

lemma ucast_and_ff: "(ucast (w AND 0xff) :: 8 word) = ucast (w :: 'a::len word)"
proof -
  have m: "(0xff :: 'a word) = mask 8" by (simp add: mask_numeral)
  show ?thesis unfolding m by (rule bit_word_eqI) (auto simp: bit_simps dest: bit_imp_le_length)
qed

lemma EncodeFixed32_le: "EncodeFixed32 le v = le_bytes 4 v"
  by (simp add: EncodeFixed32_def le_bytes_def upt_rec ucast_and_ff)

lemma EncodeFixed64_le: "EncodeFixed64 le v = le_bytes 8 v"
  by (simp add: EncodeFixed64_def le_bytes_def upt_rec ucast_and_ff)

lemma mem_read_prefix: "length a = n \<Longrightarrow> mem_read 0 n (a @ b) = Some a"
  by (simp add: mem_read_def)

lemma le_word_4:
  "length raw = 4 \<Longrightarrow> le_word raw =
     (ucast (raw ! 0) OR push_bit 8 (ucast (raw ! 1)) OR push_bit 16 (ucast (raw ! 2)) OR
      push_bit 24 (ucast (raw ! 3)) :: 'a::len word)"
  by (auto simp: numeral_eq_Suc length_Suc_conv push_bit_or)

lemma DecodeFixed32_le: "DecodeFixed32 le p = map_option le_word (mem_read 0 4 p)"
  by (auto simp: DecodeFixed32_def le_word_4 mem_read_def)

lemma Fixed32_roundtrip: "DecodeFixed32 le (EncodeFixed32 le' v @ rest) = Some v"
  by (simp add: DecodeFixed32_le EncodeFixed32_le mem_read_prefix le_word_le_bytes)

lemma le_word_append:
  assumes "length a = 4" "length b = 4"
  shows "(le_word (a @ b) :: 64 word) = push_bit 32 (ucast (le_word b :: 32 word)) OR ucast (le_word a :: 32 word)"
proof (rule bit_word_eqI)
  fix k assume k: "k < LENGTH(64)"
  show "bit (le_word (a @ b) :: 64 word) k =
      bit (push_bit 32 (ucast (le_word b :: 32 word)) OR ucast (le_word a :: 32 word) :: 64 word) k"
  proof (cases "k < 32")
    case True
    then have "k div 8 < 4" by simp
    then show ?thesis using True assms by (simp add: bit_simps bit_le_word nth_append)
  next
    case False
    define j where "j = k - 32"
    have j: "k = j + 32" "j < 32" using False k by (simp_all add: j_def)
    have "k div 8 = j div 8 + 4" "k mod 8 = j mod 8" unfolding j(1) by presburger+
    moreover have "j div 8 < 4" using j(2) by simp
    ultimately show ?thesis using j assms by (simp add: bit_simps bit_le_word nth_append)
  qed
qed

lemma DecodeFixed64_le: "DecodeFixed64 le p = map_option le_word (mem_read 0 8 p)"
proof (cases "le \<or> length p < 8")
  case True
  then show ?thesis by (auto simp: DecodeFixed64_def mem_read_def DecodeFixed32_le)
next
  case False
  then have l: "length (take 4 p) = 4" "length (take 4 (drop 4 p)) = 4" "4 \<le> length p - 4" "8 \<le> length p" by auto
  have "take 8 p = take 4 p @ take 4 (drop 4 p)" by (simp flip: take_add)
  then show ?thesis using False l le_word_append [OF l(1,2)]
    by (simp add: DecodeFixed64_def mem_read_def DecodeFixed32_le)
qed

lemma Fixed64_roundtrip: "DecodeFixed64 le (EncodeFixed64 le' v @ rest) = Some v"
  by (simp add: DecodeFixed64_le EncodeFixed64_le mem_read_prefix le_word_le_bytes)

subsection \<open>Arrays of fixed-width integers\<close>

lemma length_Encode_chunks: "length (concat (map (EncodeFixed32 le) xs)) = 4 * length xs"
  by (rule length_chunks) (simp add: EncodeFixed32_le)

lemma Decode_chunk:
  assumes "i < length xs"
  shows "DecodeFixed32 le' (drop (4 * i) (concat (map (EncodeFixed32 le) xs) @ post)) = Some (xs ! i)"
proof -
  have "mem_read (4 * i) 4 (concat (map (EncodeFixed32 le) xs) @ post) = Some (EncodeFixed32 le (xs ! i))"
    using assms by (intro mem_read_chunk) (simp_all add: EncodeFixed32_le)
  then have "mem_read 0 4 (drop (4 * i) (concat (map (EncodeFixed32 le) xs) @ post)) = Some (EncodeFixed32 le (xs ! i))"
    by (auto simp: mem_read_def split: if_splits)
  then show ?thesis by (simp add: DecodeFixed32_le EncodeFixed32_le le_word_le_bytes)
qed

subsection \<open>Variable-width integers\<close>

text \<open>The reference encoding: base 128, least significant digit first, top bit for "more".\<close>

fun enc_nat :: "nat \<Rightarrow> bytes" where
  "enc_nat n = (if n \<ge> 128 then of_nat (n mod 128 + 128) # enc_nat (n div 128) else [of_nat n])"

declare enc_nat.simps [simp del]

lemma bit_128: "bit (128 :: 'a::semiring_bit_operations) n \<longleftrightarrow> possible_bit TYPE('a) n \<and> n = 7"
proof -
  have "(128 :: 'a) = 2 ^ 7" by simp
  then show ?thesis by (simp only: bit_exp_iff)
qed

lemma add_128: "n mod 128 + 128 = take_bit 7 n OR (128 :: nat)"
proof -
  have "take_bit 7 n + 128 = take_bit 7 n OR (128 :: nat)"
    by (rule disjunctive_add) (simp add: bit_128 bit_take_bit_iff)
  then show ?thesis by (simp add: take_bit_eq_mod)
qed

lemma more_byte: "(of_nat (unat w mod 128 + 128) :: 8 word) = ucast (w :: 'a::len word) OR 128"
  unfolding add_128 by (rule bit_word_eqI) (auto simp: bit_simps bit_128)

lemma and_127: "v AND 127 = take_bit 7 (v :: 'a::len word)"
proof -
  have "(127 :: 'a word) = mask 7" by (simp add: mask_numeral)
  then show ?thesis by (simp add: take_bit_eq_mask)
qed

lemma ucast_or_128: "(ucast (w OR 128) :: 8 word) = ucast (w :: 32 word) OR 128"
  by (rule bit_word_eqI) (auto simp: bit_simps bit_128)

lemma EncodeVarint64_enc: "EncodeVarint64 v = enc_nat (unat v)"
proof (induction v rule: EncodeVarint64.induct)
  case (1 v)
  show ?case
  proof (cases "v \<ge> 128")
    case True
    have "(ucast ((v AND (128 - 1)) OR 128) :: 8 word) = ucast v OR 128"
      by (rule bit_word_eqI) (auto simp: and_127 bit_simps bit_128)
    then have h: "(ucast ((v AND (128 - 1)) OR 128) :: 8 word) = of_nat (unat v mod 128 + 128)"
      by (simp only: more_byte)
    have "unat (drop_bit 7 v) = unat v div 128" by (simp add: drop_bit_eq_div unat_div_distrib)
    then show ?thesis using "1.IH" [OF True] True h
      by (subst EncodeVarint64.simps, subst enc_nat.simps) (simp add: word_le_nat_alt)
  next
    case False
    then have "\<not> 128 \<le> unat v" by (simp add: word_le_nat_alt)
    then show ?thesis using False by (subst EncodeVarint64.simps, subst enc_nat.simps) simp
  qed
qed

lemma EncodeVarint32_enc: "EncodeVarint32 v = enc_nat (unat v)"
proof -
  have m: "(ucast (drop_bit k v OR 128) :: 8 word) = of_nat (unat v div 2 ^ k mod 128 + 128)" for k
    using more_byte [of "drop_bit k v"] by (simp add: ucast_or_128 unat_drop_bit_eq flip: drop_bit_eq_div)
  have m0: "(ucast (v OR 128) :: 8 word) = of_nat (unat v mod 128 + 128)"
    by (simp only: ucast_or_128 more_byte)
  have u: "(ucast (drop_bit k v) :: 8 word) = of_nat (unat v div 2 ^ k)" for k
    by (simp add: unat_drop_bit_eq flip: drop_bit_eq_div) (metis of_nat_unat unat_drop_bit_eq)
  have lim: "unat v < 2 ^ 32" using unat_less [of v] by simp
  define n where "n = unat v"
  have b: "(ucast v :: 8 word) = of_nat n" using u [of 0] by (simp add: n_def)
  have pow: "unat (2 ^ 7 :: 32 word) = 2 ^ 7" "unat (2 ^ 14 :: 32 word) = 2 ^ 14" "unat (2 ^ 21 :: 32 word) = 2 ^ 21"
    "unat (2 ^ 28 :: 32 word) = 2 ^ 28" by simp_all
  have E: "EncodeVarint32 v =
     (if n < 2 ^ 7 then [of_nat n]
      else if n < 2 ^ 14 then [of_nat (n mod 128 + 128), of_nat (n div 2 ^ 7)]
      else if n < 2 ^ 21 then [of_nat (n mod 128 + 128), of_nat (n div 2 ^ 7 mod 128 + 128), of_nat (n div 2 ^ 14)]
      else if n < 2 ^ 28 then
        [of_nat (n mod 128 + 128), of_nat (n div 2 ^ 7 mod 128 + 128), of_nat (n div 2 ^ 14 mod 128 + 128), of_nat (n div 2 ^ 21)]
      else
        [of_nat (n mod 128 + 128), of_nat (n div 2 ^ 7 mod 128 + 128), of_nat (n div 2 ^ 14 mod 128 + 128),
         of_nat (n div 2 ^ 21 mod 128 + 128), of_nat (n div 2 ^ 28)])"
    unfolding EncodeVarint32_def word_less_nat_alt pow m m0 u b n_def [symmetric] ..
  have d: "n div 2 ^ 7 = n div 128" "n div 2 ^ 14 = n div 128 div 128" "n div 2 ^ 21 = n div 128 div 128 div 128"
      "n div 2 ^ 28 = n div 128 div 128 div 128 div 128"
    by (simp_all add: div_mult2_eq [symmetric])
  have ge: "k \<ge> 128 \<Longrightarrow> enc_nat k = of_nat (k mod 128 + 128) # enc_nat (k div 128)" for k
    by (subst enc_nat.simps) simp
  have lt: "k < 128 \<Longrightarrow> enc_nat k = [of_nat k]" for k by (subst enc_nat.simps) simp
  have "n < 2 ^ 32" using lim by (simp add: n_def)
  then show ?thesis unfolding E n_def [symmetric] d
    by (auto simp: ge lt div_less_iff_less_mult less_eq_div_iff_mult_less_eq not_less)
qed

lemma and_128_more: "(of_nat (n mod 128 + 128) :: 8 word) AND 128 \<noteq> 0"
proof
  assume "(of_nat (n mod 128 + 128) :: 8 word) AND 128 = 0"
  then have "\<not> bit ((of_nat (n mod 128 + 128) :: 8 word) AND 128) 7" by simp
  then show False unfolding add_128 by (simp add: bit_simps bit_128)
qed

lemma and_128_last: "n < 128 \<Longrightarrow> (of_nat n :: 8 word) AND 128 = 0"
proof -
  assume "n < 128"
  then have n: "n = take_bit 7 n" by (simp add: take_bit_nat_eq_self)
  show "(of_nat n :: 8 word) AND 128 = 0"
    by (subst n, rule bit_word_eqI) (auto simp: bit_simps bit_128)
qed

lemma ucast_more: "(ucast (of_nat (n mod 128 + 128) :: 8 word) :: 'a::len word) AND 127 = of_nat (n mod 128)"
proof -
  have m: "n mod 128 = take_bit 7 n" by (simp add: take_bit_eq_mod)
  show ?thesis unfolding add_128 and_127 unfolding m by (rule bit_word_eqI) (auto simp: bit_simps bit_128)
qed

lemma ucast_last: "n < 128 \<Longrightarrow> (ucast (of_nat n :: 8 word) :: 'a::len word) = of_nat n"
proof -
  assume "n < 128"
  then have n: "n = take_bit 7 n" by (simp add: take_bit_nat_eq_self)
  show "(ucast (of_nat n :: 8 word) :: 'a::len word) = of_nat n"
    by (subst (1 2) n, rule bit_word_eqI) (auto simp: bit_simps)
qed

lemma split_7: "(of_nat n :: 'a::len word) = of_nat (n mod 128) OR push_bit 7 (of_nat (n div 128))"
proof -
  have "n mod 128 = take_bit 7 n" "n div 128 = drop_bit 7 n" by (simp_all add: take_bit_eq_mod drop_bit_eq_div)
  then show ?thesis by (simp only:) (rule bit_word_eqI, auto simp: bit_simps)
qed

lemma varint_loop_enc:
  assumes "\<forall>s. 7 dvd s \<and> s < LENGTH('a) \<longrightarrow> s \<le> lim" "7 dvd shift" "shift < LENGTH('a)" "n < 2 ^ (LENGTH('a) - shift)"
  shows "varint_loop lim shift (r :: 'a::len word) (enc_nat n @ rest) = Some (r OR push_bit shift (of_nat n), rest)"
  using assms(2-)
proof (induction n arbitrary: shift r rule: enc_nat.induct)
  case (1 n)
  have sl: "shift \<le> lim" using assms(1) 1(2,3) by blast
  show ?case
  proof (cases "n \<ge> 128")
    case True
    have "(2::nat) ^ 7 < 2 ^ (LENGTH('a) - shift)" using True 1(4) by simp
    then have s7: "shift + 7 < LENGTH('a)" by (simp only: power_strict_increasing_iff)
    have "(2::nat) ^ (LENGTH('a) - shift) = 2 ^ (LENGTH('a) - (shift + 7)) * 128"
      using power_add [of "2::nat" "LENGTH('a) - (shift + 7)" 7] s7 by simp
    then have n7: "n div 128 < 2 ^ (LENGTH('a) - (shift + 7))" using 1(4) by (simp add: less_mult_imp_div_less)
    have "varint_loop lim shift r (enc_nat n @ rest) =
        varint_loop lim (shift + 7) (r OR push_bit shift (of_nat (n mod 128))) (enc_nat (n div 128) @ rest)"
      using True sl and_128_more [of n] ucast_more [where 'a = 'a, of n]
      by (subst enc_nat.simps) (simp del: of_nat_add push_bit_and)
    also have "\<dots> = Some (r OR push_bit shift (of_nat (n mod 128)) OR push_bit (shift + 7) (of_nat (n div 128)), rest)"
      using "1.IH" [OF True, of "shift + 7"] 1(2) s7 n7 by (simp add: or.assoc)
    also have "push_bit shift (of_nat (n mod 128)) OR push_bit (shift + 7) (of_nat (n div 128)) = push_bit shift (of_nat n :: 'a word)"
      by (subst split_7 [of n]) (simp add: push_bit_or)
    finally show ?thesis .
  next
    case False
    then show ?thesis using sl and_128_last [of n] ucast_last [where 'a = 'a, of n]
      by (subst enc_nat.simps) simp
  qed
qed

subsection \<open>Round trips\<close>

lemma GetVarint32_enc: "GetVarint32 (EncodeVarint32 v @ rest) = Some (v, rest)"
proof -
  have f: "varint_loop 28 0 0 (enc_nat (unat v) @ rest) = Some (v, rest)"
  proof -
    have "\<forall>s. 7 dvd s \<and> s < LENGTH(32) \<longrightarrow> s \<le> 28" by (auto elim!: dvdE)
    then show ?thesis using varint_loop_enc [of 28 0 "unat v" "0 :: 32 word" rest] unat_less [of v] by simp
  qed
  have "GetVarint32Ptr (enc_nat (unat v) @ rest) = Some (v, rest)"
  proof (cases "unat v \<ge> 128")
    case True
    then have "enc_nat (unat v) = of_nat (unat v mod 128 + 128) # enc_nat (unat v div 128)" by (subst enc_nat.simps) simp
    then show ?thesis using f and_128_more [of "unat v"]
      by (simp add: GetVarint32Ptr_def GetVarint32PtrFallback_def del: of_nat_add)
  next
    case False
    then have "enc_nat (unat v) = [of_nat (unat v)]" by (subst enc_nat.simps) simp
    then show ?thesis using False and_128_last [of "unat v"] ucast_last [where 'a = 32, of "unat v"]
      by (simp add: GetVarint32Ptr_def)
  qed
  then show ?thesis by (simp add: GetVarint32_def EncodeVarint32_enc)
qed

lemma GetVarint64_enc: "GetVarint64 (EncodeVarint64 v @ rest) = Some (v, rest)"
proof -
  have "\<forall>s. 7 dvd s \<and> s < LENGTH(64) \<longrightarrow> s \<le> 63" by auto
  then show ?thesis using varint_loop_enc [of 63 0 "unat v" "0 :: 64 word" rest] unat_less [of v]
    by (simp add: GetVarint64_def GetVarint64Ptr_def EncodeVarint64_enc)
qed

interpretation varint32: prefix_codec "\<lambda>_. True" EncodeVarint32 GetVarint32
  by unfold_locales (rule GetVarint32_enc)

interpretation varint64: prefix_codec "\<lambda>_. True" EncodeVarint64 GetVarint64
  by unfold_locales (rule GetVarint64_enc)

abbreviation short :: "bytes \<Rightarrow> bool" where
  "short s \<equiv> length s < 2 ^ 32"

lemma GetLengthPrefixedSlice_enc:
  assumes "short s"
  shows "GetLengthPrefixedSlice (PutLengthPrefixedSlice [] s @ rest) = Some (Some (s, rest))"
proof -
  have u: "unat (of_nat (length s) :: 32 word) = length s" by (rule unat_word_of_nat) (use assms in simp)
  show ?thesis
    by (simp add: PutLengthPrefixedSlice_def PutVarint32_def GetLengthPrefixedSlice_def varint32.dec_enc u
        mem_read_def remove_prefix_def)
qed

interpretation slice: prefix_codec short "PutLengthPrefixedSlice []" "\<lambda>p. Option.bind (GetLengthPrefixedSlice p) id"
  by unfold_locales (simp add: GetLengthPrefixedSlice_enc)

lemma GetLengthPrefixedSlice_safe: "\<exists>r. GetLengthPrefixedSlice p = Some r"
  by (auto simp: GetLengthPrefixedSlice_def mem_read_def remove_prefix_def split: option.split)

lemma PutLengthPrefixedSlice_append: "PutLengthPrefixedSlice dst s = dst @ PutLengthPrefixedSlice [] s"
  by (simp add: PutLengthPrefixedSlice_def PutVarint32_def)

lemma length_enc_nat: "n < 128 ^ k \<Longrightarrow> 0 < k \<Longrightarrow> length (enc_nat n) \<le> k"
proof (induction n arbitrary: k rule: enc_nat.induct)
  case (1 n)
  show ?case
  proof (cases "n \<ge> 128")
    case True
    obtain j where k: "k = Suc j" using 1(3) by (cases k) auto
    have "0 < j" using True 1(2) k by (cases j) auto
    note j = k this
    then have "n div 128 < 128 ^ j" using 1(2) by (simp add: less_mult_imp_div_less mult.commute)
    from "1.IH" [OF True this j(2)] show ?thesis using True j by (subst enc_nat.simps) simp
  qed (use 1 in \<open>subst enc_nat.simps, simp\<close>)
qed

lemma VarintLength_loop_enc: "Suc (VarintLength_loop v len) = len + length (EncodeVarint64 v)"
proof (induction v len rule: VarintLength_loop.induct)
  case (1 v len)
  then show ?case by (subst VarintLength_loop.simps, subst EncodeVarint64.simps) simp
qed

text \<open>
  C31.  The five hand-written cases of \<open>EncodeVarint32\<close> and the loop of \<open>EncodeVarint64\<close> compute the
  base-128 digits of the value, \<open>VarintLength\<close> is the length of the encoding, and the
  encodings fit the buffers of 5 and 10 bytes of \<open>PutVarint32\<close> and \<open>PutVarint64\<close>.
\<close>

theorem varint_format:
  "EncodeVarint32 v = enc_nat (unat v) \<and> EncodeVarint64 w = enc_nat (unat w) \<and>
   VarintLength w = length (EncodeVarint64 w) \<and>
   length (EncodeVarint32 v) \<le> 5 \<and> length (EncodeVarint64 w) \<le> 10"
proof -
  have "unat v < 128 ^ 5" "unat w < 128 ^ 10" using unat_less [of v] unat_less [of w] by simp_all
  then show ?thesis
    using length_enc_nat [of "unat v" 5] length_enc_nat [of "unat w" 10] VarintLength_loop_enc [of w 1]
    by (simp add: EncodeVarint32_enc EncodeVarint64_enc VarintLength_def)
qed

text \<open>
  C27.  The decoders read back what the encoders write, in front of any further bytes: fixed-width
  integers on both kinds of machines (also across them), varints of 32 and 64 bits, and
  length-prefixed strings of less than \<open>2 ^ 32\<close> bytes.
\<close>

theorem coding_roundtrip:
  assumes "length s < 2 ^ 32"
  shows "DecodeFixed32 le (EncodeFixed32 le' a @ rest) = Some a \<and>
    DecodeFixed64 le (EncodeFixed64 le' b @ rest) = Some b \<and>
    GetVarint32 (PutVarint32 [] a @ rest) = Some (a, rest) \<and>
    GetVarint64 (PutVarint64 [] b @ rest) = Some (b, rest) \<and>
    GetLengthPrefixedSlice (PutLengthPrefixedSlice [] s @ rest) = Some (Some (s, rest))"
  using GetLengthPrefixedSlice_enc [OF assms]
  by (simp add: Fixed32_roundtrip Fixed64_roundtrip PutVarint32_def PutVarint64_def varint32.dec_enc varint64.dec_enc)

theorem coding_roundtrip_witness:
  "GetLengthPrefixedSlice (PutLengthPrefixedSlice [] [1, 2, 3] @ [7]) = Some (Some ([1, 2, 3], [7])) \<and>
   GetVarint32 (PutVarint32 [] 300 @ [7]) = Some (300, [7])"
  using coding_roundtrip [of "[1, 2, 3]" True True 300 "[7]" 0] by simp

end
