(* ===== verification/WriteBatch.thy ===== *)
theory WriteBatch
  imports Coding
begin

section \<open>Write batches (\<open>leveldb-1.20/db/write_batch.cc\<close>)\<close>

text \<open>
  A batch of updates is one string: an 8-byte sequence number, a 4-byte count and the
  records.  A batch is modelled by that string; \<open>le\<close> is \<open>port::kLittleEndian\<close>.  A handler is a
  state and the functions that its methods \<open>Put\<close> and \<open>Delete\<close> apply to it.
\<close>

subsection \<open>Operations\<close>

definition kHeader :: nat where "kHeader = 12"

definition kTypeDeletion :: byte where "kTypeDeletion = 0"
definition kTypeValue :: byte where "kTypeValue = 1"

definition batch_Clear :: bytes where
  "batch_Clear = replicate kHeader 0"

text \<open>The count is an \<open>int\<close>, stored as 32 bits.\<close>

definition Count :: "bool \<Rightarrow> bytes \<Rightarrow> int option" where
  "Count le rep = do { p \<leftarrow> mem_read 8 4 rep; n \<leftarrow> DecodeFixed32 le p; Some (sint n) }"

definition SetCount :: "bool \<Rightarrow> bytes \<Rightarrow> int \<Rightarrow> bytes option" where
  "SetCount le rep n = mem_write 8 (EncodeFixed32 le (word_of_int n)) rep"

definition Sequence :: "bool \<Rightarrow> bytes \<Rightarrow> 64 word option" where
  "Sequence le rep = DecodeFixed64 le rep"

definition SetSequence :: "bool \<Rightarrow> bytes \<Rightarrow> 64 word \<Rightarrow> bytes option" where
  "SetSequence le rep s = mem_write 0 (EncodeFixed64 le s) rep"

definition batch_Put :: "bool \<Rightarrow> bytes \<Rightarrow> bytes \<Rightarrow> bytes \<Rightarrow> bytes option" where
  "batch_Put le rep key val =
     do {
       n \<leftarrow> Count le rep;
       n \<leftarrow> int_add n 1;
       rep \<leftarrow> SetCount le rep n;
       let rep = rep @ [kTypeValue];
       let rep = PutLengthPrefixedSlice rep key;
       Some (PutLengthPrefixedSlice rep val) }"

definition batch_Delete :: "bool \<Rightarrow> bytes \<Rightarrow> bytes \<Rightarrow> bytes option" where
  "batch_Delete le rep key =
     do {
       n \<leftarrow> Count le rep;
       n \<leftarrow> int_add n 1;
       rep \<leftarrow> SetCount le rep n;
       let rep = rep @ [kTypeDeletion];
       Some (PutLengthPrefixedSlice rep key) }"

lemma varint_loop_length: "varint_loop lim shift r p = Some (v, q) \<Longrightarrow> length q < length p"
  by (induction lim shift r p rule: varint_loop.induct) (auto simp: Let_def split: if_splits)

lemma GetVarint32_length: "GetVarint32 p = Some (v, q) \<Longrightarrow> length q < length p"
  by (auto simp: GetVarint32_def GetVarint32Ptr_def GetVarint32PtrFallback_def
      dest: varint_loop_length split: list.splits if_splits)

lemma GetVarint64_length: "GetVarint64 p = Some (v, q) \<Longrightarrow> length q < length p"
  by (auto simp: GetVarint64_def GetVarint64Ptr_def dest: varint_loop_length)

lemma GetLengthPrefixedSlice_length: "GetLengthPrefixedSlice p = Some (Some (s, q)) \<Longrightarrow> length q < length p"
  by (auto simp: GetLengthPrefixedSlice_def mem_read_def remove_prefix_def dest!: GetVarint32_length
      split: option.splits if_splits)

text \<open>
  The loop of \<open>Iterate\<close>: the handler, the number \<open>found\<close> of records, an \<open>int\<close>, and the status at its end.
\<close>

function iterate_loop ::
    "('h \<Rightarrow> bytes \<Rightarrow> bytes \<Rightarrow> 'h) \<Rightarrow> ('h \<Rightarrow> bytes \<Rightarrow> 'h) \<Rightarrow> bytes \<Rightarrow> int \<Rightarrow> 'h \<Rightarrow> ('h \<times> int \<times> status) option" where
  "iterate_loop put del [] found h = Some (h, found, StatusOK)"
| "iterate_loop put del (tag # input) found h =
     (case int_add found 1 of
        None \<Rightarrow> None
      | Some found \<Rightarrow>
          if tag = kTypeValue then
            (case GetLengthPrefixedSlice input of
               None \<Rightarrow> None
             | Some None \<Rightarrow> Some (h, found, Corruption ''bad WriteBatch Put'')
             | Some (Some (key, input)) \<Rightarrow>
                 (case GetLengthPrefixedSlice input of
                    None \<Rightarrow> None
                  | Some None \<Rightarrow> Some (h, found, Corruption ''bad WriteBatch Put'')
                  | Some (Some (val, input)) \<Rightarrow> iterate_loop put del input found (put h key val)))
          else if tag = kTypeDeletion then
            (case GetLengthPrefixedSlice input of
               None \<Rightarrow> None
             | Some None \<Rightarrow> Some (h, found, Corruption ''bad WriteBatch Delete'')
             | Some (Some (key, input)) \<Rightarrow> iterate_loop put del input found (del h key))
          else Some (h, found, Corruption ''unknown WriteBatch tag''))"
  by pat_completeness auto
termination
  by (relation "measure (\<lambda>(put, del, input, found, h). length input)")
     (auto dest!: GetLengthPrefixedSlice_length)

definition Iterate ::
    "bool \<Rightarrow> ('h \<Rightarrow> bytes \<Rightarrow> bytes \<Rightarrow> 'h) \<Rightarrow> ('h \<Rightarrow> bytes \<Rightarrow> 'h) \<Rightarrow> bytes \<Rightarrow> 'h \<Rightarrow> ('h \<times> status) option" where
  "Iterate le put del rep h =
     (if length rep < kHeader then Some (h, Corruption ''malformed WriteBatch (too small)'')
      else do {
        input \<leftarrow> remove_prefix kHeader rep;
        (h, found, s) \<leftarrow> iterate_loop put del input 0 h;
        (if s \<noteq> StatusOK then Some (h, s)
         else do {
           n \<leftarrow> Count le rep;
           Some (h, if found \<noteq> n then Corruption ''WriteBatch has wrong count'' else StatusOK) }) })"

text \<open>
  \<open>MemTableInserter\<close>: the sequence number and the \<open>Add\<close> calls on the memtable, in order.
\<close>

type_synonym mem_add = "64 word \<times> byte \<times> bytes \<times> bytes"

definition inserter_Put :: "64 word \<times> mem_add list \<Rightarrow> bytes \<Rightarrow> bytes \<Rightarrow> 64 word \<times> mem_add list" where
  "inserter_Put = (\<lambda>(s, mem) key val. (s + 1, mem @ [(s, kTypeValue, key, val)]))"

definition inserter_Delete :: "64 word \<times> mem_add list \<Rightarrow> bytes \<Rightarrow> 64 word \<times> mem_add list" where
  "inserter_Delete = (\<lambda>(s, mem) key. (s + 1, mem @ [(s, kTypeDeletion, key, [])]))"

definition InsertInto :: "bool \<Rightarrow> bytes \<Rightarrow> mem_add list \<Rightarrow> (mem_add list \<times> status) option" where
  "InsertInto le rep mem =
     do {
       s \<leftarrow> Sequence le rep;
       ((s, mem), st) \<leftarrow> Iterate le inserter_Put inserter_Delete rep (s, mem);
       Some (mem, st) }"

definition SetContents :: "bytes \<Rightarrow> bytes option" where
  "SetContents contents = (if length contents \<ge> kHeader then Some contents else None)"

definition batch_Append :: "bool \<Rightarrow> bytes \<Rightarrow> bytes \<Rightarrow> bytes option" where
  "batch_Append le dst src =
     do {
       m \<leftarrow> Count le dst;
       n \<leftarrow> Count le src;
       n \<leftarrow> int_add m n;
       dst \<leftarrow> SetCount le dst n;
       (if length src \<ge> kHeader then
          do { p \<leftarrow> mem_read kHeader (length src - kHeader) src; Some (dst @ p) }
        else None) }"

subsection \<open>Representation\<close>

datatype batch_op = BPut bytes bytes | BDelete bytes

fun op_short :: "batch_op \<Rightarrow> bool" where
  "op_short (BPut k v) \<longleftrightarrow> short k \<and> short v"
| "op_short (BDelete k) \<longleftrightarrow> short k"

fun op_enc :: "batch_op \<Rightarrow> bytes" where
  "op_enc (BPut k v) = kTypeValue # PutLengthPrefixedSlice [] k @ PutLengthPrefixedSlice [] v"
| "op_enc (BDelete k) = kTypeDeletion # PutLengthPrefixedSlice [] k"

fun op_run :: "('h \<Rightarrow> bytes \<Rightarrow> bytes \<Rightarrow> 'h) \<Rightarrow> ('h \<Rightarrow> bytes \<Rightarrow> 'h) \<Rightarrow> 'h \<Rightarrow> batch_op \<Rightarrow> 'h" where
  "op_run put del h (BPut k v) = put h k v"
| "op_run put del h (BDelete k) = del h k"

text \<open>A client that fills a batch.\<close>

fun batch_step :: "bool \<Rightarrow> bytes \<Rightarrow> batch_op \<Rightarrow> bytes option" where
  "batch_step le rep (BPut k v) = batch_Put le rep k v"
| "batch_step le rep (BDelete k) = batch_Delete le rep k"

fun batch_fill :: "bool \<Rightarrow> bytes \<Rightarrow> batch_op list \<Rightarrow> bytes option" where
  "batch_fill le rep [] = Some rep"
| "batch_fill le rep (x # xs) = do { rep \<leftarrow> batch_step le rep x; batch_fill le rep xs }"

definition batch_rep :: "64 word \<Rightarrow> batch_op list \<Rightarrow> bytes" where
  "batch_rep s xs = le_bytes 8 s @ le_bytes 4 (of_nat (length xs) :: 32 word) @ concat (map op_enc xs)"

lemma sint_count: "n < 2 ^ 31 \<Longrightarrow> sint (of_nat n :: 32 word) = int n"
  by (rule sint_word_of_nat) simp

lemma Count_rep: "length xs < 2 ^ 31 \<Longrightarrow> Count le (batch_rep s xs) = Some (int (length xs))"
  by (simp add: Count_def batch_rep_def mem_read_def DecodeFixed32_le le_word_le_bytes sint_count)

lemma SetCount_rep:
  "SetCount le (batch_rep s xs) (int n) = Some (le_bytes 8 s @ le_bytes 4 (of_nat n :: 32 word) @ concat (map op_enc xs))"
  by (simp add: SetCount_def batch_rep_def mem_write_def EncodeFixed32_le)

lemma Sequence_rep: "Sequence le (batch_rep s xs) = Some s"
  by (simp add: Sequence_def batch_rep_def mem_read_prefix DecodeFixed64_le le_word_le_bytes)

lemma SetSequence_rep: "SetSequence le (batch_rep s xs) s' = Some (batch_rep s' xs)"
  by (simp add: SetSequence_def batch_rep_def mem_write_def EncodeFixed64_le)

lemma batch_Clear_rep: "batch_Clear = batch_rep 0 []"
  by (simp add: batch_Clear_def batch_rep_def kHeader_def le_bytes_def map_replicate_const flip: replicate_add)

lemma batch_rep_snoc:
  "batch_rep s (xs @ [x]) =
     le_bytes 8 s @ le_bytes 4 (of_nat (length xs + 1) :: 32 word) @ concat (map op_enc xs) @ op_enc x"
  by (simp add: batch_rep_def)

lemma batch_step_rep:
  assumes "length xs + 1 < 2 ^ 31"
  shows "batch_step le (batch_rep s xs) x = Some (batch_rep s (xs @ [x]))"
proof -
  have "Count le (batch_rep s xs) = Some (int (length xs))" using assms by (simp add: Count_rep)
  moreover have "int_add (int (length xs)) 1 = Some (int (length xs + 1))" using assms by (simp add: int_add_def)
  ultimately show ?thesis
    by (cases x)
      (simp_all add: batch_Put_def batch_Delete_def SetCount_rep PutLengthPrefixedSlice_append [of "_ @ _"]
        batch_rep_snoc del: of_nat_add of_nat_Suc)
qed

lemma batch_fill_rep:
  "length (xs @ ys) < 2 ^ 31 \<Longrightarrow> batch_fill le (batch_rep s xs) ys = Some (batch_rep s (xs @ ys))"
  by (induction ys arbitrary: xs) (simp_all add: batch_step_rep)


subsection \<open>Correctness\<close>

lemma iterate_loop_enc:
  "\<forall>x \<in> set xs. op_short x \<Longrightarrow> 0 \<le> found \<Longrightarrow> found + int (length xs) < 2 ^ 31 \<Longrightarrow>
   iterate_loop put del (concat (map op_enc xs)) found h =
     Some (foldl (op_run put del) h xs, found + int (length xs), StatusOK)"
proof (induction xs arbitrary: found h)
  case (Cons x xs)
  have "int_add found 1 = Some (found + 1)" using Cons.prems by (simp add: int_add_def)
  then have "iterate_loop put del (op_enc x @ concat (map op_enc xs)) found h =
      iterate_loop put del (concat (map op_enc xs)) (found + 1) (op_run put del h x)"
    using Cons.prems by (cases x) (simp_all add: kTypeValue_def kTypeDeletion_def GetLengthPrefixedSlice_enc)
  then show ?case using Cons by (simp add: add.assoc)
qed simp

lemma Iterate_rep:
  assumes "\<forall>x \<in> set xs. op_short x" "length xs < 2 ^ 31"
  shows "Iterate le put del (batch_rep s xs) h = Some (foldl (op_run put del) h xs, StatusOK)"
proof -
  have "remove_prefix kHeader (batch_rep s xs) = Some (concat (map op_enc xs))" "\<not> length (batch_rep s xs) < kHeader"
    by (simp_all add: batch_rep_def kHeader_def remove_prefix_def)
  moreover have "iterate_loop put del (concat (map op_enc xs)) 0 h =
      Some (foldl (op_run put del) h xs, int (length xs), StatusOK)"
    using iterate_loop_enc [OF assms(1), of 0] assms(2) by simp
  ultimately show ?thesis using assms(2) by (simp add: Iterate_def Count_rep)
qed

text \<open>The memtable entries of a list of updates, with consecutive sequence numbers.\<close>

fun op_add :: "64 word \<Rightarrow> batch_op \<Rightarrow> mem_add" where
  "op_add s (BPut k v) = (s, kTypeValue, k, v)"
| "op_add s (BDelete k) = (s, kTypeDeletion, k, [])"

lemma inserter_fold:
  "foldl (op_run inserter_Put inserter_Delete) (s, mem) xs =
     (s + of_nat (length xs), mem @ map2 (\<lambda>i. op_add (s + of_nat i)) [0..<length xs] xs)"
proof (induction xs rule: rev_induct)
  case (snoc x xs)
  then show ?case by (cases x) (simp_all add: inserter_Put_def inserter_Delete_def add.assoc add.commute)
qed simp

text \<open>
  C26.  A batch that is filled by any sequence of fewer than \<open>2 ^ 31\<close> \<open>Put\<close> and \<open>Delete\<close> calls and given a sequence
  number is iterated without error: the handler, whatever it does, gets exactly these calls in
  their order; the count and the sequence number read back are those of the batch.
\<close>

theorem write_batch_roundtrip:
  assumes "\<forall>x \<in> set xs. op_short x" "length xs < 2 ^ 31"
  shows "\<exists>rep rep'. batch_fill le batch_Clear xs = Some rep \<and> SetSequence le rep s = Some rep' \<and>
    Iterate le put del rep' h = Some (foldl (op_run put del) h xs, StatusOK) \<and>
    Sequence le rep' = Some s \<and> Count le rep' = Some (int (length xs))"
  using assms batch_fill_rep [of "[]" xs le 0]
  by (simp add: batch_Clear_rep SetSequence_rep Iterate_rep Sequence_rep Count_rep)

text \<open>
  C14.  \<open>InsertInto\<close> adds the updates of a batch to the memtable in order, with consecutive sequence
  numbers that start at the number of the batch; inserting the concatenation of two batches
  made by \<open>Append\<close> adds the updates of both.  There are fewer than \<open>2 ^ 31\<close> updates, so that the
  counts do not overflow.
\<close>

theorem InsertInto_correct:
  assumes "\<forall>x \<in> set (xs @ ys). op_short x" "length (xs @ ys) < 2 ^ 31"
    and "batch_fill le batch_Clear xs = Some a" "SetSequence le a s = Some rep" "batch_fill le batch_Clear ys = Some b"
  shows "InsertInto le rep mem = Some (mem @ map2 (\<lambda>i. op_add (s + of_nat i)) [0..<length xs] xs, StatusOK) \<and>
    (\<exists>both. batch_Append le rep b = Some both \<and>
       InsertInto le both mem =
         Some (mem @ map2 (\<lambda>i. op_add (s + of_nat i)) [0..<length (xs @ ys)] (xs @ ys), StatusOK))"
proof -
  have rep: "rep = batch_rep s xs" "b = batch_rep 0 ys"
    using assms(2-5) by (auto simp: batch_Clear_rep batch_fill_rep SetSequence_rep)
  have ins: "InsertInto le (batch_rep s zs) mem = Some (mem @ map2 (\<lambda>i. op_add (s + of_nat i)) [0..<length zs] zs, StatusOK)"
    if "\<forall>x \<in> set zs. op_short x" "length zs < 2 ^ 31" for zs
    using that by (simp add: InsertInto_def Sequence_rep Iterate_rep inserter_fold)
  have "mem_read kHeader (length (batch_rep 0 ys) - kHeader) (batch_rep 0 ys) = Some (concat (map op_enc ys))"
      "kHeader \<le> length (batch_rep 0 ys)"
    by (simp_all add: batch_rep_def kHeader_def mem_read_def)
  moreover have "int_add (int (length xs)) (int (length ys)) = Some (int (length xs + length ys))"
    using assms(2) by (simp add: int_add_def)
  ultimately have "batch_Append le (batch_rep s xs) (batch_rep 0 ys) = Some (batch_rep s (xs @ ys))"
    using assms(2) by (simp add: batch_Append_def Count_rep SetCount_rep del: of_nat_add) (simp add: batch_rep_def)
  then show ?thesis using ins [of xs] ins [of "xs @ ys"] assms(1,2) rep by simp
qed

text \<open>Whatever the input, the loop runs the handler on a list of updates that does not depend on the handler.\<close>

lemma iterate_loop_ops:
  "0 \<le> found \<Longrightarrow> found + int (length input) < 2 ^ 31 \<Longrightarrow>
   \<exists>xs found' st. (\<forall>put del (h :: 'h). iterate_loop put del input found h = Some (foldl (op_run put del) h xs, found', st)) \<and>
     (st = StatusOK \<longrightarrow> found' = found + int (length xs))"
proof (induction "length input" arbitrary: input found rule: less_induct)
  case less
  show ?case
  proof (cases input)
    case Nil
    then show ?thesis by (intro exI [of _ "[]"] exI [of _ found] exI [of _ StatusOK]) simp
  next
    case (Cons tag p)
    have f: "int_add found 1 = Some (found + 1)" using less.prems Cons by (simp add: int_add_def)
    have stop: ?thesis if "\<forall>put del (h :: 'h). iterate_loop put del input found h = Some (h, found + 1, Corruption m)" for m
      using that by (intro exI [of _ "[]"] exI [of _ "found + 1"] exI [of _ "Corruption m"]) simp
    have step: ?thesis
      if q: "length q < length p"
        and "\<forall>put del (h :: 'h). iterate_loop put del input found h = iterate_loop put del q (found + 1) (op_run put del h x)" for q x
    proof -
      have "length q < length input" "0 \<le> found + 1" "found + 1 + int (length q) < 2 ^ 31"
        using q less.prems Cons by simp_all
      from less.hyps [OF this] obtain xs found' st where
        "\<forall>put del (h :: 'h). iterate_loop put del q (found + 1) h = Some (foldl (op_run put del) h xs, found', st)"
        "st = StatusOK \<longrightarrow> found' = found + 1 + int (length xs)" by blast
      then show ?thesis using that(2) by (intro exI [of _ "x # xs"] exI [of _ found'] exI [of _ st]) simp
    qed
    obtain r where r: "GetLengthPrefixedSlice p = Some r" using GetLengthPrefixedSlice_safe by blast
    show ?thesis
    proof (cases r)
      case None
      show ?thesis by (cases "tag = kTypeValue"; cases "tag = kTypeDeletion"; rule stop) (simp_all add: Cons f r None)
    next
      case (Some kq)
      obtain k q where kq: "kq = (k, q)" by (cases kq)
      note q = GetLengthPrefixedSlice_length [OF r [unfolded Some kq]]
      obtain r2 where r2: "GetLengthPrefixedSlice q = Some r2" using GetLengthPrefixedSlice_safe by blast
      consider (put) "tag = kTypeValue" | (del) "tag \<noteq> kTypeValue" "tag = kTypeDeletion"
        | (bad) "tag \<noteq> kTypeValue" "tag \<noteq> kTypeDeletion" by blast
      then show ?thesis
      proof cases
        case put
        show ?thesis
        proof (cases r2)
          case None
          then show ?thesis by (intro stop) (simp add: Cons f r Some kq put r2)
        next
          case v: (Some vq)
          obtain v q2 where vq: "vq = (v, q2)" by (cases vq)
          have "length q2 < length p" using GetLengthPrefixedSlice_length [OF r2 [unfolded v vq]] q by simp
          then show ?thesis by (rule step [where x = "BPut k v"]) (simp add: Cons f r Some kq put r2 v vq)
        qed
      next
        case del
        show ?thesis by (rule step [OF q, where x = "BDelete k"]) (simp add: Cons f r Some kq del kTypeValue_def kTypeDeletion_def)
      next
        case bad
        then show ?thesis by (intro stop) (simp add: Cons f)
      qed
    qed
  qed
qed

text \<open>
  C28.  On an arbitrary string of less than \<open>2 ^ 31\<close> bytes \<open>Iterate\<close> terminates without reading outside of
  it, the handler, whatever it does, gets a list of updates that is determined by the string, and
  \<open>Iterate\<close> reports success only if the number of handler calls is the count in the header.
\<close>

theorem Iterate_checks_count:
  assumes "length rep < 2 ^ 31"
  shows "\<exists>xs st. (\<forall>put del (h :: 'h). Iterate le put del rep h = Some (foldl (op_run put del) h xs, st)) \<and>
    (st = StatusOK \<longrightarrow> Count le rep = Some (int (length xs)))"
proof (cases "length rep < kHeader")
  case True
  then show ?thesis
    by (intro exI [of _ "[]"] exI [of _ "Corruption ''malformed WriteBatch (too small)''"]) (simp add: Iterate_def)
next
  case False
  have p: "remove_prefix kHeader rep = Some (drop kHeader rep)" using False by (simp add: remove_prefix_def)
  have "0 + int (length (drop kHeader rep)) < 2 ^ 31" using assms by simp
  from iterate_loop_ops [OF _ this, where 'h = 'h] obtain xs found st where
    l: "\<forall>put del (h :: 'h). iterate_loop put del (drop kHeader rep) 0 h = Some (foldl (op_run put del) h xs, found, st)"
      "st = StatusOK \<longrightarrow> found = int (length xs)" by auto
  obtain c where c: "Count le rep = Some c"
    using False by (auto simp: Count_def mem_read_def kHeader_def DecodeFixed32_le)
  show ?thesis
  proof (cases "st = StatusOK")
    case True
    then show ?thesis using False p l c
      by (intro exI [of _ xs] exI [of _ "if int (length xs) \<noteq> c then Corruption ''WriteBatch has wrong count'' else StatusOK"])
        (simp add: Iterate_def)
  next
    case bad: False
    then show ?thesis using False p l by (intro exI [of _ xs] exI [of _ st]) (simp add: Iterate_def)
  qed
qed

theorem write_batch_roundtrip_witness:
  "\<exists>rep rep'. batch_fill True batch_Clear [BPut [1] [2, 3], BDelete [4]] = Some rep \<and> SetSequence True rep 77 = Some rep' \<and>
    Iterate True (\<lambda>l k v. l @ [(k, Some v)]) (\<lambda>l k. l @ [(k, None)]) rep' [] =
      Some ([([1], Some [2, 3]), ([4], None)], StatusOK)"
  using write_batch_roundtrip [of "[BPut [1] [2, 3], BDelete [4]]" True 77 "\<lambda>l k v. l @ [(k, Some v)]" "\<lambda>l k. l @ [(k, None)]" "[]"]
  by auto

theorem InsertInto_correct_witness:
  "InsertInto True (batch_rep 77 [BPut [1] [2, 3], BDelete [4]]) [] =
    Some ([(77, kTypeValue, [1], [2, 3]), (78, kTypeDeletion, [4], [])], StatusOK)"
proof -
  let ?xs = "[BPut [1] [2, 3], BDelete [4]]"
  have "batch_fill True batch_Clear ?xs = Some (batch_rep 0 ?xs)" "batch_fill True batch_Clear [] = Some (batch_rep 0 [])"
    "SetSequence True (batch_rep 0 ?xs) 77 = Some (batch_rep 77 ?xs)"
    using batch_fill_rep [of "[]" ?xs True 0] batch_fill_rep [of "[]" "[]" True 0]
    by (simp_all add: batch_Clear_rep SetSequence_rep del: batch_fill.simps)
  from InsertInto_correct [OF _ _ this(1,3,2), of "[]"] show ?thesis by (simp add: upt_rec)
qed

theorem Iterate_checks_count_witness:
  "\<exists>xs. (\<forall>put del (h :: nat). Iterate True put del (batch_rep 7 [BDelete [4], BPut [1] [2]]) h =
       Some (foldl (op_run put del) h xs, StatusOK)) \<and> length xs = 2"
proof -
  let ?rep = "batch_rep 7 [BDelete [4], BPut [1] [2]]"
  have len: "length ?rep < 2 ^ 31"
    by (simp add: batch_rep_def PutLengthPrefixedSlice_def PutVarint32_def EncodeVarint32_def)
  have ok: "Iterate True put del ?rep (h :: nat) = Some (foldl (op_run put del) h [BDelete [4], BPut [1] [2]], StatusOK)" for put del h
    by (rule Iterate_rep) simp_all
  obtain xs st where x: "\<forall>put del (h :: nat). Iterate True put del ?rep h = Some (foldl (op_run put del) h xs, st)"
    "st = StatusOK \<longrightarrow> Count True ?rep = Some (int (length xs))"
    using Iterate_checks_count [OF len] by blast
  have "st = StatusOK" using x(1) ok by (metis option.inject prod.inject)
  moreover have "Count True ?rep = Some 2" by (simp add: Count_rep)
  ultimately show ?thesis using x by (intro exI [of _ xs]) simp
qed

end
