(* ===== verification/Comparator.thy ===== *)
theory Comparator
  imports WriteBatch
begin

section \<open>Keys and their order (leveldb \<open>util/comparator.cc\<close>, \<open>db/dbformat.cc\<close>)\<close>

text \<open>
  The order of the keys of a table, the strings that separate keys, and internal keys (a user key
  with a sequence number and a type).  \<open>comparator\<close> is the contract of a comparator; it is kept when
  internal keys are compared through a comparator of user keys.  A failing assertion is \<open>None\<close>.
\<close>

subsection \<open>Slices (\<open>include/leveldb/slice.h\<close>)\<close>

text \<open>\<open>memcmp\<close> on the first \<open>n\<close> bytes: the difference of the first bytes that differ.\<close>

fun memcmp :: "bytes \<Rightarrow> bytes \<Rightarrow> nat \<Rightarrow> int" where
  "memcmp (x # xs) (y # ys) (Suc n) = (if x = y then memcmp xs ys n else uint x - uint y)"
| "memcmp _ _ _ = 0"

definition slice_compare :: "bytes \<Rightarrow> bytes \<Rightarrow> int" where
  "slice_compare a b =
     (let min_len = (if length a < length b then length a else length b);
          r = memcmp a b min_len
      in if r = 0 then (if length a < length b then -1 else if length a > length b then 1 else r) else r)"

subsection \<open>The bytewise comparator\<close>

definition bytewise_Compare :: "bytes \<Rightarrow> bytes \<Rightarrow> int option" where
  "bytewise_Compare a b = Some (slice_compare a b)"

fun diff_loop :: "bytes \<Rightarrow> bytes \<Rightarrow> nat" where
  "diff_loop (x # xs) (y # ys) = (if x = y then 1 + diff_loop xs ys else 0)"
| "diff_loop _ _ = 0"

definition bytewise_FindShortestSeparator :: "bytes \<Rightarrow> bytes \<Rightarrow> bytes option" where
  "bytewise_FindShortestSeparator start limit =
     (let min_length = min (length start) (length limit);
          diff_index = diff_loop start limit
      in if diff_index \<ge> min_length then Some start
         else
           let diff_byte = start ! diff_index
           in if diff_byte < 0xff \<and> uint diff_byte + 1 < uint (limit ! diff_index) then
                let start = take (diff_index + 1) (start[diff_index := diff_byte + 1])
                in do { r \<leftarrow> bytewise_Compare start limit; (if r < 0 then Some start else None) }
              else Some start)"

fun bytewise_FindShortSuccessor :: "bytes \<Rightarrow> bytes" where
  "bytewise_FindShortSuccessor [] = []"
| "bytewise_FindShortSuccessor (b # key) =
     (if b \<noteq> 0xff then [b + 1] else b # bytewise_FindShortSuccessor key)"

subsection \<open>Internal keys\<close>

definition kValueTypeForSeek :: byte where
  "kValueTypeForSeek = kTypeValue"

definition kMaxSequenceNumber :: "64 word" where
  "kMaxSequenceNumber = push_bit 56 1 - 1"

record ParsedInternalKey =
  pk_user_key :: bytes
  pk_sequence :: "64 word"
  pk_type :: byte

definition InternalKeyEncodingLength :: "ParsedInternalKey \<Rightarrow> nat" where
  "InternalKeyEncodingLength key = length (pk_user_key key) + 8"

definition PackSequenceAndType :: "64 word \<Rightarrow> byte \<Rightarrow> 64 word option" where
  "PackSequenceAndType s t =
     (if s \<le> kMaxSequenceNumber \<and> t \<le> kValueTypeForSeek then Some (push_bit 8 s OR ucast t) else None)"

definition AppendInternalKey :: "bool \<Rightarrow> bytes \<Rightarrow> ParsedInternalKey \<Rightarrow> bytes option" where
  "AppendInternalKey le result key =
     do { n \<leftarrow> PackSequenceAndType (pk_sequence key) (pk_type key);
          Some (PutFixed64 le (result @ pk_user_key key) n) }"

text \<open>\<open>ParseInternalKey\<close>: the parsed key and the return value; \<open>None\<close> when the key is too short to parse.\<close>

definition ParseInternalKey :: "bool \<Rightarrow> bytes \<Rightarrow> (ParsedInternalKey \<times> bool) option" where
  "ParseInternalKey le internal_key =
     (let n = length internal_key in
      if n < 8 then None
      else do {
        num \<leftarrow> DecodeFixed64 le (drop (n - 8) internal_key);
        let c = ucast (num AND 0xff) :: byte
        in Some (\<lparr>pk_user_key = take (n - 8) internal_key, pk_sequence = drop_bit 8 num, pk_type = c\<rparr>, c \<le> kTypeValue) })"

definition ExtractUserKey :: "bytes \<Rightarrow> bytes option" where
  "ExtractUserKey internal_key =
     (if length internal_key \<ge> 8 then Some (take (length internal_key - 8) internal_key) else None)"

text \<open>The class \<open>InternalKey\<close> is its representation \<open>rep_\<close>.\<close>

definition new_InternalKey :: "bool \<Rightarrow> bytes \<Rightarrow> 64 word \<Rightarrow> byte \<Rightarrow> bytes option" where
  "new_InternalKey le user_key s t =
     AppendInternalKey le [] \<lparr>pk_user_key = user_key, pk_sequence = s, pk_type = t\<rparr>"

definition InternalKey_DecodeFrom :: "bytes \<Rightarrow> bytes" where
  "InternalKey_DecodeFrom s = s"

definition InternalKey_Encode :: "bytes \<Rightarrow> bytes option" where
  "InternalKey_Encode rep = (if rep \<noteq> [] then Some rep else None)"

definition InternalKey_SetFrom :: "bool \<Rightarrow> ParsedInternalKey \<Rightarrow> bytes option" where
  "InternalKey_SetFrom le p = AppendInternalKey le [] p"

definition internal_Compare ::
    "bool \<Rightarrow> (bytes \<Rightarrow> bytes \<Rightarrow> int option) \<Rightarrow> bytes \<Rightarrow> bytes \<Rightarrow> int option" where
  "internal_Compare le user_Compare akey bkey =
     do {
       ua \<leftarrow> ExtractUserKey akey;
       ub \<leftarrow> ExtractUserKey bkey;
       r \<leftarrow> user_Compare ua ub;
       (if r = 0 then
          do {
            anum \<leftarrow> DecodeFixed64 le (drop (length akey - 8) akey);
            bnum \<leftarrow> DecodeFixed64 le (drop (length bkey - 8) bkey);
            Some (if anum > bnum then -1 else if anum < bnum then 1 else r) }
        else Some r) }"

definition internal_FindShortestSeparator ::
    "bool \<Rightarrow> (bytes \<Rightarrow> bytes \<Rightarrow> int option) \<Rightarrow> (bytes \<Rightarrow> bytes \<Rightarrow> bytes option) \<Rightarrow> bytes \<Rightarrow> bytes \<Rightarrow> bytes option" where
  "internal_FindShortestSeparator le user_Compare user_Separator start limit =
     do {
       user_start \<leftarrow> ExtractUserKey start;
       user_limit \<leftarrow> ExtractUserKey limit;
       tmp \<leftarrow> user_Separator user_start user_limit;
       r \<leftarrow> (if length tmp < length user_start then user_Compare user_start tmp else Some 0);
       (if r < 0 then
          do {
            num \<leftarrow> PackSequenceAndType kMaxSequenceNumber kValueTypeForSeek;
            let tmp = PutFixed64 le tmp num;
            a \<leftarrow> internal_Compare le user_Compare start tmp;
            b \<leftarrow> internal_Compare le user_Compare tmp limit;
            (if a < 0 \<and> b < 0 then Some tmp else None) }
        else Some start) }"

definition internal_FindShortSuccessor ::
    "bool \<Rightarrow> (bytes \<Rightarrow> bytes \<Rightarrow> int option) \<Rightarrow> (bytes \<Rightarrow> bytes option) \<Rightarrow> bytes \<Rightarrow> bytes option" where
  "internal_FindShortSuccessor le user_Compare user_Successor key =
     do {
       user_key \<leftarrow> ExtractUserKey key;
       tmp \<leftarrow> user_Successor user_key;
       r \<leftarrow> (if length tmp < length user_key then user_Compare user_key tmp else Some 0);
       (if r < 0 then
          do {
            num \<leftarrow> PackSequenceAndType kMaxSequenceNumber kValueTypeForSeek;
            let tmp = PutFixed64 le tmp num;
            a \<leftarrow> internal_Compare le user_Compare key tmp;
            (if a < 0 then Some tmp else None) }
        else Some key) }"

text \<open>\<open>InternalFilterPolicy\<close>: the policy \<open>user_policy_\<close> is given by its two operations.\<close>

definition internal_CreateFilter :: "(bytes list \<Rightarrow> bytes \<Rightarrow> bytes option) \<Rightarrow> bytes list \<Rightarrow> bytes \<Rightarrow> bytes option" where
  "internal_CreateFilter user_CreateFilter keys dst =
     do { mkey \<leftarrow> those (map ExtractUserKey keys); user_CreateFilter mkey dst }"

definition internal_KeyMayMatch :: "(bytes \<Rightarrow> bytes \<Rightarrow> bool option) \<Rightarrow> bytes \<Rightarrow> bytes \<Rightarrow> bool option" where
  "internal_KeyMayMatch user_KeyMayMatch key f =
     do { user_key \<leftarrow> ExtractUserKey key; user_KeyMayMatch user_key f }"

text \<open>\<open>LookupKey\<close>: the memtable key and the offset of the internal key in it.\<close>

definition new_LookupKey :: "bool \<Rightarrow> bytes \<Rightarrow> 64 word \<Rightarrow> (bytes \<times> nat) option" where
  "new_LookupKey le user_key s =
     do {
       num \<leftarrow> PackSequenceAndType s kValueTypeForSeek;
       let head = EncodeVarint32 (of_nat (length user_key + 8));
       Some (head @ user_key @ EncodeFixed64 le num, length head) }"

definition memtable_key :: "bytes \<times> nat \<Rightarrow> bytes" where
  "memtable_key = (\<lambda>(space, kstart). space)"

definition internal_key :: "bytes \<times> nat \<Rightarrow> bytes" where
  "internal_key = (\<lambda>(space, kstart). drop kstart space)"

definition lookup_user_key :: "bytes \<times> nat \<Rightarrow> bytes" where
  "lookup_user_key = (\<lambda>(space, kstart). take (length space - kstart - 8) (drop kstart space))"

subsection \<open>The contract of a comparator\<close>

text \<open>
  On the keys a comparator accepts, \<open>compare\<close> is the sign of a total order \<open>less\<close>, \<open>separator\<close> stays in the
  interval \<open>[start, limit)\<close>, \<open>successor\<close> does not go below its argument, and neither gets longer (\<open>include/leveldb/comparator.h\<close>).
\<close>

locale comparator =
  fixes valid :: "bytes \<Rightarrow> bool"
    and less :: "bytes \<Rightarrow> bytes \<Rightarrow> bool"
    and compare :: "bytes \<Rightarrow> bytes \<Rightarrow> int option"
    and separator :: "bytes \<Rightarrow> bytes \<Rightarrow> bytes option"
    and successor :: "bytes \<Rightarrow> bytes option"
  assumes compare_sgn: "valid a \<Longrightarrow> valid b \<Longrightarrow>
      \<exists>r. compare a b = Some r \<and> (r < 0 \<longleftrightarrow> less a b) \<and> (0 < r \<longleftrightarrow> less b a) \<and> (r = 0 \<longleftrightarrow> a = b)"
    and less_trans: "valid a \<Longrightarrow> valid b \<Longrightarrow> valid c \<Longrightarrow> less a b \<Longrightarrow> less b c \<Longrightarrow> less a c"
    and separator_self: "valid a \<Longrightarrow> separator a a = Some a"
    and separator_between: "valid a \<Longrightarrow> valid b \<Longrightarrow> less a b \<Longrightarrow>
      \<exists>r. separator a b = Some r \<and> valid r \<and> (r = a \<or> less a r) \<and> less r b"
    and successor_above: "valid a \<Longrightarrow> \<exists>r. successor a = Some r \<and> valid r \<and> (r = a \<or> less a r)"
    and separator_length: "valid a \<Longrightarrow> valid b \<Longrightarrow> separator a b = Some r \<Longrightarrow> length r \<le> length a"
    and successor_length: "valid a \<Longrightarrow> successor a = Some r \<Longrightarrow> length r \<le> length a"
begin

lemma less_irrefl: "valid a \<Longrightarrow> \<not> less a a"
  using compare_sgn [of a a] by auto

lemma less_total: "valid a \<Longrightarrow> valid b \<Longrightarrow> less a b \<or> a = b \<or> less b a"
  using compare_sgn [of a b] by auto

lemma less_asym: "valid a \<Longrightarrow> valid b \<Longrightarrow> less a b \<Longrightarrow> \<not> less b a"
  using compare_sgn [of a b] by auto

lemma compare_cases:
  assumes "valid a" "valid b"
  obtains r where "compare a b = Some r" "r < 0" "less a b" "\<not> less b a" "a \<noteq> b"
  | r where "compare a b = Some r" "0 < r" "less b a" "\<not> less a b" "a \<noteq> b"
  | "compare a b = Some 0" "a = b" "\<not> less a b" "\<not> less b a"
  using compare_sgn [OF assms] by (metis linorder_neqE_linordered_idom order_less_asym)

end

subsection \<open>The bytewise comparator is one\<close>

text \<open>The lexicographic order of strings of unsigned bytes.\<close>

abbreviation bytes_less :: "bytes \<Rightarrow> bytes \<Rightarrow> bool" where
  "bytes_less \<equiv> ord_class.lexordp"

lemma slice_compare_Cons:
  "slice_compare (x # a) (y # b) = (if x = y then slice_compare a b else uint x - uint y)"
  by (auto simp: slice_compare_def Let_def word_uint_eq_iff)

lemma slice_compare_Nil: "slice_compare [] b = (if b = [] then 0 else -1)" "slice_compare a [] = (if a = [] then 0 else 1)"
  by (auto simp: slice_compare_def Let_def word_uint_eq_iff)

lemma slice_compare_sgn:
  "(slice_compare a b < 0 \<longleftrightarrow> bytes_less a b) \<and> (0 < slice_compare a b \<longleftrightarrow> bytes_less b a) \<and> (slice_compare a b = 0 \<longleftrightarrow> a = b)"
proof (induction a arbitrary: b)
  case (Cons x a)
  show ?case
  proof (cases b)
    case (Cons y b')
    then show ?thesis
      using Cons.IH [of b'] by (cases x y rule: linorder_cases) (auto simp: slice_compare_Cons word_less_def)
  qed (simp add: slice_compare_Nil)
qed (auto simp: slice_compare_Nil)

lemma diff_loop_split:
  "(\<exists>p x y a' b'. a = p @ x # a' \<and> b = p @ y # b' \<and> x \<noteq> y \<and> diff_loop a b = length p)
   \<or> diff_loop a b = min (length a) (length b)"
proof (induction a b rule: diff_loop.induct)
  case (1 x xs y ys)
  show ?case
  proof (cases "x = y")
    case True
    from 1 [OF True] show ?thesis
    proof (elim disjE exE conjE)
      fix p u v a' b' assume "xs = p @ u # a'" "ys = p @ v # b'" "u \<noteq> v" "diff_loop xs ys = length p"
      then show ?thesis using True by (intro disjI1 exI [of _ "x # p"]) auto
    qed (use True in auto)
  next
    case False
    then show ?thesis by (intro disjI1 exI [of _ "[]"]) simp
  qed
qed auto

lemma bytewise_separator:
  assumes "bytes_less a b"
  shows "\<exists>r. bytewise_FindShortestSeparator a b = Some r \<and> (r = a \<or> bytes_less a r) \<and> bytes_less r b"
  using diff_loop_split [of a b]
proof (elim disjE exE conjE)
  fix p x y a' b' assume s: "a = p @ x # a'" "b = p @ y # b'" "x \<noteq> y" "diff_loop a b = length p"
  show ?thesis
  proof (cases "x < 0xff \<and> uint x + 1 < uint y")
    case True
    then have "uint (x + 1) = uint x + 1" by (simp add: uint_word_ariths word_less_def)
    with True have "x < x + 1" "x + 1 < y" by (simp_all add: word_less_def)
    then have "bytes_less a (p @ [x + 1])" "bytes_less (p @ [x + 1]) b"
      using s by (simp_all add: ord_class.lexordp_append_left_rightI)
    then show ?thesis
      using s True slice_compare_sgn [of "p @ [x + 1]" b]
      by (simp add: bytewise_FindShortestSeparator_def bytewise_Compare_def Let_def nth_append list_update_append min_def)
  qed (use assms s in \<open>auto simp: bytewise_FindShortestSeparator_def nth_append Let_def\<close>)
qed (use assms in \<open>simp add: bytewise_FindShortestSeparator_def\<close>)

lemma diff_loop_self: "diff_loop a a = length a"
  by (induction a) auto

lemma bytewise_successor: "bytewise_FindShortSuccessor a = a \<or> bytes_less a (bytewise_FindShortSuccessor a)"
proof (induction a)
  case (Cons b a)
  have "b < b + 1" if "b \<noteq> 0xff"
    using that unat_less [of b] by (simp add: word_less_nat_alt word_unat_eq_iff unat_word_ariths)
  with Cons show ?case by auto
qed simp


lemma bytewise_separator_length: "bytewise_FindShortestSeparator a b = Some r \<Longrightarrow> length r \<le> length a"
  by (auto simp: bytewise_FindShortestSeparator_def bytewise_Compare_def Let_def split: if_splits)

lemma bytewise_successor_length: "length (bytewise_FindShortSuccessor a) \<le> length a"
  by (induction a) auto

subsection \<open>Internal keys\<close>

definition key_valid :: "bytes \<Rightarrow> bool" where
  "key_valid k \<longleftrightarrow> 8 \<le> length k"

definition key_user :: "bytes \<Rightarrow> bytes" where
  "key_user k = take (length k - 8) k"

definition key_tag :: "bytes \<Rightarrow> 64 word" where
  "key_tag k = le_word (drop (length k - 8) k)"

text \<open>The order of internal keys: by user key, and for one user key the newest entry first.\<close>

definition internal_less :: "(bytes \<Rightarrow> bytes \<Rightarrow> bool) \<Rightarrow> bytes \<Rightarrow> bytes \<Rightarrow> bool" where
  "internal_less user_less a b \<longleftrightarrow>
     user_less (key_user a) (key_user b) \<or> key_user a = key_user b \<and> key_tag b < key_tag a"

lemma le_word_inj8:
  assumes "length a = 8" "length b = 8" "le_word a = (le_word b :: 64 word)"
  shows "a = b"
proof (rule nth_equalityI)
  fix i assume i: "i < length a"
  show "a ! i = b ! i"
  proof (rule bit_word_eqI)
    fix n assume "n < LENGTH(8)"
    then have "bit (le_word a :: 64 word) (8 * i + n) = bit (a ! i) n" "bit (le_word b :: 64 word) (8 * i + n) = bit (b ! i) n"
      using i assms(1,2) by (simp_all add: bit_le_word)
    with assms(3) show "bit (a ! i) n = bit (b ! i) n" by simp
  qed
qed (use assms in simp)

lemma ExtractUserKey_valid: "key_valid k \<Longrightarrow> ExtractUserKey k = Some (key_user k)"
  by (simp add: ExtractUserKey_def key_valid_def key_user_def)

lemma ExtractUserKey_invalid: "\<not> key_valid k \<Longrightarrow> ExtractUserKey k = None"
  by (simp add: ExtractUserKey_def key_valid_def)

lemma Decode_tag: "key_valid k \<Longrightarrow> DecodeFixed64 le (drop (length k - 8) k) = Some (key_tag k)"
  by (simp add: DecodeFixed64_le mem_read_def key_valid_def key_tag_def)

lemma key_eq: "key_valid a \<Longrightarrow> key_valid b \<Longrightarrow> a = b \<longleftrightarrow> key_user a = key_user b \<and> key_tag a = key_tag b"
  unfolding key_valid_def key_user_def key_tag_def
  by (metis append_take_drop_id diff_diff_cancel le_word_inj8 length_drop)

lemma key_put [simp]:
  "key_valid (PutFixed64 le u num)" "key_user (PutFixed64 le u num) = u" "key_tag (PutFixed64 le u num) = num"
  by (simp_all add: PutFixed64_def EncodeFixed64_le key_valid_def key_user_def key_tag_def le_word_le_bytes)

lemma Pack_seek: "PackSequenceAndType kMaxSequenceNumber kValueTypeForSeek = Some 0xffffffffffffff01"
  by code_simp

locale user_comparator = comparator valid less compare separator successor
  for valid less compare separator successor +
  assumes all_valid: "valid k"
begin

lemma internal_compare:
  assumes "key_valid a" "key_valid b"
  shows "\<exists>r. internal_Compare le compare a b = Some r \<and> (r < 0 \<longleftrightarrow> internal_less less a b)
      \<and> (0 < r \<longleftrightarrow> internal_less less b a) \<and> (r = 0 \<longleftrightarrow> a = b)"
  by (rule compare_cases [of "key_user a" "key_user b", OF all_valid all_valid])
     (use assms key_eq [OF assms] linorder_less_linear [of "key_tag a" "key_tag b"] in \<open>auto simp: internal_Compare_def ExtractUserKey_valid Decode_tag internal_less_def\<close>)

lemma internal_trans:
  assumes "internal_less less a b" "internal_less less b c"
  shows "internal_less less a c"
  using assms less_trans [OF all_valid all_valid all_valid, of "key_user a" "key_user b" "key_user c"]
  unfolding internal_less_def by auto

lemma internal_put:
  assumes "key_valid a" "less (key_user a) u"
  shows "internal_less less a (PutFixed64 le u num)"
  using assms by (simp add: internal_less_def)

lemma internal_compare_less:
  assumes "key_valid a" "key_valid b" "internal_less less a b"
  obtains r where "internal_Compare le compare a b = Some r" "r < 0"
  using internal_compare [OF assms(1,2), of le] assms(3) by auto

lemma internal_separator_self:
  assumes "key_valid a"
  shows "internal_FindShortestSeparator le compare separator a a = Some a"
  using assms by (simp add: internal_FindShortestSeparator_def ExtractUserKey_valid separator_self all_valid)

lemma internal_separator:
  assumes a: "key_valid a" and b: "key_valid b" and ab: "internal_less less a b"
  shows "\<exists>r. internal_FindShortestSeparator le compare separator a b = Some r \<and> key_valid r
      \<and> (r = a \<or> internal_less less a r) \<and> internal_less less r b"
proof (cases "key_user a = key_user b")
  case True
  with assms show ?thesis
    by (simp add: internal_FindShortestSeparator_def ExtractUserKey_valid separator_self all_valid)
next
  case False
  with ab have lt: "less (key_user a) (key_user b)" by (simp add: internal_less_def)
  from separator_between [OF all_valid all_valid lt] obtain u where
    u: "separator (key_user a) (key_user b) = Some u" "u = key_user a \<or> less (key_user a) u" "less u (key_user b)" by blast
  define t where "t = PutFixed64 le u 0xffffffffffffff01"
  have t: "key_valid t" by (simp add: t_def)
  show ?thesis
  proof (cases "length u < length (key_user a)")
    case True
    with u have lu: "less (key_user a) u" by auto
    then obtain r where r: "compare (key_user a) u = Some r" "r < 0"
      using compare_sgn [OF all_valid all_valid, of "key_user a" u] by auto
    have at: "internal_less less a t" using internal_put [OF a lu] by (simp add: t_def)
    have tb: "internal_less less t b" using u(3) by (simp add: t_def internal_less_def)
    obtain r1 r2 where "internal_Compare le compare a t = Some r1" "r1 < 0" "internal_Compare le compare t b = Some r2" "r2 < 0"
      using internal_compare_less [OF a t at] internal_compare_less [OF t b tb] by metis
    with True u(1) r at tb t a b show ?thesis
      by (simp add: internal_FindShortestSeparator_def ExtractUserKey_valid Pack_seek flip: t_def)
  qed (use u(1) a b ab in \<open>simp add: internal_FindShortestSeparator_def ExtractUserKey_valid\<close>)
qed

lemma internal_successor:
  assumes a: "key_valid a"
  shows "\<exists>r. internal_FindShortSuccessor le compare successor a = Some r \<and> key_valid r \<and> (r = a \<or> internal_less less a r)"
proof -
  obtain u where u: "successor (key_user a) = Some u" "u = key_user a \<or> less (key_user a) u"
    using successor_above [OF all_valid] by blast
  define t where "t = PutFixed64 le u 0xffffffffffffff01"
  have t: "key_valid t" by (simp add: t_def)
  show ?thesis
  proof (cases "length u < length (key_user a)")
    case True
    with u have lu: "less (key_user a) u" by auto
    then obtain r where r: "compare (key_user a) u = Some r" "r < 0"
      using compare_sgn [OF all_valid all_valid, of "key_user a" u] by auto
    have at: "internal_less less a t" using internal_put [OF a lu] by (simp add: t_def)
    obtain r1 where "internal_Compare le compare a t = Some r1" "r1 < 0"
      using internal_compare_less [OF a t at] by metis
    with True u(1) r at t a show ?thesis
      by (simp add: internal_FindShortSuccessor_def ExtractUserKey_valid Pack_seek flip: t_def)
  qed (use u(1) a in \<open>simp add: internal_FindShortSuccessor_def ExtractUserKey_valid\<close>)
qed

lemma key_length: "key_valid a \<Longrightarrow> length a = length (key_user a) + 8"
  by (simp add: key_valid_def key_user_def)

lemma internal_separator_length:
  assumes "key_valid a" "key_valid b" "internal_FindShortestSeparator le compare separator a b = Some r"
  shows "length r \<le> length a"
  using assms key_length [of a]
  by (auto simp: internal_FindShortestSeparator_def ExtractUserKey_valid PutFixed64_def EncodeFixed64_le Let_def
      split: Option.bind_splits if_splits)

lemma internal_successor_length:
  assumes "key_valid a" "internal_FindShortSuccessor le compare successor a = Some r"
  shows "length r \<le> length a"
  using assms key_length [of a]
  by (auto simp: internal_FindShortSuccessor_def ExtractUserKey_valid PutFixed64_def EncodeFixed64_le Let_def
      split: Option.bind_splits if_splits)

text \<open>A separator that is not the key itself belongs to no user key on either side.\<close>

lemma internal_separator_user:
  assumes a: "key_valid a" and b: "key_valid b" and ab: "internal_less less a b"
    and r: "internal_FindShortestSeparator le compare separator a b = Some r"
  shows "r = a \<or> less (key_user r) (key_user b)"
proof (cases "key_user a = key_user b")
  case True
  with assms show ?thesis
    by (simp add: internal_FindShortestSeparator_def ExtractUserKey_valid separator_self all_valid)
next
  case False
  with ab have lt: "less (key_user a) (key_user b)" by (simp add: internal_less_def)
  from separator_between [OF all_valid all_valid lt] obtain u where
    "separator (key_user a) (key_user b) = Some u" "less u (key_user b)" by blast
  with r show ?thesis
    by (auto simp: internal_FindShortestSeparator_def ExtractUserKey_valid [OF a] ExtractUserKey_valid [OF b] Let_def
        split: Option.bind_splits if_splits)
qed

end

text \<open>A comparator of user keys gives one of internal keys.\<close>

sublocale user_comparator \<subseteq> internal: comparator key_valid "internal_less less" "internal_Compare le compare"
    "internal_FindShortestSeparator le compare separator" "internal_FindShortSuccessor le compare successor" for le
  by unfold_locales
     (use internal_compare internal_separator_self internal_separator internal_successor internal_separator_length
        internal_successor_length in \<open>auto intro: internal_trans\<close>)

interpretation bytewise: user_comparator "\<lambda>_. True" bytes_less bytewise_Compare bytewise_FindShortestSeparator
    "\<lambda>k. Some (bytewise_FindShortSuccessor k)"
proof unfold_locales
  show "\<exists>r. bytewise_Compare a b = Some r \<and> (r < 0 \<longleftrightarrow> bytes_less a b) \<and> (0 < r \<longleftrightarrow> bytes_less b a) \<and> (r = 0 \<longleftrightarrow> a = b)" for a b
    using slice_compare_sgn [of a b] by (simp add: bytewise_Compare_def)
  show "bytewise_FindShortestSeparator a a = Some a" for a
    by (simp add: bytewise_FindShortestSeparator_def diff_loop_self)
qed (use bytewise_separator bytewise_successor bytewise_separator_length bytewise_successor_length in \<open>auto intro: lexordp_trans\<close>)

subsection \<open>Packing and unpacking\<close>

lemma Pack_nat:
  assumes "s \<le> kMaxSequenceNumber" "t \<le> kValueTypeForSeek"
  shows "\<exists>num. PackSequenceAndType s t = Some num \<and> unat num = 256 * unat s + unat t"
proof -
  have s: "unat s < 2 ^ 56"
    using assms(1) by (simp add: kMaxSequenceNumber_def word_le_nat_alt)
  have "unat (push_bit 8 s) = 256 * unat s"
    using s by (simp add: unsigned_push_bit_eq take_bit_eq_mod push_bit_eq_mult unat_word_ariths)
  moreover have "push_bit 8 s OR ucast t = push_bit 8 s + (ucast t :: 64 word)"
    by (rule disjunctive_add_eq_or [symmetric], rule bit_word_eqI) (auto simp: bit_simps dest: bit_imp_le_length)
  moreover have "unat (ucast t :: 64 word) = unat t"
    by (simp add: unsigned_ucast_eq take_bit_nat_eq_self less_le_trans [OF unat_less])
  moreover have "unat t < 256" using unat_less [of t] by simp
  ultimately have "unat (push_bit 8 s OR (ucast t :: 64 word)) = 256 * unat s + unat t"
    using s by (simp add: unat_word_ariths)
  with assms show ?thesis by (simp add: PackSequenceAndType_def)
qed

lemma Pack_cases:
  assumes "PackSequenceAndType s t = Some num"
  shows "s \<le> kMaxSequenceNumber" "t \<le> kValueTypeForSeek" "unat num = 256 * unat s + unat t" "unat t \<le> 1"
proof -
  show *: "s \<le> kMaxSequenceNumber" "t \<le> kValueTypeForSeek"
    using assms by (auto simp: PackSequenceAndType_def split: if_splits)
  from Pack_nat [OF *] assms show "unat num = 256 * unat s + unat t" by auto
  show "unat t \<le> 1" using *(2) by (simp add: kValueTypeForSeek_def kTypeValue_def word_le_nat_alt)
qed

lemma Pack_unpack:
  assumes "PackSequenceAndType s t = Some num"
  shows "drop_bit 8 num = s" "ucast (num AND 0xff) = t"
proof -
  note n = Pack_cases [OF assms]
  show "drop_bit 8 num = s"
    using n(3,4) by (simp add: word_unat_eq_iff unsigned_drop_bit_eq drop_bit_eq_div unat_div)
  have "unat (ucast num :: byte) = unat t"
    using n(3,4) by (simp add: unsigned_ucast_eq take_bit_eq_mod)
  then show "ucast (num AND 0xff) = t" by (simp add: ucast_and_ff word_unat_eq_iff)
qed

lemma AppendInternalKey_Some:
  assumes "AppendInternalKey le result key = Some k"
  obtains num where "PackSequenceAndType (pk_sequence key) (pk_type key) = Some num"
    "k = PutFixed64 le (result @ pk_user_key key) num"
  using assms by (auto simp: AppendInternalKey_def split: Option.bind_splits)

lemma ParseInternalKey_valid:
  assumes "key_valid k"
  shows "ParseInternalKey le k = Some (\<lparr>pk_user_key = key_user k, pk_sequence = drop_bit 8 (key_tag k),
      pk_type = ucast (key_tag k AND 0xff)\<rparr>, ucast (key_tag k AND 0xff) \<le> kTypeValue)"
  using Decode_tag [OF assms, of le] assms by (simp add: ParseInternalKey_def key_valid_def Let_def key_user_def)

lemma new_LookupKey_Some:
  assumes "new_LookupKey le u s = Some lk"
  obtains num where "PackSequenceAndType s kValueTypeForSeek = Some num" "internal_key lk = PutFixed64 le u num"
    "lookup_user_key lk = u" "memtable_key lk = EncodeVarint32 (of_nat (length u + 8)) @ internal_key lk"
  using assms by (auto simp: new_LookupKey_def internal_key_def lookup_user_key_def memtable_key_def PutFixed64_def
      EncodeFixed64_le Let_def split: Option.bind_splits)

text \<open>
  C30. An internal key is parsed back, whatever the byte order of the machines that wrote and read it: the user
  key, the sequence number and the type are those that were appended, the length is the announced one, and
  exactly the sequence numbers of at most 56 bits and the two defined types pass the assertions of the packing.
\<close>

theorem internal_key_roundtrip:
  "((\<exists>k. AppendInternalKey le [] key = Some k) \<longleftrightarrow> pk_sequence key < 2 ^ 56 \<and> pk_type key \<in> {kTypeDeletion, kTypeValue}) \<and>
   (AppendInternalKey le [] key = Some k \<longrightarrow>
      ParseInternalKey le' k = Some (key, True) \<and> ExtractUserKey k = Some (pk_user_key key) \<and> length k = InternalKeyEncodingLength key)"
proof
  have "pk_sequence key < 2 ^ 56 \<longleftrightarrow> pk_sequence key \<le> kMaxSequenceNumber"
    by (simp add: kMaxSequenceNumber_def word_le_nat_alt word_less_nat_alt) linarith
  moreover have "pk_type key \<in> {kTypeDeletion, kTypeValue} \<longleftrightarrow> pk_type key \<le> kValueTypeForSeek"
    by (auto simp: kTypeDeletion_def kTypeValue_def kValueTypeForSeek_def word_le_nat_alt word_unat_eq_iff)
  ultimately show "(\<exists>k. AppendInternalKey le [] key = Some k) \<longleftrightarrow> pk_sequence key < 2 ^ 56 \<and> pk_type key \<in> {kTypeDeletion, kTypeValue}"
    by (auto simp: AppendInternalKey_def PackSequenceAndType_def)
  show "AppendInternalKey le [] key = Some k \<longrightarrow>
      ParseInternalKey le' k = Some (key, True) \<and> ExtractUserKey k = Some (pk_user_key key) \<and> length k = InternalKeyEncodingLength key"
  proof
    assume "AppendInternalKey le [] key = Some k"
    then obtain num where n: "PackSequenceAndType (pk_sequence key) (pk_type key) = Some num" "k = PutFixed64 le (pk_user_key key) num"
      by (rule AppendInternalKey_Some) simp
    then have "key_valid k" "key_user k = pk_user_key key" "key_tag k = num" by simp_all
    moreover have "length k = length (pk_user_key key) + 8" using n(2) by (simp add: PutFixed64_def EncodeFixed64_le)
    ultimately show "ParseInternalKey le' k = Some (key, True) \<and> ExtractUserKey k = Some (pk_user_key key) \<and> length k = InternalKeyEncodingLength key"
      using Pack_unpack [OF n(1)] Pack_cases(2) [OF n(1)]
      by (simp add: ParseInternalKey_valid ExtractUserKey_valid InternalKeyEncodingLength_def kValueTypeForSeek_def)
  qed
qed

theorem internal_key_roundtrip_witness:
  "ParseInternalKey False (PutFixed64 True [97] 257) = Some (\<lparr>pk_user_key = [97], pk_sequence = 1, pk_type = 1\<rparr>, True)"
proof -
  have "AppendInternalKey True [] \<lparr>pk_user_key = [97], pk_sequence = 1, pk_type = 1\<rparr> = Some (PutFixed64 True [97] 257)"
    by code_simp
  with internal_key_roundtrip [of True "\<lparr>pk_user_key = [97], pk_sequence = 1, pk_type = 1\<rparr>" "PutFixed64 True [97] 257" False, THEN conjunct2]
  show ?thesis by simp
qed

text \<open>
  C13. What the index of a table relies on: for two internal keys in order, the separator the comparator picks lies
  at or above the first and below the second, so an index entry with that key sends a search to the right block;
  the successor of a last key does not lie below it.  The assertions in these functions hold.
\<close>

theorem internal_separator_sound:
  assumes "key_valid a" "key_valid b" "internal_less bytes_less a b"
  shows "(\<exists>r. internal_FindShortestSeparator le bytewise_Compare bytewise_FindShortestSeparator a b = Some r \<and> key_valid r
      \<and> (r = a \<or> internal_less bytes_less a r) \<and> internal_less bytes_less r b) \<and>
    (\<exists>r. internal_FindShortSuccessor le bytewise_Compare (\<lambda>k. Some (bytewise_FindShortSuccessor k)) a = Some r \<and> key_valid r
      \<and> (r = a \<or> internal_less bytes_less a r))"
  using bytewise.internal.separator_between [OF assms] bytewise.internal.successor_above [OF assms(1)] by blast

theorem internal_separator_sound_witness:
  "\<exists>r. internal_FindShortestSeparator True bytewise_Compare bytewise_FindShortestSeparator
      ([97, 97, 97] @ EncodeFixed64 True 257) ([99] @ EncodeFixed64 True 513) = Some r \<and> key_valid r
    \<and> (r = [97, 97, 97] @ EncodeFixed64 True 257 \<or> internal_less bytes_less ([97, 97, 97] @ EncodeFixed64 True 257) r)
    \<and> internal_less bytes_less r ([99] @ EncodeFixed64 True 513)"
  by (rule internal_separator_sound [THEN conjunct1]) code_simp+

text \<open>
  C12. A reader at snapshot \<open>s\<close> looks its key up with the sequence number \<open>s\<close>.  The position of the lookup key
  in the order of the entries is exact: it is at or before an entry of a table if and only if the entry has a
  larger user key, or the same user key and was written no later than the snapshot.  So the first entry at or
  after the lookup key is the newest version the snapshot may see.
\<close>

theorem lookup_key_sees_snapshot:
  assumes lk: "new_LookupKey le u s = Some lk" and k: "new_InternalKey le u' s' t = Some k"
  shows "(\<exists>r. internal_Compare le bytewise_Compare (internal_key lk) k = Some r \<and>
           (r \<le> 0 \<longleftrightarrow> bytes_less u u' \<or> u = u' \<and> s' \<le> s))
    \<and> ExtractUserKey (internal_key lk) = Some u \<and> lookup_user_key lk = u"
proof (intro conjI)
  from lk obtain num where n: "PackSequenceAndType s kValueTypeForSeek = Some num" "internal_key lk = PutFixed64 le u num"
    and lu: "lookup_user_key lk = u"
    by (rule new_LookupKey_Some)
  from k obtain num' where n': "PackSequenceAndType s' t = Some num'" "k = PutFixed64 le u' num'"
    unfolding new_InternalKey_def by (rule AppendInternalKey_Some) simp
  have "num < num' \<longleftrightarrow> s < s'"
    using Pack_cases(3,4) [OF n(1)] Pack_cases(3,4) [OF n'(1)] 
    by (simp add: word_less_nat_alt kValueTypeForSeek_def kTypeValue_def) linarith
  then have "internal_less bytes_less k (internal_key lk) \<longleftrightarrow> bytes_less u' u \<or> u = u' \<and> s < s'"
    by (auto simp: n(2) n'(2) internal_less_def)
  moreover obtain r where "internal_Compare le bytewise_Compare (internal_key lk) k = Some r"
      "0 < r \<longleftrightarrow> internal_less bytes_less k (internal_key lk)"
    using bytewise.internal.compare_sgn [of "internal_key lk" k le] n(2) n'(2) by auto
  ultimately show "\<exists>r. internal_Compare le bytewise_Compare (internal_key lk) k = Some r \<and>
           (r \<le> 0 \<longleftrightarrow> bytes_less u u' \<or> u = u' \<and> s' \<le> s)"
    using bytewise.less_asym [of u u'] bytewise.less_total [of u u'] bytewise.less_irrefl [of u]
    by (metis linorder_not_le)
  show "ExtractUserKey (internal_key lk) = Some u" "lookup_user_key lk = u"
    using lu by (simp_all add: n(2) ExtractUserKey_valid)
qed

theorem lookup_key_sees_snapshot_witness:
  "\<exists>lk k r. new_LookupKey True [97] 5 = Some lk \<and> new_InternalKey True [97] 6 1 = Some k
     \<and> internal_Compare True bytewise_Compare (internal_key lk) k = Some r \<and> 0 < r"
proof -
  obtain lk k where l: "new_LookupKey True [97] 5 = Some lk" "new_InternalKey True [97] 6 1 = Some k"
    by (simp add: new_LookupKey_def new_InternalKey_def AppendInternalKey_def PackSequenceAndType_def
        kMaxSequenceNumber_def kValueTypeForSeek_def kTypeValue_def Let_def)
  from lookup_key_sees_snapshot [OF l] l show ?thesis by (auto simp: linorder_not_le)
qed

end
