(* ===== verification/VersionEdit.thy ===== *)
theory VersionEdit
  imports Comparator "HOL-Library.Product_Lexorder"
begin

section \<open>Version edits (\<open>leveldb-1.20/db/version_edit.cc\<close>)\<close>

text \<open>
  The changes of the set of table files that are logged in the manifest.  The record has the
  fields of the class; an \<open>InternalKey\<close> is the string it holds, the ordered set of deleted
  files is a finite set that is written in increasing order.
\<close>

subsection \<open>State\<close>

record FileMetaData =
  fm_refs :: int
  fm_allowed_seeks :: int
  fm_number :: "64 word"
  fm_file_size :: "64 word"
  fm_smallest :: bytes
  fm_largest :: bytes

record VersionEdit =
  ve_comparator :: bytes
  ve_log_number :: "64 word"
  ve_prev_log_number :: "64 word"
  ve_next_file_number :: "64 word"
  ve_last_sequence :: "64 word"
  ve_has_comparator :: bool
  ve_has_log_number :: bool
  ve_has_prev_log_number :: bool
  ve_has_next_file_number :: bool
  ve_has_last_sequence :: bool
  ve_compact_pointers :: "(int \<times> bytes) list"
  ve_deleted_files :: "(int \<times> 64 word) set"
  ve_new_files :: "(int \<times> FileMetaData) list"

definition new_FileMetaData :: "64 word \<Rightarrow> 64 word \<Rightarrow> bytes \<Rightarrow> bytes \<Rightarrow> FileMetaData" where
  "new_FileMetaData number fsize smallest largest =
     \<lparr>fm_refs = 0, fm_allowed_seeks = 2 ^ 30, fm_number = number, fm_file_size = fsize,
      fm_smallest = smallest, fm_largest = largest\<rparr>"

text \<open>\<open>Clear\<close> resets all fields but \<open>compact_pointers_\<close>.\<close>

definition ve_Clear :: "VersionEdit \<Rightarrow> VersionEdit" where
  "ve_Clear e = e\<lparr>ve_comparator := [], ve_log_number := 0, ve_prev_log_number := 0, ve_last_sequence := 0,
     ve_next_file_number := 0, ve_has_comparator := False, ve_has_log_number := False,
     ve_has_prev_log_number := False, ve_has_next_file_number := False, ve_has_last_sequence := False,
     ve_deleted_files := {}, ve_new_files := []\<rparr>"

definition new_VersionEdit :: VersionEdit where
  "new_VersionEdit =
     \<lparr>ve_comparator = [], ve_log_number = 0, ve_prev_log_number = 0, ve_next_file_number = 0,
      ve_last_sequence = 0, ve_has_comparator = False, ve_has_log_number = False,
      ve_has_prev_log_number = False, ve_has_next_file_number = False, ve_has_last_sequence = False,
      ve_compact_pointers = [], ve_deleted_files = {}, ve_new_files = []\<rparr>"

definition SetComparatorName :: "bytes \<Rightarrow> VersionEdit \<Rightarrow> VersionEdit" where
  "SetComparatorName name e = e\<lparr>ve_has_comparator := True, ve_comparator := name\<rparr>"

definition SetLogNumber :: "64 word \<Rightarrow> VersionEdit \<Rightarrow> VersionEdit" where
  "SetLogNumber n e = e\<lparr>ve_has_log_number := True, ve_log_number := n\<rparr>"

definition SetPrevLogNumber :: "64 word \<Rightarrow> VersionEdit \<Rightarrow> VersionEdit" where
  "SetPrevLogNumber n e = e\<lparr>ve_has_prev_log_number := True, ve_prev_log_number := n\<rparr>"

definition SetNextFile :: "64 word \<Rightarrow> VersionEdit \<Rightarrow> VersionEdit" where
  "SetNextFile n e = e\<lparr>ve_has_next_file_number := True, ve_next_file_number := n\<rparr>"

definition SetLastSequence :: "64 word \<Rightarrow> VersionEdit \<Rightarrow> VersionEdit" where
  "SetLastSequence n e = e\<lparr>ve_has_last_sequence := True, ve_last_sequence := n\<rparr>"

definition SetCompactPointer :: "int \<Rightarrow> bytes \<Rightarrow> VersionEdit \<Rightarrow> VersionEdit" where
  "SetCompactPointer level key e = e\<lparr>ve_compact_pointers := ve_compact_pointers e @ [(level, key)]\<rparr>"

definition AddFile :: "int \<Rightarrow> 64 word \<Rightarrow> 64 word \<Rightarrow> bytes \<Rightarrow> bytes \<Rightarrow> VersionEdit \<Rightarrow> VersionEdit" where
  "AddFile level file fsize smallest largest e =
     e\<lparr>ve_new_files := ve_new_files e @ [(level, new_FileMetaData file fsize smallest largest)]\<rparr>"

definition DeleteFile :: "int \<Rightarrow> 64 word \<Rightarrow> VersionEdit \<Rightarrow> VersionEdit" where
  "DeleteFile level file e = e\<lparr>ve_deleted_files := insert (level, file) (ve_deleted_files e)\<rparr>"

subsection \<open>Encoding\<close>

definition kComparator :: "32 word" where "kComparator = 1"
definition kLogNumber :: "32 word" where "kLogNumber = 2"
definition kNextFileNumber :: "32 word" where "kNextFileNumber = 3"
definition kLastSequence :: "32 word" where "kLastSequence = 4"
definition kCompactPointer :: "32 word" where "kCompactPointer = 5"
definition kDeletedFile :: "32 word" where "kDeletedFile = 6"
definition kNewFile :: "32 word" where "kNewFile = 7"
definition kPrevLogNumber :: "32 word" where "kPrevLogNumber = 9"

lemmas tag_defs = kComparator_def kLogNumber_def kNextFileNumber_def kLastSequence_def kCompactPointer_def
  kDeletedFile_def kNewFile_def kPrevLogNumber_def

definition put_number :: "bool \<Rightarrow> 32 word \<Rightarrow> 64 word \<Rightarrow> bytes \<Rightarrow> bytes" where
  "put_number has tag n dst = (if has then PutVarint64 (PutVarint32 dst tag) n else dst)"

text \<open>The bodies of the three loops; \<open>InternalKey::Encode\<close> asserts that the key is not empty.\<close>

definition put_compact_pointer :: "bytes \<Rightarrow> int \<times> bytes \<Rightarrow> bytes option" where
  "put_compact_pointer dst = (\<lambda>(level, key).
     do {
       let dst = PutVarint32 dst kCompactPointer;
       let dst = PutVarint32 dst (word_of_int level);
       key \<leftarrow> InternalKey_Encode key;
       Some (PutLengthPrefixedSlice dst key) })"

definition put_deleted_file :: "bytes \<Rightarrow> int \<times> 64 word \<Rightarrow> bytes" where
  "put_deleted_file dst = (\<lambda>(level, number).
     PutVarint64 (PutVarint32 (PutVarint32 dst kDeletedFile) (word_of_int level)) number)"

definition put_new_file :: "bytes \<Rightarrow> int \<times> FileMetaData \<Rightarrow> bytes option" where
  "put_new_file dst = (\<lambda>(level, f).
     do {
       let dst = PutVarint32 dst kNewFile;
       let dst = PutVarint32 dst (word_of_int level);
       let dst = PutVarint64 dst (fm_number f);
       let dst = PutVarint64 dst (fm_file_size f);
       key \<leftarrow> InternalKey_Encode (fm_smallest f);
       let dst = PutLengthPrefixedSlice dst key;
       key \<leftarrow> InternalKey_Encode (fm_largest f);
       Some (PutLengthPrefixedSlice dst key) })"

definition EncodeTo :: "VersionEdit \<Rightarrow> bytes \<Rightarrow> bytes option" where
  "EncodeTo e dst =
     do {
       let dst = (if ve_has_comparator e
                  then PutLengthPrefixedSlice (PutVarint32 dst kComparator) (ve_comparator e) else dst);
       let dst = put_number (ve_has_log_number e) kLogNumber (ve_log_number e) dst;
       let dst = put_number (ve_has_prev_log_number e) kPrevLogNumber (ve_prev_log_number e) dst;
       let dst = put_number (ve_has_next_file_number e) kNextFileNumber (ve_next_file_number e) dst;
       let dst = put_number (ve_has_last_sequence e) kLastSequence (ve_last_sequence e) dst;
       dst \<leftarrow> foldl_opt put_compact_pointer dst (ve_compact_pointers e);
       let dst = foldl put_deleted_file dst (sorted_list_of_set (ve_deleted_files e));
       foldl_opt put_new_file dst (ve_new_files e) }"

subsection \<open>Decoding\<close>

text \<open>
  A getter returns \<open>Some (Some _)\<close> for \<open>true\<close>, \<open>Some None\<close> for \<open>false\<close> and \<open>None\<close> for an access outside of the
  input; \<open>and_get\<close> is the \<open>&&\<close> of two of them.
\<close>

definition and_get :: "'a option option \<Rightarrow> ('a \<Rightarrow> 'b option option) \<Rightarrow> 'b option option" where
  "and_get r f = (case r of None \<Rightarrow> None | Some None \<Rightarrow> Some None | Some (Some x) \<Rightarrow> f x)"

definition GetInternalKey :: "bytes \<Rightarrow> (bytes \<times> bytes) option option" where
  "GetInternalKey input =
     and_get (GetLengthPrefixedSlice input) (\<lambda>(str, input). Some (Some (InternalKey_DecodeFrom str, input)))"

definition kNumLevels :: nat where "kNumLevels = 7"

definition GetLevel :: "bytes \<Rightarrow> (int \<times> bytes) option" where
  "GetLevel input =
     do { (v, input) \<leftarrow> GetVarint32 input;
          (if unat v < kNumLevels then Some (uint v, input) else None) }"

text \<open>One round of the \<open>switch\<close>: the message of a failed field or the rest of the input.\<close>

definition field :: "string \<Rightarrow> (VersionEdit \<times> bytes) option option \<Rightarrow> (string + VersionEdit \<times> bytes) option" where
  "field msg r = (case r of None \<Rightarrow> None | Some None \<Rightarrow> Some (Inl msg) | Some (Some x) \<Rightarrow> Some (Inr x))"

definition decode_field :: "32 word \<Rightarrow> bytes \<Rightarrow> VersionEdit \<Rightarrow> (string + VersionEdit \<times> bytes) option" where
  "decode_field tag input e =
     (if tag = kComparator then field ''comparator name''
        (and_get (GetLengthPrefixedSlice input) (\<lambda>(str, input).
         Some (Some (e\<lparr>ve_comparator := str, ve_has_comparator := True\<rparr>, input))))
      else if tag = kLogNumber then field ''log number''
        (and_get (Some (GetVarint64 input)) (\<lambda>(n, input).
         Some (Some (e\<lparr>ve_log_number := n, ve_has_log_number := True\<rparr>, input))))
      else if tag = kPrevLogNumber then field ''previous log number''
        (and_get (Some (GetVarint64 input)) (\<lambda>(n, input).
         Some (Some (e\<lparr>ve_prev_log_number := n, ve_has_prev_log_number := True\<rparr>, input))))
      else if tag = kNextFileNumber then field ''next file number''
        (and_get (Some (GetVarint64 input)) (\<lambda>(n, input).
         Some (Some (e\<lparr>ve_next_file_number := n, ve_has_next_file_number := True\<rparr>, input))))
      else if tag = kLastSequence then field ''last sequence number''
        (and_get (Some (GetVarint64 input)) (\<lambda>(n, input).
         Some (Some (e\<lparr>ve_last_sequence := n, ve_has_last_sequence := True\<rparr>, input))))
      else if tag = kCompactPointer then field ''compaction pointer''
        (and_get (Some (GetLevel input)) (\<lambda>(level, input).
         and_get (GetInternalKey input) (\<lambda>(key, input).
         Some (Some (e\<lparr>ve_compact_pointers := ve_compact_pointers e @ [(level, key)]\<rparr>, input)))))
      else if tag = kDeletedFile then field ''deleted file''
        (and_get (Some (GetLevel input)) (\<lambda>(level, input).
         and_get (Some (GetVarint64 input)) (\<lambda>(n, input).
         Some (Some (e\<lparr>ve_deleted_files := insert (level, n) (ve_deleted_files e)\<rparr>, input)))))
      else if tag = kNewFile then field ''new-file entry''
        (and_get (Some (GetLevel input)) (\<lambda>(level, input).
         and_get (Some (GetVarint64 input)) (\<lambda>(n, input).
         and_get (Some (GetVarint64 input)) (\<lambda>(fsize, input).
         and_get (GetInternalKey input) (\<lambda>(smallest, input).
         and_get (GetInternalKey input) (\<lambda>(largest, input).
         Some (Some (e\<lparr>ve_new_files := ve_new_files e @ [(level, new_FileMetaData n fsize smallest largest)]\<rparr>, input))))))))
      else Some (Inl ''unknown tag''))"

lemma GetLevel_length: "GetLevel p = Some (v, q) \<Longrightarrow> length q < length p"
  by (auto simp: GetLevel_def Option.bind_eq_Some_conv dest: GetVarint32_length split: if_splits)

lemma and_get_Some: "and_get r f = Some (Some y) \<longleftrightarrow> (\<exists>x. r = Some (Some x) \<and> f x = Some (Some y))"
  by (auto simp: and_get_def split: option.splits)

lemma GetInternalKey_Some: "GetInternalKey p = Some (Some (k, q)) \<longleftrightarrow> GetLengthPrefixedSlice p = Some (Some (k, q))"
  by (auto simp: GetInternalKey_def and_get_Some InternalKey_DecodeFrom_def)

lemmas get_length = GetVarint32_length GetVarint64_length GetLengthPrefixedSlice_length GetLevel_length

lemma field_Inr: "field msg r = Some (Inr x) \<longleftrightarrow> r = Some (Some x)"
  by (auto simp: field_def split: option.splits)

lemma decode_field_length: "decode_field tag input e = Some (Inr (e', input')) \<Longrightarrow> length input' < length input"
  unfolding decode_field_def
  by (auto simp: field_Inr and_get_Some GetInternalKey_Some dest!: get_length split: if_splits)

function decode_loop :: "bytes \<Rightarrow> VersionEdit \<Rightarrow> (VersionEdit \<times> bytes \<times> string option) option" where
  "decode_loop input e =
     (case GetVarint32 input of
        None \<Rightarrow> Some (e, input, None)
      | Some (tag, input) \<Rightarrow>
          (case decode_field tag input e of
             None \<Rightarrow> None
           | Some (Inl msg) \<Rightarrow> Some (e, input, Some msg)
           | Some (Inr (e, input)) \<Rightarrow> decode_loop input e))"
  by pat_completeness auto
termination
  by (relation "measure (\<lambda>(input, e). length input)")
     (auto dest!: decode_field_length GetVarint32_length)

declare decode_loop.simps [simp del]

definition DecodeFrom :: "bytes \<Rightarrow> VersionEdit \<Rightarrow> (VersionEdit \<times> status) option" where
  "DecodeFrom src e =
     do {
       (e, input, msg) \<leftarrow> decode_loop src (ve_Clear e);
       let msg = (if msg = None \<and> input \<noteq> [] then Some ''invalid tag'' else msg);
       Some (e, case msg of None \<Rightarrow> StatusOK | Some m \<Rightarrow> Corruption (''VersionEdit: '' @ m)) }"

subsection \<open>Round trip\<close>

definition file_ok :: "int \<times> FileMetaData \<Rightarrow> bool" where
  "file_ok = (\<lambda>(level, f). 0 \<le> level \<and> level < 7 \<and> short (fm_smallest f) \<and> short (fm_largest f) \<and>
     fm_smallest f \<noteq> [] \<and> fm_largest f \<noteq> [] \<and>
     f = new_FileMetaData (fm_number f) (fm_file_size f) (fm_smallest f) (fm_largest f))"

text \<open>What the setters keep true of an edit when they get valid levels and strings.\<close>

definition edit_ok :: "VersionEdit \<Rightarrow> bool" where
  "edit_ok e \<longleftrightarrow>
     short (ve_comparator e) \<and> (\<not> ve_has_comparator e \<longrightarrow> ve_comparator e = []) \<and>
     (\<not> ve_has_log_number e \<longrightarrow> ve_log_number e = 0) \<and> (\<not> ve_has_prev_log_number e \<longrightarrow> ve_prev_log_number e = 0) \<and>
     (\<not> ve_has_next_file_number e \<longrightarrow> ve_next_file_number e = 0) \<and> (\<not> ve_has_last_sequence e \<longrightarrow> ve_last_sequence e = 0) \<and>
     (\<forall>(level, key) \<in> set (ve_compact_pointers e). 0 \<le> level \<and> level < 7 \<and> short key \<and> key \<noteq> []) \<and>
     finite (ve_deleted_files e) \<and> (\<forall>(level, n) \<in> ve_deleted_files e. 0 \<le> level \<and> level < 7) \<and>
     (\<forall>x \<in> set (ve_new_files e). file_ok x)"

lemma GetLevel_enc: "0 \<le> level \<Longrightarrow> level < 7 \<Longrightarrow> GetLevel (EncodeVarint32 (word_of_int level) @ rest) = Some (level, rest)"
proof -
  assume l: "0 \<le> level" "level < 7"
  then have "uint (word_of_int level :: 32 word) = level" by (simp add: uint_word_of_int_small)
  moreover from this have "unat (word_of_int level :: 32 word) < 7" using l by (metis int_ops(3) nat_less_iff of_nat_numeral unat_eq_nat_uint uint_nonnegative zless_nat_eq_int_zless)
  ultimately show ?thesis by (simp add: GetLevel_def varint32.dec_enc kNumLevels_def)
qed

interpretation level_codec: prefix_codec "\<lambda>l. 0 \<le> l \<and> l < 7" "\<lambda>l. EncodeVarint32 (word_of_int l)" GetLevel
  by unfold_locales (simp add: GetLevel_enc)

text \<open>An entry for a deleted file: a level, then a file number.\<close>

interpretation deleted_codec: codec_pair "\<lambda>l. 0 \<le> l \<and> l < 7" "\<lambda>l. EncodeVarint32 (word_of_int l)" GetLevel
  "\<lambda>_. True" EncodeVarint64 GetVarint64
  by unfold_locales

lemmas put_defs = PutVarint32_def PutVarint64_def PutLengthPrefixedSlice_def

lemma decode_tag:
  "decode_loop (EncodeVarint32 tag @ input) e =
     (case decode_field tag input e of
        None \<Rightarrow> None
      | Some (Inl msg) \<Rightarrow> Some (e, input, Some msg)
      | Some (Inr (e, input)) \<Rightarrow> decode_loop input e)"
  by (subst decode_loop.simps) (simp add: varint32.dec_enc)

lemma decode_numbers:
  "decode_loop (put_number has kLogNumber n [] @ rest) e =
     decode_loop rest (if has then e\<lparr>ve_log_number := n, ve_has_log_number := True\<rparr> else e)"
  "decode_loop (put_number has kPrevLogNumber n [] @ rest) e =
     decode_loop rest (if has then e\<lparr>ve_prev_log_number := n, ve_has_prev_log_number := True\<rparr> else e)"
  "decode_loop (put_number has kNextFileNumber n [] @ rest) e =
     decode_loop rest (if has then e\<lparr>ve_next_file_number := n, ve_has_next_file_number := True\<rparr> else e)"
  "decode_loop (put_number has kLastSequence n [] @ rest) e =
     decode_loop rest (if has then e\<lparr>ve_last_sequence := n, ve_has_last_sequence := True\<rparr> else e)"
  by (simp_all add: put_number_def PutVarint32_def PutVarint64_def decode_tag decode_field_def tag_defs
      field_def and_get_def varint64.dec_enc)

lemma decode_comparator:
  "short s \<Longrightarrow> decode_loop (EncodeVarint32 kComparator @ PutLengthPrefixedSlice [] s @ rest) e =
     decode_loop rest (e\<lparr>ve_comparator := s, ve_has_comparator := True\<rparr>)"
  by (simp add: decode_tag decode_field_def field_def and_get_def GetLengthPrefixedSlice_enc)

lemma foldl_append: "(\<And>dst x. put dst x = dst @ put [] x) \<Longrightarrow> foldl put dst xs = dst @ concat (map (put []) xs)"
proof (induction xs arbitrary: dst)
  case (Cons x xs)
  then show ?case by (metis append.assoc concat.simps(2) foldl_Cons list.simps(9))
qed simp

text \<open>What the loops append for one entry.\<close>

definition pointer_bytes :: "int \<times> bytes \<Rightarrow> bytes" where
  "pointer_bytes = (\<lambda>(level, key).
     EncodeVarint32 kCompactPointer @ EncodeVarint32 (word_of_int level) @ PutLengthPrefixedSlice [] key)"

definition file_bytes :: "int \<times> FileMetaData \<Rightarrow> bytes" where
  "file_bytes = (\<lambda>(level, f).
     EncodeVarint32 kNewFile @ EncodeVarint32 (word_of_int level) @ EncodeVarint64 (fm_number f) @
     EncodeVarint64 (fm_file_size f) @ PutLengthPrefixedSlice [] (fm_smallest f) @ PutLengthPrefixedSlice [] (fm_largest f))"

lemma put_pointers:
  assumes "\<forall>(level, key) \<in> set xs. key \<noteq> []"
  shows "foldl_opt put_compact_pointer dst xs = Some (dst @ concat (map pointer_bytes xs))"
proof -
  have "\<forall>dst. \<forall>x \<in> set xs. put_compact_pointer dst x = Some (dst @ pointer_bytes x)"
    using assms by (auto simp: put_compact_pointer_def pointer_bytes_def InternalKey_Encode_def put_defs)
  from foldl_opt_total [OF this] foldl_append [of "\<lambda>dst x. dst @ pointer_bytes x"] show ?thesis by simp
qed

lemma put_files:
  assumes "\<forall>x \<in> set xs. file_ok x"
  shows "foldl_opt put_new_file dst xs = Some (dst @ concat (map file_bytes xs))"
proof -
  have "\<forall>dst. \<forall>x \<in> set xs. put_new_file dst x = Some (dst @ file_bytes x)"
    using assms by (fastforce simp: put_new_file_def file_bytes_def InternalKey_Encode_def put_defs file_ok_def)
  from foldl_opt_total [OF this] foldl_append [of "\<lambda>dst x. dst @ file_bytes x"] show ?thesis by simp
qed

lemma put_deleted_append: "put_deleted_file dst q = dst @ put_deleted_file [] q"
  by (simp add: put_deleted_file_def put_defs split_def)

lemma put_entry:
  "put_deleted_file [] (level, n) =
     EncodeVarint32 kDeletedFile @ EncodeVarint32 (word_of_int level) @ EncodeVarint64 n"
  by (simp add: put_deleted_file_def put_defs)

lemmas decode_entry = decode_tag decode_field_def tag_defs field_def and_get_def level_codec.dec_enc varint64.dec_enc
  GetLengthPrefixedSlice_enc GetInternalKey_def InternalKey_DecodeFrom_def

lemma decode_compact_pointers:
  "\<forall>(level, key) \<in> set xs. 0 \<le> level \<and> level < 7 \<and> short key \<and> key \<noteq> [] \<Longrightarrow>
   decode_loop (concat (map pointer_bytes xs) @ rest) e =
   decode_loop rest (e\<lparr>ve_compact_pointers := ve_compact_pointers e @ xs\<rparr>)"
proof (induction xs arbitrary: e)
  case (Cons x xs)
  then show ?case by (cases x) (simp add: pointer_bytes_def decode_entry)
qed simp

lemma decode_deleted_files:
  "\<forall>(level, n) \<in> set xs. 0 \<le> level \<and> level < 7 \<Longrightarrow>
   decode_loop (concat (map (put_deleted_file []) xs) @ rest) e =
   decode_loop rest (e\<lparr>ve_deleted_files := ve_deleted_files e \<union> set xs\<rparr>)"
proof (induction xs arbitrary: e)
  case (Cons x xs)
  then show ?case by (cases x) (simp add: put_entry decode_entry)
qed simp

lemma decode_new_files:
  "\<forall>x \<in> set xs. file_ok x \<Longrightarrow>
   decode_loop (concat (map file_bytes xs) @ rest) e =
   decode_loop rest (e\<lparr>ve_new_files := ve_new_files e @ xs\<rparr>)"
proof (induction xs arbitrary: e)
  case (Cons x xs)
  obtain level f where x: "x = (level, f)" by (cases x)
  have "0 \<le> level" "level < 7" "short (fm_smallest f)" "short (fm_largest f)"
    "new_FileMetaData (fm_number f) (fm_file_size f) (fm_smallest f) (fm_largest f) = f"
    using Cons.prems by (simp_all add: x file_ok_def)
  then show ?case using Cons by (simp add: x file_bytes_def decode_entry)
qed simp

lemma decode_end: "decode_loop [] e = Some (e, [], None)"
  by (subst decode_loop.simps) (simp add: GetVarint32_def GetVarint32Ptr_def GetVarint32PtrFallback_def)

definition edit_bytes :: "VersionEdit \<Rightarrow> bytes" where
  "edit_bytes e =
     (if ve_has_comparator e then EncodeVarint32 kComparator @ PutLengthPrefixedSlice [] (ve_comparator e) else []) @
     put_number (ve_has_log_number e) kLogNumber (ve_log_number e) [] @
     put_number (ve_has_prev_log_number e) kPrevLogNumber (ve_prev_log_number e) [] @
     put_number (ve_has_next_file_number e) kNextFileNumber (ve_next_file_number e) [] @
     put_number (ve_has_last_sequence e) kLastSequence (ve_last_sequence e) [] @
     concat (map pointer_bytes (ve_compact_pointers e)) @
     concat (map (put_deleted_file []) (sorted_list_of_set (ve_deleted_files e))) @
     concat (map file_bytes (ve_new_files e))"

lemma EncodeTo_bytes:
  assumes "edit_ok e"
  shows "EncodeTo e [] = Some (edit_bytes e)"
proof -
  have "\<forall>(level, key) \<in> set (ve_compact_pointers e). key \<noteq> []" "\<forall>x \<in> set (ve_new_files e). file_ok x"
    using assms by (auto simp: edit_ok_def)
  then show ?thesis
    unfolding EncodeTo_def Let_def edit_bytes_def foldl_append [OF put_deleted_append]
    by (simp add: put_pointers put_files put_number_def put_defs)
qed

lemma edit_decode_encode:
  assumes ok: "edit_ok e"
  shows "DecodeFrom (edit_bytes e) e0 = Some (e\<lparr>ve_compact_pointers := ve_compact_pointers e0 @ ve_compact_pointers e\<rparr>, StatusOK)"
proof -
  have c: "decode_loop ((if ve_has_comparator e then EncodeVarint32 kComparator @ PutLengthPrefixedSlice [] (ve_comparator e) else []) @ rest) x =
      decode_loop rest (if ve_has_comparator e then x\<lparr>ve_comparator := ve_comparator e, ve_has_comparator := True\<rparr> else x)" for rest x
    using ok by (simp add: edit_ok_def decode_comparator)
  have s: "set (sorted_list_of_set (ve_deleted_files e)) = ve_deleted_files e" using ok by (simp add: edit_ok_def)
  have "\<forall>(level, n) \<in> set (sorted_list_of_set (ve_deleted_files e)). 0 \<le> level \<and> level < 7"
    using ok unfolding s by (simp add: edit_ok_def)
  note parts = decode_compact_pointers [of "ve_compact_pointers e"] decode_deleted_files [OF this]
    decode_new_files [of "ve_new_files e" "[]", simplified]
  show ?thesis
    using ok unfolding DecodeFrom_def edit_bytes_def c decode_numbers edit_ok_def
    by (simp add: parts decode_end ve_Clear_def s)
qed

datatype edit_op =
    EComparator bytes | ELogNumber "64 word" | EPrevLogNumber "64 word" | ENextFile "64 word"
  | ELastSequence "64 word" | ECompactPointer int bytes | EAddFile int "64 word" "64 word" bytes bytes
  | EDeleteFile int "64 word"

fun edit_apply :: "edit_op \<Rightarrow> VersionEdit \<Rightarrow> VersionEdit" where
  "edit_apply (EComparator name) e = SetComparatorName name e"
| "edit_apply (ELogNumber n) e = SetLogNumber n e"
| "edit_apply (EPrevLogNumber n) e = SetPrevLogNumber n e"
| "edit_apply (ENextFile n) e = SetNextFile n e"
| "edit_apply (ELastSequence n) e = SetLastSequence n e"
| "edit_apply (ECompactPointer level key) e = SetCompactPointer level key e"
| "edit_apply (EAddFile level n fsize smallest largest) e = AddFile level n fsize smallest largest e"
| "edit_apply (EDeleteFile level n) e = DeleteFile level n e"

fun edit_arg_ok :: "edit_op \<Rightarrow> bool" where
  "edit_arg_ok (EComparator name) \<longleftrightarrow> short name"
| "edit_arg_ok (ECompactPointer level key) \<longleftrightarrow> 0 \<le> level \<and> level < 7 \<and> short key \<and> key \<noteq> []"
| "edit_arg_ok (EAddFile level n fsize smallest largest) \<longleftrightarrow>
     0 \<le> level \<and> level < 7 \<and> short smallest \<and> short largest \<and> smallest \<noteq> [] \<and> largest \<noteq> []"
| "edit_arg_ok (EDeleteFile level n) \<longleftrightarrow> 0 \<le> level \<and> level < 7"
| "edit_arg_ok _ \<longleftrightarrow> True"

lemmas setter_defs = SetComparatorName_def SetLogNumber_def SetPrevLogNumber_def SetNextFile_def SetLastSequence_def
  SetCompactPointer_def AddFile_def DeleteFile_def

lemma edit_apply_ok: "edit_ok e \<Longrightarrow> edit_arg_ok x \<Longrightarrow> edit_ok (edit_apply x e)"
  by (cases x) (auto simp: setter_defs edit_ok_def file_ok_def new_FileMetaData_def)

lemma edit_build_ok: "edit_ok e \<Longrightarrow> \<forall>x \<in> set xs. edit_arg_ok x \<Longrightarrow> edit_ok (fold edit_apply xs e)"
  by (induction xs arbitrary: e) (auto intro: edit_apply_ok)

lemma new_edit_ok: "edit_ok new_VersionEdit"
  by (simp add: edit_ok_def new_VersionEdit_def)

text \<open>
  C10.  An edit that is built by any sequence of its setters, with levels from 0 to 6, strings of
  less than \<open>2 ^ 32\<close> bytes and internal keys that are not empty, is encoded without a failing
  assertion, and it is restored exactly, flags and unset fields included, when its encoding is
  decoded into a new edit.
\<close>

theorem version_edit_roundtrip:
  assumes "\<forall>x \<in> set xs. edit_arg_ok x"
  shows "\<exists>bs. EncodeTo (fold edit_apply xs new_VersionEdit) [] = Some bs \<and>
    DecodeFrom bs new_VersionEdit = Some (fold edit_apply xs new_VersionEdit, StatusOK)"
  using edit_decode_encode [OF edit_build_ok [OF new_edit_ok assms], of new_VersionEdit]
    EncodeTo_bytes [OF edit_build_ok [OF new_edit_ok assms]]
  by (simp add: new_VersionEdit_def)

text \<open>
  C39.  Decoding into an edit that was used before mixes the two: \<open>DecodeFrom\<close> calls \<open>Clear\<close>, which
  does not clear the compaction pointers, and appends to the old ones.
\<close>

theorem DecodeFrom_keeps_compact_pointers:
  assumes "\<forall>x \<in> set xs. edit_arg_ok x" "e = fold edit_apply xs new_VersionEdit"
  shows "\<exists>bs e'. EncodeTo e [] = Some bs \<and> DecodeFrom bs e0 = Some (e', StatusOK) \<and>
    ve_compact_pointers e' = ve_compact_pointers e0 @ ve_compact_pointers e"
  using edit_decode_encode [OF edit_build_ok [OF new_edit_ok assms(1)], of e0]
    EncodeTo_bytes [OF edit_build_ok [OF new_edit_ok assms(1)]] assms(2) by simp

definition levels_ok :: "VersionEdit \<Rightarrow> bool" where
  "levels_ok e \<longleftrightarrow>
     (\<forall>(l, k) \<in> set (ve_compact_pointers e). 0 \<le> l \<and> l < 7) \<and>
     (\<forall>(l, n) \<in> ve_deleted_files e. 0 \<le> l \<and> l < 7) \<and> (\<forall>(l, f) \<in> set (ve_new_files e). 0 \<le> l \<and> l < 7)"

lemma GetLevel_range:
  assumes "GetLevel p = Some (l, q)" shows "0 \<le> l \<and> l < 7"
proof -
  obtain v where v: "unat (v :: 32 word) < 7" "l = uint v"
    using assms by (auto simp: GetLevel_def Option.bind_eq_Some_conv kNumLevels_def split: if_splits)
  have "int (unat v) < 7" using v(1) by linarith
  then show ?thesis by (simp add: v(2))
qed

lemma decode_field_levels: "decode_field tag p e = Some (Inr (e', q)) \<Longrightarrow> levels_ok e \<Longrightarrow> levels_ok e'"
  unfolding decode_field_def
  by (auto simp: field_Inr and_get_Some levels_ok_def dest: GetLevel_range split: if_splits)

lemma field_safe: "field msg r = None \<longleftrightarrow> r = None"
  by (auto simp: field_def split: option.splits)

lemma and_get_safe: "and_get r f = None \<longleftrightarrow> r = None \<or> (\<exists>x. r = Some (Some x) \<and> f x = None)"
  by (auto simp: and_get_def split: option.split)

lemma get_safe: "(GetLengthPrefixedSlice p = None) = False" "(GetInternalKey p = None) = False"
  using GetLengthPrefixedSlice_safe by (auto simp: GetInternalKey_def and_get_def split: option.split)

lemma decode_field_safe: "\<exists>r. decode_field tag p e = Some r"
proof -
  have "decode_field tag p e \<noteq> None"
    unfolding decode_field_def by (simp add: field_safe and_get_safe get_safe split_def del: not_None_eq)
  then show ?thesis by simp
qed

lemma decode_loop_levels: "levels_ok e \<Longrightarrow> \<exists>e' q msg. decode_loop p e = Some (e', q, msg) \<and> levels_ok e'"
proof (induction p e rule: decode_loop.induct)
  case (1 p e)
  show ?case
  proof (cases "GetVarint32 p")
    case None
    then show ?thesis using "1.prems" by (subst decode_loop.simps) simp
  next
    case (Some tq)
    obtain tag q where tq: "tq = (tag, q)" by (cases tq)
    obtain r where r: "decode_field tag q e = Some r" using decode_field_safe by blast
    show ?thesis
    proof (cases r)
      case (Inl msg)
      then show ?thesis using "1.prems" Some tq r by (subst decode_loop.simps) simp
    next
      case (Inr eq)
      obtain e' q' where eq: "eq = (e', q')" by (cases eq)
      have "levels_ok e'" by (rule decode_field_levels [OF r [unfolded Inr eq] "1.prems"])
      from "1.IH" [OF Some [unfolded tq] refl r Inr eq [symmetric] this] obtain e2 q2 msg where
        "decode_loop q' e' = Some (e2, q2, msg)" "levels_ok e2" by blast
      then show ?thesis using Some tq r Inr eq by (subst decode_loop.simps) simp
    qed
  qed
qed

text \<open>
  C29.  Decoding an arbitrary string terminates without reading outside of it, and every level number
  in the resulting edit, also when decoding fails, is between 0 and 6, so it can index the
  arrays per level; the compaction pointers that the edit had before are in this range.
\<close>

theorem DecodeFrom_levels:
  assumes "\<forall>(l, k) \<in> set (ve_compact_pointers e0). 0 \<le> l \<and> l < 7"
  shows "\<exists>e st. DecodeFrom src e0 = Some (e, st) \<and> levels_ok e"
proof -
  have "levels_ok (ve_Clear e0)" using assms by (simp add: levels_ok_def ve_Clear_def)
  from decode_loop_levels [OF this, of src] show ?thesis by (auto simp: DecodeFrom_def Let_def)
qed

theorem version_edit_roundtrip_witness:
  "\<exists>bs. EncodeTo (fold edit_apply [ELogNumber 5, EDeleteFile 2 7, EAddFile 1 300 4096 [1] [9, 9]] new_VersionEdit) [] = Some bs \<and>
     DecodeFrom bs new_VersionEdit =
     Some (fold edit_apply [ELogNumber 5, EDeleteFile 2 7, EAddFile 1 300 4096 [1] [9, 9]] new_VersionEdit, StatusOK)"
  by (rule version_edit_roundtrip) simp

theorem DecodeFrom_keeps_compact_pointers_witness:
  "\<exists>bs e'. EncodeTo (fold edit_apply [ECompactPointer 1 [7]] new_VersionEdit) [] = Some bs \<and>
     DecodeFrom bs (new_VersionEdit\<lparr>ve_compact_pointers := [(3, [9])]\<rparr>) = Some (e', StatusOK) \<and>
     ve_compact_pointers e' = [(3, [9]), (1, [7])]"
  using DecodeFrom_keeps_compact_pointers
    [of "[ECompactPointer 1 [7]]" _ "new_VersionEdit\<lparr>ve_compact_pointers := [(3, [9])]\<rparr>"]
  by (simp add: SetCompactPointer_def new_VersionEdit_def)

theorem DecodeFrom_levels_witness: "\<exists>e st. DecodeFrom [6, 9, 1] new_VersionEdit = Some (e, st) \<and> levels_ok e"
  by (rule DecodeFrom_levels) (simp add: new_VersionEdit_def)

end
