(* ===== verification/Crc.thy ===== *)
theory Crc
  imports Prelude
begin

section \<open>Cyclic redundancy checks, bit by bit\<close>

text \<open>
  The reference for the table-driven checksums: division by a polynomial, one bit at a time, in
  the reflected form.  The step is linear over XOR (locale \<open>xor_linear\<close>), so a lookup table is
  right when its entries are the XOR combinations of eight basis values.
\<close>

unbundle bit_operations_syntax

definition bitstep :: "'a::len word \<Rightarrow> 'a word \<Rightarrow> 'a word" where
  "bitstep poly l = (if bit l 0 then drop_bit 1 l XOR poly else drop_bit 1 l)"

primrec bitsteps :: "nat \<Rightarrow> 'a::len word \<Rightarrow> 'a word \<Rightarrow> 'a word" where
  "bitsteps 0 poly l = l"
| "bitsteps (Suc n) poly l = bitsteps n poly (bitstep poly l)"

definition crc_byte :: "'a::len word \<Rightarrow> 'a word \<Rightarrow> byte \<Rightarrow> 'a word" where
  "crc_byte poly l b = bitsteps 8 poly (l XOR ucast b)"

locale xor_linear =
  fixes f :: "'a::len word \<Rightarrow> 'b::len word"
  assumes f_xor: "f (a XOR b) = f a XOR f b"
begin

lemma f_0: "f 0 = 0"
  using f_xor [of 0 0] by simp

end

text \<open>The table of all XOR combinations of basis values, the most significant one first.\<close>

primrec lin_table :: "'b::len word list \<Rightarrow> 'b word list" where
  "lin_table [] = [0]"
| "lin_table (b # bs) = lin_table bs @ map (\<lambda>x. x XOR b) (lin_table bs)"

lemma length_lin_table [simp]: "length (lin_table bs) = 2 ^ length bs"
  by (induction bs) simp_all

lemma nat_xor_high: "c < 2 ^ n \<Longrightarrow> 2 ^ n + c = c XOR (2 ^ n :: nat)"
proof -
  assume c: "c < 2 ^ n"
  then have "c = take_bit n c" by (simp add: take_bit_nat_eq_self)
  then have "\<not> bit c n" by (metis bit_take_bit_iff less_irrefl)
  then have "c AND 2 ^ n = 0" by (intro bit_eqI) (auto simp: bit_simps)
  then show ?thesis by (simp add: add.commute disjunctive_add_eq_xor)
qed

context xor_linear
begin

lemma lin_table_nth:
  "c < 2 ^ n \<Longrightarrow> lin_table (map (\<lambda>i. f (push_bit s (2 ^ i))) (rev [0..<n])) ! c = f (push_bit s (of_nat c))"
proof (induction n arbitrary: c)
  case 0
  then show ?case by (simp add: f_0)
next
  case (Suc n)
  let ?t = "lin_table (map (\<lambda>i. f (push_bit s (2 ^ i))) (rev [0..<n]))"
  show ?case
  proof (cases "c < 2 ^ n")
    case True
    then show ?thesis using Suc.IH [of c] by (simp add: nth_append)
  next
    case False
    define d where "d = c - 2 ^ n"
    have d: "c = 2 ^ n + d" "d < 2 ^ n" using False Suc.prems by (auto simp: d_def)
    have "(of_nat c :: 'a word) = of_nat d XOR 2 ^ n"
      using nat_xor_high [OF d(2)] by (simp add: d(1) of_nat_xor_eq flip: of_nat_add)
    then have "f (push_bit s (of_nat c)) = f (push_bit s (of_nat d)) XOR f (push_bit s (2 ^ n))"
      by (simp add: push_bit_xor f_xor)
    then show ?thesis using Suc.IH [OF d(2)] d False by (simp add: nth_append)
  qed
qed

end

lemma bitstep_xor: "bitstep poly (a XOR b) = bitstep poly a XOR bitstep poly b"
  by (auto simp: bitstep_def bit_xor_iff drop_bit_xor xor.assoc xor.left_commute xor.commute)

lemma bitsteps_xor: "bitsteps n poly (a XOR b) = bitsteps n poly a XOR bitsteps n poly b"
  by (induction n arbitrary: a b) (simp_all add: bitstep_xor)

interpretation bitsteps_linear: xor_linear "bitsteps n poly" for n poly
  by unfold_locales (rule bitsteps_xor)

lemma bitsteps_add: "bitsteps (m + n) poly l = bitsteps n poly (bitsteps m poly l)"
  by (induction m arbitrary: l) simp_all

lemma bitsteps_push: "(\<forall>i. bit z i \<longrightarrow> i + n < LENGTH('a)) \<Longrightarrow> bitsteps n poly (push_bit n (z :: 'a::len word)) = z"
proof (induction n)
  case (Suc n)
  have "\<not> bit (push_bit (Suc n) z) 0" by (simp add: bit_push_bit_iff del: push_bit_Suc)
  then have "bitstep poly (push_bit (Suc n) z) = drop_bit 1 (push_bit (Suc n) z)" by (simp add: bitstep_def)
  also have "\<dots> = push_bit n z"
    using Suc.prems by (intro bit_word_eqI) (auto simp: bit_simps simp del: push_bit_Suc)
  finally show ?case using Suc.IH Suc.prems by (simp add: Suc_lessD del: push_bit_Suc)
qed simp

text \<open>Eight steps: the low byte selects an entry of the table, the other bytes move down.\<close>

lemma bitsteps_8: "bitsteps 8 poly l = bitsteps 8 poly (take_bit 8 l) XOR drop_bit 8 (l :: 'a::len word)"
proof -
  have "l = take_bit 8 l XOR push_bit 8 (drop_bit 8 l)"
    by (rule bit_word_eqI) (auto simp: bit_simps)
  then have "bitsteps 8 poly l = bitsteps 8 poly (take_bit 8 l) XOR bitsteps 8 poly (push_bit 8 (drop_bit 8 l))"
    by (metis bitsteps_xor)
  moreover have "bitsteps 8 poly (push_bit 8 (drop_bit 8 l)) = drop_bit 8 l"
    by (rule bitsteps_push) (auto simp: bit_simps dest: bit_imp_le_length)
  ultimately show ?thesis by simp
qed

end
