(* ===== verification/EnvPosix.thy ===== *)
theory EnvPosix
  imports Coding
begin

section \<open>Files of the POSIX environment (leveldb \<open>util/env_posix.cc\<close>)\<close>

text \<open>
  The sequential and the writable file.  The operating system is a script of outcomes: each
  \<open>read\<close> or \<open>write\<close> consumes one entry, a count it may not exceed or an error number, and
  behaves as for a regular file once the script is over.  The clients use the interfaces
  \<open>writable_file\<close> and \<open>sequential_file\<close>.
\<close>

datatype sys_result = Ret nat | Errno int

record os_file =
  disk :: bytes
  position :: nat
  script :: "sys_result list"

definition EINTR :: int where
  "EINTR = 4"

definition ENOENT :: int where
  "ENOENT = 2"

text \<open>The calls \<open>write\<close> (at the end of the file), \<open>read\<close> and \<open>lseek\<close> with \<open>SEEK_CUR\<close>.\<close>

definition sys_write :: "os_file \<Rightarrow> bytes \<Rightarrow> sys_result \<times> os_file" where
  "sys_write k p =
     (case script k of
        [] \<Rightarrow> (Ret (length p), k\<lparr>disk := disk k @ p\<rparr>)
      | Ret j # rs \<Rightarrow> (Ret (min j (length p)), k\<lparr>disk := disk k @ take j p, script := rs\<rparr>)
      | Errno e # rs \<Rightarrow> (Errno e, k\<lparr>script := rs\<rparr>))"

definition sys_read :: "os_file \<Rightarrow> nat \<Rightarrow> sys_result \<times> bytes \<times> os_file" where
  "sys_read k n =
     (let rest = take n (drop (position k) (disk k)) in
      case script k of
        [] \<Rightarrow> (Ret (length rest), rest, k\<lparr>position := position k + length rest\<rparr>)
      | Ret j # rs \<Rightarrow>
          (Ret (length (take j rest)), take j rest, k\<lparr>position := position k + length (take j rest), script := rs\<rparr>)
      | Errno e # rs \<Rightarrow> (Errno e, [], k\<lparr>script := rs\<rparr>))"

definition sys_lseek :: "os_file \<Rightarrow> nat \<Rightarrow> sys_result \<times> os_file" where
  "sys_lseek k n =
     (case script k of
        Errno e # rs \<Rightarrow> (Errno e, k\<lparr>script := rs\<rparr>)
      | _ \<Rightarrow> (Ret (position k + n), k\<lparr>position := position k + n, script := tl (script k)\<rparr>))"

definition PosixError :: "(int \<Rightarrow> string) \<Rightarrow> string \<Rightarrow> int \<Rightarrow> status" where
  "PosixError strerror ctxt err_number =
     (if err_number = ENOENT then NotFound (ctxt @ '': '' @ strerror err_number)
      else IOError (ctxt @ '': '' @ strerror err_number))"

subsection \<open>The sequential file\<close>

text \<open>\<open>Read\<close>: retried when interrupted; the result keeps its old value on an error.\<close>

function seq_Read ::
    "(int \<Rightarrow> string) \<Rightarrow> string \<Rightarrow> nat \<Rightarrow> bytes \<Rightarrow> os_file \<Rightarrow> status \<times> bytes \<times> os_file" where
  "seq_Read strerror filename n result fd =
     (case sys_read fd n of
        (Ret r, scratch, fd) \<Rightarrow> (StatusOK, scratch, fd)
      | (Errno e, scratch, fd') \<Rightarrow>
          if e = EINTR then seq_Read strerror filename n result fd'
          else (PosixError strerror filename e, result, fd'))"
  by pat_completeness auto
termination
  by (relation "measure (\<lambda>(s, f, n, r, k). length (script k))")
    (auto simp: sys_read_def Let_def split: list.splits sys_result.splits)

definition seq_Skip :: "(int \<Rightarrow> string) \<Rightarrow> string \<Rightarrow> nat \<Rightarrow> os_file \<Rightarrow> status \<times> os_file" where
  "seq_Skip strerror filename n fd =
     (case sys_lseek fd n of
        (Errno e, fd) \<Rightarrow> (PosixError strerror filename e, fd)
      | (Ret r, fd) \<Rightarrow> (StatusOK, fd))"

subsection \<open>The writable file\<close>

definition kBufSize :: nat where
  "kBufSize = 65536"

text \<open>\<open>wf_buf\<close> holds the \<open>pos_\<close> bytes in use of the buffer.\<close>

record PosixWritableFile =
  wf_filename :: string
  wf_fd :: os_file
  wf_buf :: bytes

definition new_PosixWritableFile :: "string \<Rightarrow> os_file \<Rightarrow> PosixWritableFile" where
  "new_PosixWritableFile fname fd = \<lparr>wf_filename = fname, wf_fd = fd, wf_buf = []\<rparr>"

function WriteRaw :: "(int \<Rightarrow> string) \<Rightarrow> string \<Rightarrow> bytes \<Rightarrow> os_file \<Rightarrow> status \<times> os_file" where
  "WriteRaw strerror fname p fd =
     (if length p > 0 then
        (case sys_write fd p of
           (Errno e, fd) \<Rightarrow> if e = EINTR then WriteRaw strerror fname p fd else (PosixError strerror fname e, fd)
         | (Ret r, fd) \<Rightarrow> WriteRaw strerror fname (drop r p) fd)
      else (StatusOK, fd))"
  by pat_completeness auto
termination
  by (relation "measures [\<lambda>(s, f, p, k). length (script k), \<lambda>(s, f, p, k). length p]")
    (auto simp: sys_write_def split: list.splits sys_result.splits)

declare seq_Read.simps [simp del] WriteRaw.simps [simp del]

definition FlushBuffered :: "(int \<Rightarrow> string) \<Rightarrow> PosixWritableFile \<Rightarrow> status \<times> PosixWritableFile" where
  "FlushBuffered strerror f =
     (let (s, fd) = WriteRaw strerror (wf_filename f) (wf_buf f) (wf_fd f) in (s, f\<lparr>wf_fd := fd, wf_buf := []\<rparr>))"

definition file_Append :: "(int \<Rightarrow> string) \<Rightarrow> PosixWritableFile \<Rightarrow> bytes \<Rightarrow> status \<times> PosixWritableFile" where
  "file_Append strerror f data =
     (let copy = min (length data) (kBufSize - length (wf_buf f));
          f = f\<lparr>wf_buf := wf_buf f @ take copy data\<rparr>;
          p = drop copy data
      in if length p = 0 then (StatusOK, f)
         else
           let (s, f) = FlushBuffered strerror f
           in if s \<noteq> StatusOK then (s, f)
              else if length p < kBufSize then (StatusOK, f\<lparr>wf_buf := p\<rparr>)
              else let (s, fd) = WriteRaw strerror (wf_filename f) p (wf_fd f) in (s, f\<lparr>wf_fd := fd\<rparr>))"

definition file_Flush :: "(int \<Rightarrow> string) \<Rightarrow> PosixWritableFile \<Rightarrow> status \<times> PosixWritableFile" where
  "file_Flush strerror f = FlushBuffered strerror f"

text \<open>\<open>close_result\<close> is the outcome of \<open>close\<close>: an error number or success.\<close>

definition file_Close ::
    "(int \<Rightarrow> string) \<Rightarrow> int option \<Rightarrow> PosixWritableFile \<Rightarrow> status \<times> PosixWritableFile" where
  "file_Close strerror close_result f =
     (let (result, f) = FlushBuffered strerror f
      in (case close_result of
            Some e \<Rightarrow> if result = StatusOK then PosixError strerror (wf_filename f) e else result
          | None \<Rightarrow> result, f))"

definition starts_with :: "string \<Rightarrow> string \<Rightarrow> bool" where
  "starts_with s x = (length s \<ge> length x \<and> take (length x) s = x)"

text \<open>The part of a path after its last slash and the directory before it.\<close>

definition split_path :: "string \<Rightarrow> string \<times> string" where
  "split_path f =
     (if CHR ''/'' \<notin> set f then (''.'', f)
      else let base = rev (takeWhile (\<lambda>c. c \<noteq> CHR ''/'') (rev f))
           in (take (length f - length base - 1) f, base))"

text \<open>The outcomes of \<open>open\<close> and of \<open>fsync\<close> on the directory, and of \<open>fdatasync\<close>: an error number or success.\<close>

definition SyncDirIfManifest :: "(int \<Rightarrow> string) \<Rightarrow> int option \<Rightarrow> int option \<Rightarrow> PosixWritableFile \<Rightarrow> status" where
  "SyncDirIfManifest strerror open_result fsync_result f =
     (let (dir, basename) = split_path (wf_filename f)
      in if starts_with basename ''MANIFEST'' then
           (case open_result of
              Some e \<Rightarrow> PosixError strerror dir e
            | None \<Rightarrow> (case fsync_result of Some e \<Rightarrow> PosixError strerror dir e | None \<Rightarrow> StatusOK))
         else StatusOK)"

definition file_Sync ::
    "(int \<Rightarrow> string) \<Rightarrow> int option \<Rightarrow> int option \<Rightarrow> int option \<Rightarrow> PosixWritableFile \<Rightarrow> status \<times> PosixWritableFile" where
  "file_Sync strerror open_result fsync_result fdatasync_result f =
     (let s = SyncDirIfManifest strerror open_result fsync_result f
      in if s \<noteq> StatusOK then (s, f)
         else
           let (s, f) = FlushBuffered strerror f
           in (if s = StatusOK
               then (case fdatasync_result of Some e \<Rightarrow> PosixError strerror (wf_filename f) e | None \<Rightarrow> StatusOK)
               else s, f))"

subsection \<open>Interfaces\<close>

text \<open>A file that does not fail: an appended slice is added at the end of its contents.\<close>

locale writable_file =
  fixes append :: "'f \<Rightarrow> bytes \<Rightarrow> status \<times> 'f"
    and flush :: "'f \<Rightarrow> status \<times> 'f"
    and contents :: "'f \<Rightarrow> bytes"
    and good :: "'f \<Rightarrow> bool"
  assumes append_good: "good f \<Longrightarrow> \<exists>f'. append f data = (StatusOK, f') \<and> good f' \<and> contents f' = contents f @ data"
    and flush_good: "good f \<Longrightarrow> \<exists>f'. flush f = (StatusOK, f') \<and> good f' \<and> contents f' = contents f"

text \<open>A file that may fail, but reports it: when an operation succeeds, its contents are as they should be.\<close>

locale reporting_file =
  fixes append :: "'f \<Rightarrow> bytes \<Rightarrow> status \<times> 'f"
    and flush :: "'f \<Rightarrow> status \<times> 'f"
    and contents :: "'f \<Rightarrow> bytes"
    and sound :: "'f \<Rightarrow> bool"
  assumes append_reports: "sound f \<Longrightarrow> append f data = (s, f') \<Longrightarrow> sound f' \<and> (s = StatusOK \<longrightarrow> contents f' = contents f @ data)"
    and flush_reports: "sound f \<Longrightarrow> flush f = (s, f') \<Longrightarrow> sound f' \<and> (s = StatusOK \<longrightarrow> contents f' = contents f)"

text \<open>A file that does not fail: a read returns the next bytes, fewer only at the end.\<close>

locale sequential_file =
  fixes read :: "nat \<Rightarrow> bytes \<Rightarrow> 'f \<Rightarrow> status \<times> bytes \<times> 'f"
    and rest :: "'f \<Rightarrow> bytes"
    and good :: "'f \<Rightarrow> bool"
  assumes read_good: "good f \<Longrightarrow> \<exists>f'. read n old f = (StatusOK, take n (rest f), f') \<and> good f' \<and> rest f' = drop n (rest f)"

subsection \<open>Reading\<close>

definition os_rest :: "os_file \<Rightarrow> bytes" where
  "os_rest k = drop (position k) (disk k)"

text \<open>A regular file that is only interrupted.\<close>

definition only_interrupts :: "os_file \<Rightarrow> bool" where
  "only_interrupts k = list_all (\<lambda>r. r = Errno EINTR) (script k)"

lemma seq_Read_good:
  "only_interrupts k \<Longrightarrow> \<exists>k'. seq_Read strerror fname n old k = (StatusOK, take n (os_rest k), k') \<and>
     only_interrupts k' \<and> os_rest k' = drop n (os_rest k)"
proof (induction strerror fname n old k rule: seq_Read.induct)
  case (1 strerror fname n old k)
  show ?case
  proof (cases "script k")
    case Nil
    have "drop (position k + min n (length (disk k) - position k)) (disk k) = drop (position k + n) (disk k)"
      by (cases "n \<le> length (disk k) - position k") (auto simp: min_def)
    then show ?thesis using Nil 1(2)
      by (subst seq_Read.simps) (auto simp: sys_read_def Let_def os_rest_def only_interrupts_def add.commute min.commute)
  next
    case (Cons r rs)
    then have r: "r = Errno EINTR" "list_all (\<lambda>r. r = Errno EINTR) rs" using 1(2) by (auto simp: only_interrupts_def)
    have s: "sys_read k n = (Errno EINTR, [], k\<lparr>script := rs\<rparr>)" using Cons r by (simp add: sys_read_def Let_def)
    show ?thesis using 1(1) [OF s [symmetric] refl refl refl] r
      by (subst seq_Read.simps) (simp add: s only_interrupts_def os_rest_def)
  qed
qed

interpretation posix_seq: sequential_file "seq_Read strerror fname" os_rest only_interrupts for strerror fname
  by unfold_locales (rule seq_Read_good)

subsection \<open>Writing\<close>

text \<open>Whatever the system does, a prefix of the data arrives, all of it when the result is OK.\<close>

lemma WriteRaw_prefix:
  "WriteRaw strerror fname p k = (s, k') \<Longrightarrow>
   \<exists>n. disk k' = disk k @ take n p \<and> n \<le> length p \<and> (s = StatusOK \<longrightarrow> n = length p)"
proof (induction strerror fname p k arbitrary: s k' rule: WriteRaw.induct)
  case (1 strerror fname p k)
  show ?case
  proof (cases "p = []")
    case True
    then show ?thesis using 1(3) by (simp add: WriteRaw.simps [of _ _ "[]"])
  next
    case False
    obtain r k1 where w: "sys_write k p = (r, k1)" by fastforce
    note u = 1(3) [unfolded WriteRaw.simps [of strerror fname p k] w]
    show ?thesis
    proof (cases r)
      case (Errno e)
      then have d: "disk k1 = disk k" using w by (auto simp: sys_write_def split: list.splits sys_result.splits)
      show ?thesis
      proof (cases "e = EINTR")
        case True
        show ?thesis using 1(2) [OF _ w [symmetric] Errno True] u False Errno True d by simp
      next
        case nintr: False
        then show ?thesis using u False Errno d by (auto simp: PosixError_def split: if_splits intro!: exI [of _ 0])
      qed
    next
      case (Ret j)
      then have d: "disk k1 = disk k @ take j p" "j \<le> length p"
        using w by (auto simp: sys_write_def min_def split: list.splits sys_result.splits if_splits)
      obtain n where n: "disk k' = disk k1 @ take n (drop j p)" "n \<le> length p - j" "s = StatusOK \<longrightarrow> n = length p - j"
        using 1(1) [OF _ w [symmetric] Ret] u False Ret by auto
      show ?thesis using n d by (intro exI [of _ "j + n"]) (auto simp: take_add)
    qed
  qed
qed

text \<open>Without an error other than an interruption, writing succeeds.\<close>

fun not_error :: "sys_result \<Rightarrow> bool" where
  "not_error (Ret j) = True"
| "not_error (Errno e) = (e = EINTR)"

definition no_errors :: "os_file \<Rightarrow> bool" where
  "no_errors k = list_all not_error (script k)"

lemma sys_write_no_errors:
  "no_errors k \<Longrightarrow> sys_write k p = (r, k') \<Longrightarrow> no_errors k' \<and> not_error r"
  by (auto simp: no_errors_def sys_write_def split: list.splits sys_result.splits)

lemma WriteRaw_no_errors:
  "no_errors k \<Longrightarrow> \<exists>k'. WriteRaw strerror fname p k = (StatusOK, k') \<and> no_errors k'"
proof (induction strerror fname p k rule: WriteRaw.induct)
  case (1 strerror fname p k)
  obtain r k1 where w: "sys_write k p = (r, k1)" by fastforce
  note n = sys_write_no_errors [OF 1(3) w]
  show ?case
  proof (cases r)
    case (Errno e)
    then have e: "e = EINTR" "no_errors k1" using n by simp_all
    show ?thesis using 1(2) [OF _ w [symmetric] Errno e(1) e(2)] Errno e w 1(3)
      by (subst WriteRaw.simps) simp
  next
    case (Ret j)
    then show ?thesis using 1(1) [OF _ w [symmetric] Ret] w n 1(3)
      by (subst WriteRaw.simps) simp
  qed
qed

definition wf_ok :: "PosixWritableFile \<Rightarrow> bool" where
  "wf_ok f = (length (wf_buf f) \<le> kBufSize)"

text \<open>The bytes accepted so far: those on the disk, then those in the buffer.\<close>

definition wf_contents :: "PosixWritableFile \<Rightarrow> bytes" where
  "wf_contents f = disk (wf_fd f) @ wf_buf f"

lemma FlushBuffered_prefix:
  assumes "FlushBuffered strerror f = (s, f')"
  shows "wf_buf f' = [] \<and> wf_filename f' = wf_filename f \<and>
    (\<exists>n \<le> length (wf_buf f). disk (wf_fd f') = disk (wf_fd f) @ take n (wf_buf f) \<and> (s = StatusOK \<longrightarrow> n = length (wf_buf f)))"
proof -
  obtain k where "WriteRaw strerror (wf_filename f) (wf_buf f) (wf_fd f) = (s, k)" "f' = f\<lparr>wf_fd := k, wf_buf := []\<rparr>"
    using assms by (auto simp: FlushBuffered_def split: prod.splits)
  then show ?thesis using WriteRaw_prefix [of strerror "wf_filename f" "wf_buf f" "wf_fd f" s k] by auto
qed

lemma flush_contents:
  assumes "FlushBuffered strerror f = (s, f')"
  shows "\<exists>n. disk (wf_fd f') = take n (wf_contents f) \<and> length (disk (wf_fd f)) \<le> n \<and> n \<le> length (wf_contents f) \<and>
     wf_buf f' = [] \<and> (s = StatusOK \<longrightarrow> disk (wf_fd f') = wf_contents f)"
proof -
  obtain n where "n \<le> length (wf_buf f)" "disk (wf_fd f') = disk (wf_fd f) @ take n (wf_buf f)"
      "s = StatusOK \<longrightarrow> n = length (wf_buf f)" "wf_buf f' = []"
    using FlushBuffered_prefix [OF assms] by blast
  then show ?thesis by (intro exI [of _ "length (disk (wf_fd f)) + n"]) (auto simp: wf_contents_def)
qed

lemma file_Append_contents:
  assumes "wf_ok f" "file_Append strerror f data = (s, f')"
  shows "wf_ok f' \<and> (\<exists>n. wf_contents f' = take n (wf_contents f @ data) \<and> length (disk (wf_fd f)) \<le> n \<and>
     (s = StatusOK \<longrightarrow> wf_contents f' = wf_contents f @ data))"
proof -
  define c where "c = min (length data) (kBufSize - length (wf_buf f))"
  define g where "g = f\<lparr>wf_buf := wf_buf f @ take c data\<rparr>"
  have g: "wf_contents g = wf_contents f @ take c data" "disk (wf_fd g) = disk (wf_fd f)" "wf_ok g"
    using assms(1) by (auto simp: g_def wf_contents_def wf_ok_def c_def)
  note a = assms(2) [unfolded file_Append_def Let_def, folded c_def, folded g_def]
  show ?thesis
  proof (cases "drop c data = []")
    case True
    then have "s = StatusOK" "f' = g" "take c data = data" using a by simp_all
    then show ?thesis using g by (intro conjI exI [of _ "length (wf_contents f @ data)"]) (auto simp: wf_contents_def)
  next
    case False
    obtain s1 h where h: "FlushBuffered strerror g = (s1, h)" by fastforce
    obtain n where n: "disk (wf_fd h) = take n (wf_contents g)" "length (disk (wf_fd f)) \<le> n" "n \<le> length (wf_contents g)"
        "wf_buf h = []" "s1 = StatusOK \<longrightarrow> disk (wf_fd h) = wf_contents g"
      using flush_contents [OF h] unfolding g(2) by blast
    have td: "take c data @ drop c data = data" by simp
    show ?thesis
    proof (cases "s1 = StatusOK")
      case bad: False
      then have f': "f' = h" "s = s1" using a h False by simp_all
      have "take n (wf_contents g) = take n (wf_contents g @ drop c data)" using n(3) by simp
      then have "take n (wf_contents g) = take n (wf_contents f @ data)" unfolding g(1) append_assoc td .
      then show ?thesis using f' n(1,2,4) bad by (intro conjI exI [of _ n]) (auto simp: wf_contents_def wf_ok_def)
    next
      case ok: True
      have wh: "disk (wf_fd h) = wf_contents f @ take c data" using n(5) ok g(1) by simp
      show ?thesis
      proof (cases "length (drop c data) < kBufSize")
        case True
        then have "f' = h\<lparr>wf_buf := drop c data\<rparr>" using a h False ok by simp
        then show ?thesis using wh True
          by (intro conjI exI [of _ "length (wf_contents f @ data)"]) (auto simp: wf_contents_def wf_ok_def)
      next
        case big: False
        obtain k where k: "WriteRaw strerror (wf_filename h) (drop c data) (wf_fd h) = (s, k)" "f' = h\<lparr>wf_fd := k\<rparr>"
          using a h False ok big by (auto split: prod.splits)
        from WriteRaw_prefix [OF k(1)] obtain m where m: "disk k = (wf_contents f @ take c data) @ take m (drop c data)"
            "m \<le> length (drop c data)" "s = StatusOK \<longrightarrow> m = length (drop c data)"
          using wh by auto
        have e: "disk k = take (length (wf_contents f) + (c + m)) (wf_contents f @ data)"
          using m(1) by (simp add: take_add)
        have "s = StatusOK \<longrightarrow> disk k = wf_contents f @ data" using m by auto
        then show ?thesis using k(2) n(4) e
          by (intro conjI exI [of _ "length (wf_contents f) + (c + m)"]) (auto simp: wf_contents_def wf_ok_def)
      qed
    qed
  qed
qed

definition wf_good :: "PosixWritableFile \<Rightarrow> bool" where
  "wf_good f = (wf_ok f \<and> no_errors (wf_fd f))"

lemma FlushBuffered_good:
  "no_errors (wf_fd f) \<Longrightarrow> \<exists>f'. FlushBuffered strerror f = (StatusOK, f') \<and> no_errors (wf_fd f')"
  using WriteRaw_no_errors [of "wf_fd f" strerror "wf_filename f" "wf_buf f"] by (auto simp: FlushBuffered_def)

lemma file_Append_good:
  assumes "no_errors (wf_fd f)"
  shows "\<exists>f'. file_Append strerror f data = (StatusOK, f') \<and> no_errors (wf_fd f')"
proof -
  define c where "c = min (length data) (kBufSize - length (wf_buf f))"
  define g where "g = f\<lparr>wf_buf := wf_buf f @ take c data\<rparr>"
  have "no_errors (wf_fd g)" using assms by (simp add: g_def)
  then obtain h where h: "FlushBuffered strerror g = (StatusOK, h)" "no_errors (wf_fd h)"
    using FlushBuffered_good by blast
  obtain k where "WriteRaw strerror (wf_filename h) (drop c data) (wf_fd h) = (StatusOK, k)" "no_errors k"
    using WriteRaw_no_errors [OF h(2)] by blast
  then show ?thesis
    unfolding file_Append_def Let_def c_def [symmetric] g_def [symmetric] using h \<open>no_errors (wf_fd g)\<close> by auto
qed

interpretation posix_file: writable_file "file_Append strerror" "file_Flush strerror" wf_contents wf_good for strerror
proof
  fix f :: PosixWritableFile and data
  assume "wf_good f"
  then show "\<exists>f'. file_Append strerror f data = (StatusOK, f') \<and> wf_good f' \<and> wf_contents f' = wf_contents f @ data"
    using file_Append_good [of f strerror data] file_Append_contents [of f strerror data StatusOK]
    by (auto simp: wf_good_def)
next
  fix f :: PosixWritableFile
  assume "wf_good f"
  then obtain f' where f: "FlushBuffered strerror f = (StatusOK, f')" "no_errors (wf_fd f')"
    using FlushBuffered_good [of f strerror] by (auto simp: wf_good_def)
  then show "\<exists>f'. file_Flush strerror f = (StatusOK, f') \<and> wf_good f' \<and> wf_contents f' = wf_contents f"
    using flush_contents [OF f(1)] by (auto simp: file_Flush_def wf_good_def wf_ok_def wf_contents_def)
qed

interpretation posix_reporting: reporting_file "file_Append strerror" "file_Flush strerror" wf_contents wf_ok for strerror
proof
  show "wf_ok f' \<and> (s = StatusOK \<longrightarrow> wf_contents f' = wf_contents f @ data)"
    if "wf_ok f" "file_Append strerror f data = (s, f')" for f data s f'
    using file_Append_contents [OF that] by blast
  show "wf_ok f' \<and> (s = StatusOK \<longrightarrow> wf_contents f' = wf_contents f)"
    if "wf_ok f" "file_Flush strerror f = (s, f')" for f s f'
    using flush_contents [of strerror f s f'] that(2) by (auto simp: file_Flush_def wf_ok_def wf_contents_def)
qed

lemma file_Sync_contents:
  "case file_Sync strerror open_result fsync_result fdatasync_result f of (s, f') \<Rightarrow>
     (\<exists>n. length (disk (wf_fd f)) \<le> n \<and> disk (wf_fd f') = take n (wf_contents f)) \<and>
     (s = StatusOK \<longrightarrow> disk (wf_fd f') = wf_contents f)"
proof (cases "SyncDirIfManifest strerror open_result fsync_result f = StatusOK")
  case True
  obtain s f' where "FlushBuffered strerror f = (s, f')" by fastforce
  then show ?thesis using flush_contents [of strerror f s f'] True
    by (auto simp: file_Sync_def Let_def PosixError_def split: option.splits)
next
  case False
  then show ?thesis
    by (auto simp: file_Sync_def Let_def wf_contents_def intro!: exI [of _ "length (disk (wf_fd f))"])
qed

lemma file_Close_contents:
  "case file_Close strerror close_result f of (s, f') \<Rightarrow>
     (\<exists>n. length (disk (wf_fd f)) \<le> n \<and> disk (wf_fd f') = take n (wf_contents f)) \<and>
     (s = StatusOK \<longrightarrow> disk (wf_fd f') = wf_contents f)"
proof -
  obtain s f' where "FlushBuffered strerror f = (s, f')" by fastforce
  then show ?thesis using flush_contents [of strerror f s f']
    by (auto simp: file_Close_def Let_def PosixError_def split: option.splits)
qed

text \<open>
  C15. The writable file, whatever the system calls return (short writes, interruptions, errors):
  the bytes accepted stay a prefix of what was appended, in order, and what was on the disk stays
  there; when an operation reports success nothing is missing, and after a successful \<open>Sync\<close> or
  \<open>Close\<close> everything is on the disk.
\<close>

theorem posix_writable_file_safe:
  assumes "wf_ok f"
  shows "(case file_Append strerror f data of (s, f') \<Rightarrow>
            wf_ok f' \<and> (\<exists>n. length (disk (wf_fd f)) \<le> n \<and> wf_contents f' = take n (wf_contents f @ data)) \<and>
            (s = StatusOK \<longrightarrow> wf_contents f' = wf_contents f @ data)) \<and>
         (case file_Sync strerror open_result fsync_result fdatasync_result f of (s, f') \<Rightarrow>
            (\<exists>n. length (disk (wf_fd f)) \<le> n \<and> disk (wf_fd f') = take n (wf_contents f)) \<and>
            (s = StatusOK \<longrightarrow> disk (wf_fd f') = wf_contents f)) \<and>
         (case file_Close strerror close_result f of (s, f') \<Rightarrow>
            (\<exists>n. length (disk (wf_fd f)) \<le> n \<and> disk (wf_fd f') = take n (wf_contents f)) \<and>
            (s = StatusOK \<longrightarrow> disk (wf_fd f') = wf_contents f))"
proof (intro conjI file_Sync_contents file_Close_contents)
  obtain s f' where a: "file_Append strerror f data = (s, f')" by fastforce
  show "case file_Append strerror f data of (s, f') \<Rightarrow>
      wf_ok f' \<and> (\<exists>n. length (disk (wf_fd f)) \<le> n \<and> wf_contents f' = take n (wf_contents f @ data)) \<and>
      (s = StatusOK \<longrightarrow> wf_contents f' = wf_contents f @ data)"
    using file_Append_contents [OF assms a] unfolding a by blast
qed

definition ex_file :: PosixWritableFile where
  "ex_file = \<lparr>wf_filename = ''MANIFEST-1'',
     wf_fd = \<lparr>disk = [7], position = 0, script = [Ret 1, Errno EINTR, Errno 28]\<rparr>, wf_buf = [1, 2, 3]\<rparr>"

theorem posix_writable_file_safe_witness:
  "wf_ok ex_file \<and>
   (case file_Sync (\<lambda>e. ''No space left on device'') None None None ex_file of (s, f') \<Rightarrow>
      s = IOError ''MANIFEST-1: No space left on device'' \<and> disk (wf_fd f') = [7, 1] \<and>
      (\<exists>n. length (disk (wf_fd ex_file)) \<le> n \<and> disk (wf_fd f') = take n (wf_contents ex_file)))"
proof -
  have "wf_ok ex_file" by (simp add: wf_ok_def ex_file_def kBufSize_def)
  moreover have "file_Sync (\<lambda>e. ''No space left on device'') None None None ex_file =
      (IOError ''MANIFEST-1: No space left on device'',
       ex_file\<lparr>wf_fd := \<lparr>disk = [7, 1], position = 0, script = []\<rparr>, wf_buf := []\<rparr>)"
    by (simp add: file_Sync_def ex_file_def SyncDirIfManifest_def split_path_def starts_with_def FlushBuffered_def
        WriteRaw.simps sys_write_def EINTR_def PosixError_def ENOENT_def Let_def)
  ultimately show ?thesis
    using posix_writable_file_safe
        [where f = ex_file and strerror = "\<lambda>e. ''No space left on device''" and data = "[]" and open_result = None
          and fsync_result = None and fdatasync_result = None and close_result = None] by simp
qed

end
