(* ===== verification/LogWriter.thy ===== *)
theory LogWriter
  imports Crc32c EnvPosix
begin

section \<open>Log writer (leveldb \<open>db/log_writer.cc\<close>, \<open>db/log_format.h\<close>)\<close>

text \<open>
  A log is a sequence of blocks of 32 KB; a record is cut into fragments that do not cross a block.
  The writer is modelled over any file (its operations \<open>fappend\<close> and \<open>fflush\<close> are arguments); a failing
  assertion is \<open>None\<close>.  What it writes is the image \<open>layout\<close> of the fragments \<open>fragments\<close>.
\<close>

datatype RecordType = kZeroType | kFullType | kFirstType | kMiddleType | kLastType

fun record_type_code :: "RecordType \<Rightarrow> nat" where
  "record_type_code kZeroType = 0"
| "record_type_code kFullType = 1"
| "record_type_code kFirstType = 2"
| "record_type_code kMiddleType = 3"
| "record_type_code kLastType = 4"

definition kMaxRecordType :: nat where
  "kMaxRecordType = record_type_code kLastType"

definition kBlockSize :: nat where
  "kBlockSize = 32768"

definition kHeaderSize :: nat where
  "kHeaderSize = 4 + 2 + 1"

text \<open>
  What the checksum depends on besides its input: the byte order, the library for it if the build
  has one, and the address at which a buffer lies.
\<close>

record machine =
  little_endian :: bool
  crc32c_lib :: "(32 word \<Rightarrow> bytes \<Rightarrow> 32 word) option"
  address :: "bytes \<Rightarrow> nat"

abbreviation crc_Extend :: "machine \<Rightarrow> 32 word \<Rightarrow> bytes \<Rightarrow> 32 word option" where
  "crc_Extend m crc buf \<equiv> Extend (crc32c_lib m) (little_endian m) (address m buf) crc buf"

abbreviation crc_Value :: "machine \<Rightarrow> bytes \<Rightarrow> 32 word option" where
  "crc_Value m buf \<equiv> Value (crc32c_lib m) (little_endian m) (address m buf) buf"

record 'f Writer =
  dest :: 'f
  block_offset :: int
  type_crc :: "32 word list"

definition InitTypeCrc :: "machine \<Rightarrow> 32 word list option" where
  "InitTypeCrc m = those (map (\<lambda>i. crc_Value m [of_nat i]) [0..<kMaxRecordType + 1])"

definition new_Writer :: "machine \<Rightarrow> 'f \<Rightarrow> 'f Writer option" where
  "new_Writer m d = do { tc \<leftarrow> InitTypeCrc m; Some \<lparr>dest = d, block_offset = 0, type_crc = tc\<rparr> }"

definition new_Writer_at :: "machine \<Rightarrow> 'f \<Rightarrow> 64 word \<Rightarrow> 'f Writer option" where
  "new_Writer_at m d dest_length =
     do { tc \<leftarrow> InitTypeCrc m;
          Some \<lparr>dest = d, block_offset = int (unat dest_length mod kBlockSize), type_crc = tc\<rparr> }"

text \<open>The header, then the payload, then a flush; the first failure ends it.\<close>

definition write_physical ::
    "('f \<Rightarrow> bytes \<Rightarrow> status \<times> 'f) \<Rightarrow> ('f \<Rightarrow> status \<times> 'f) \<Rightarrow> bytes \<Rightarrow> bytes \<Rightarrow> 'f \<Rightarrow> status \<times> 'f" where
  "write_physical fappend fflush buf ptr d =
     (let (s, d) = fappend d buf in
      if s = StatusOK then
        let (s, d) = fappend d ptr in if s = StatusOK then fflush d else (s, d)
      else (s, d))"

definition EmitPhysicalRecord ::
    "machine \<Rightarrow> ('f \<Rightarrow> bytes \<Rightarrow> status \<times> 'f) \<Rightarrow> ('f \<Rightarrow> status \<times> 'f) \<Rightarrow> RecordType \<Rightarrow> bytes \<Rightarrow> 'f Writer \<Rightarrow>
     (status \<times> 'f Writer) option" where
  "EmitPhysicalRecord m fappend fflush t ptr w =
     (let n = length ptr in
      if n \<le> 0xffff \<and> block_offset w + int (kHeaderSize + n) \<le> int kBlockSize \<and>
         record_type_code t < length (type_crc w) then
        do {
          crc \<leftarrow> crc_Extend m (type_crc w ! record_type_code t) ptr;
          let buf = EncodeFixed32 (little_endian m) (Mask crc) @
                    [of_nat (n AND 0xff), of_nat (drop_bit 8 n), of_nat (record_type_code t)];
              (s, d) = write_physical fappend fflush buf ptr (dest w)
          in Some (s, w\<lparr>dest := d, block_offset := block_offset w + int (kHeaderSize + n)\<rparr>) }
      else None)"

lemma EmitPhysicalRecord_offset:
  "EmitPhysicalRecord m fappend fflush t ptr w = Some (s, w') \<Longrightarrow>
   block_offset w' = block_offset w + int (kHeaderSize + length ptr)"
  by (auto simp: EmitPhysicalRecord_def Let_def bind_eq_Some_conv case_prod_beta split: if_splits)

definition record_type :: "bool \<Rightarrow> bool \<Rightarrow> RecordType" where
  "record_type begin_rec end_rec =
     (if begin_rec \<and> end_rec then kFullType
      else if begin_rec then kFirstType
      else if end_rec then kLastType
      else kMiddleType)"

text \<open>The switch to a new block; the status of the append is not looked at.\<close>

definition switch_block :: "('f \<Rightarrow> bytes \<Rightarrow> status \<times> 'f) \<Rightarrow> 'f Writer \<Rightarrow> 'f Writer" where
  "switch_block fappend w =
     (let leftover = int kBlockSize - block_offset w in
      if leftover < int kHeaderSize then
        w\<lparr>dest := (if leftover > 0 then snd (fappend (dest w) (replicate (nat leftover) 0)) else dest w),
          block_offset := 0\<rparr>
      else w)"

function add_loop ::
    "machine \<Rightarrow> ('f \<Rightarrow> bytes \<Rightarrow> status \<times> 'f) \<Rightarrow> ('f \<Rightarrow> status \<times> 'f) \<Rightarrow> bool \<Rightarrow> bytes \<Rightarrow> 'f Writer \<Rightarrow>
     (status \<times> 'f Writer) option" where
  "add_loop m fappend fflush begin_rec ptr w =
     (if int kBlockSize - block_offset w < 0 then None
      else
        let w = switch_block fappend w in
        if int kBlockSize - block_offset w - int kHeaderSize < 0 then None
        else
          let avail = nat (int kBlockSize - block_offset w - int kHeaderSize);
              fragment_length = (if length ptr < avail then length ptr else avail);
              end_rec = (length ptr = fragment_length)
          in do {
            (s, w) \<leftarrow> EmitPhysicalRecord m fappend fflush (record_type begin_rec end_rec) (take fragment_length ptr) w;
            (if s = StatusOK \<and> length (drop fragment_length ptr) > 0
             then add_loop m fappend fflush False (drop fragment_length ptr) w
             else Some (s, w)) })"
  by pat_completeness auto
termination
proof (relation "measures [\<lambda>(m, a, f, b, p, w). length p, \<lambda>(m, a, f, b, p, w). if block_offset w = int kBlockSize - 7 then 1 else 0]",
    goal_cases)
  case (2 m fappend fflush begin_rec ptr w w1 avail frag end_rec x s w2)
  note off = EmitPhysicalRecord_offset [OF 2(7) [folded 2(8)]]
  show ?case
  proof (cases "frag = 0")
    case False
    then show ?thesis using 2(9) by auto
  next
    case True
    then have a: "avail = 0" using 2(5,9) by (auto split: if_splits)
    have o1: "block_offset w1 = int kBlockSize - 7" using 2(3,4) a
      by (auto simp: kHeaderSize_def)
    then have "block_offset w = int kBlockSize - 7"
      using 2(1) unfolding 2(2) by (auto simp: switch_block_def Let_def kHeaderSize_def kBlockSize_def split: if_splits)
    then show ?thesis using off o1 True by (simp add: kHeaderSize_def)
  qed
qed simp

declare add_loop.simps [simp del]

definition AddRecord ::
    "machine \<Rightarrow> ('f \<Rightarrow> bytes \<Rightarrow> status \<times> 'f) \<Rightarrow> ('f \<Rightarrow> status \<times> 'f) \<Rightarrow> bytes \<Rightarrow> 'f Writer \<Rightarrow>
     (status \<times> 'f Writer) option" where
  "AddRecord m fappend fflush data w = add_loop m fappend fflush True data w"

subsection \<open>What is written\<close>

text \<open>A physical record: checksum, length and type, then the payload.\<close>

definition physical :: "RecordType \<Rightarrow> bytes \<Rightarrow> bytes" where
  "physical t d =
     le_bytes 4 (Mask (crc32c_ref 0 (of_nat (record_type_code t) # d))) @
     [of_nat (length d mod 256), of_nat (length d div 256), of_nat (record_type_code t)] @ d"

text \<open>The offset at which the next record starts, after the padding of the block.\<close>

definition start :: "nat \<Rightarrow> nat" where
  "start off = (if kBlockSize - off < kHeaderSize then 0 else off)"

definition padding :: "nat \<Rightarrow> bytes" where
  "padding off = (if kBlockSize - off < kHeaderSize then replicate (kBlockSize - off) 0 else [])"

fun layout :: "nat \<Rightarrow> (RecordType \<times> bytes) list \<Rightarrow> bytes" where
  "layout off [] = []"
| "layout off ((t, d) # ps) = padding off @ physical t d @ layout (start off + kHeaderSize + length d) ps"

fun end_offset :: "nat \<Rightarrow> (RecordType \<times> bytes) list \<Rightarrow> nat" where
  "end_offset off [] = off"
| "end_offset off ((t, d) # ps) = end_offset (start off + kHeaderSize + length d) ps"

function fragments :: "nat \<Rightarrow> bool \<Rightarrow> bytes \<Rightarrow> (RecordType \<times> bytes) list" where
  "fragments off b data =
     (let n = min (length data) (kBlockSize - start off - kHeaderSize) in
      (record_type b (n = length data), take n data) #
      (if n < length data then fragments (start off + kHeaderSize + n) False (drop n data) else []))"
  by pat_completeness auto
termination
  by (relation "measures [\<lambda>(off, b, d). length d, \<lambda>(off, b, d). if off = kBlockSize - kHeaderSize then 1 else 0]")
    (auto simp: start_def kBlockSize_def kHeaderSize_def min_def split: if_splits)

declare fragments.simps [simp del]

fun layout_records :: "nat \<Rightarrow> bytes list \<Rightarrow> (RecordType \<times> bytes) list" where
  "layout_records off [] = []"
| "layout_records off (r # rs) =
     fragments off True r @ layout_records (end_offset off (fragments off True r)) rs"

definition writer_ok :: "'f Writer \<Rightarrow> nat \<Rightarrow> bool" where
  "writer_ok w off =
     (block_offset w = int off \<and> off \<le> kBlockSize \<and>
      type_crc w = map (\<lambda>i. crc32c_ref 0 [of_nat i]) [0..<kMaxRecordType + 1])"

lemma record_type_code_le: "record_type_code t < kMaxRecordType + 1"
  by (cases t) (simp_all add: kMaxRecordType_def)

lemma start_le: "off \<le> kBlockSize \<Longrightarrow> start off + kHeaderSize \<le> kBlockSize"
  by (auto simp: start_def kBlockSize_def kHeaderSize_def)

lemma InitTypeCrc_ok:
  "crc32c_lib m = None \<Longrightarrow> InitTypeCrc m = Some (map (\<lambda>i. crc32c_ref 0 [of_nat i]) [0..<kMaxRecordType + 1])"
proof -
  assume n: "crc32c_lib m = None"
  have "those (map (\<lambda>i. Some (g i)) xs) = Some (map g xs)" for g :: "nat \<Rightarrow> 32 word" and xs
    by (induction xs) simp_all
  then show ?thesis by (simp only: InitTypeCrc_def n Value_def Extend_ref [OF no_lib])
qed

lemma header_bytes:
  "n \<le> 0xffff \<Longrightarrow> of_nat (n AND 0xff) = (of_nat (n mod 256) :: byte) \<and> of_nat (drop_bit 8 n) = (of_nat (n div 256) :: byte)"
proof -
  have "(0xff :: nat) = mask 8" by (simp add: mask_eq_exp_minus_1)
  then have "n AND 0xff = n mod 256" by (simp only: take_bit_eq_mask [symmetric]) (simp add: take_bit_eq_mod)
  then show ?thesis by (simp add: drop_bit_eq_div)
qed

context writable_file
begin

lemma write_physical_good:
  "good d \<Longrightarrow> \<exists>d'. write_physical append flush buf p d = (StatusOK, d') \<and> good d' \<and> contents d' = contents d @ buf @ p"
proof -
  assume "good d"
  then obtain d1 where 1: "append d buf = (StatusOK, d1)" "good d1" "contents d1 = contents d @ buf" using append_good by blast
  then obtain d2 where 2: "append d1 p = (StatusOK, d2)" "good d2" "contents d2 = contents d1 @ p" using append_good by blast
  then obtain d3 where "flush d2 = (StatusOK, d3)" "good d3" "contents d3 = contents d2" using flush_good by blast
  then show ?thesis using 1 2 by (simp add: write_physical_def)
qed

lemma EmitPhysicalRecord_good:
  assumes "crc32c_lib m = None" "writer_ok w off" "good (dest w)" "off + kHeaderSize + length d \<le> kBlockSize"
  shows "\<exists>w'. EmitPhysicalRecord m append flush t d w = Some (StatusOK, w') \<and>
    writer_ok w' (off + kHeaderSize + length d) \<and> good (dest w') \<and> contents (dest w') = contents (dest w) @ physical t d"
proof -
  let ?c = "crc32c_ref 0 (of_nat (record_type_code t) # d)"
  have len: "length d \<le> 0xffff" using assms(4) by (simp add: kBlockSize_def)
  have tc: "record_type_code t < length (type_crc w)" "type_crc w ! record_type_code t = crc32c_ref 0 [of_nat (record_type_code t)]"
    using assms(2) record_type_code_le [of t] by (simp_all add: writer_ok_def del: upt_Suc)
  have crc: "crc_Extend m (type_crc w ! record_type_code t) d = Some ?c"
    using crc32c_ref_append [of 0 "[of_nat (record_type_code t)]" d]
    by (simp add: assms(1) Extend_ref [OF no_lib] tc)
  have buf: "(EncodeFixed32 (little_endian m) (Mask ?c) @
      [of_nat (length d AND 0xff), of_nat (drop_bit 8 (length d)), of_nat (record_type_code t)]) @ d = physical t d"
    using header_bytes [OF len] by (simp add: physical_def EncodeFixed32_le)
  obtain d' where "write_physical append flush (EncodeFixed32 (little_endian m) (Mask ?c) @
      [of_nat (length d AND 0xff), of_nat (drop_bit 8 (length d)), of_nat (record_type_code t)]) d (dest w) = (StatusOK, d')"
      "good d'" "contents d' = contents (dest w) @ physical t d"
    using write_physical_good [OF assms(3)] unfolding buf [symmetric] by (metis append.assoc)
  moreover have "block_offset w + int (kHeaderSize + length d) \<le> int kBlockSize"
    using assms(2,4) by (simp add: writer_ok_def)
  ultimately show ?thesis using assms(2,4) len tc crc
    by (simp add: EmitPhysicalRecord_def Let_def writer_ok_def)
qed

lemma switch_block_good:
  assumes "writer_ok w off" "good (dest w)"
  shows "writer_ok (switch_block append w) (start off) \<and> good (dest (switch_block append w)) \<and>
    contents (dest (switch_block append w)) = contents (dest w) @ padding off"
proof -
  obtain d where "append (dest w) (replicate (kBlockSize - off) 0) = (StatusOK, d)" "good d"
      "contents d = contents (dest w) @ replicate (kBlockSize - off) 0"
    using append_good [OF assms(2)] by blast
  moreover have "nat (int kBlockSize - int off) = kBlockSize - off" by simp
  moreover have "(int kBlockSize - int off < int kHeaderSize) = (kBlockSize - off < kHeaderSize)" "(0 < int kBlockSize - int off) = (0 < kBlockSize - off)"
    using assms(1) by (auto simp: writer_ok_def)
  ultimately show ?thesis using assms
    by (auto simp: switch_block_def Let_def writer_ok_def start_def padding_def)
qed

lemma add_loop_good:
  assumes "crc32c_lib m = None"
  shows "writer_ok w off \<Longrightarrow> good (dest w) \<Longrightarrow>
    \<exists>w'. add_loop m append flush b data w = Some (StatusOK, w') \<and> good (dest w') \<and>
      writer_ok w' (end_offset off (fragments off b data)) \<and>
      contents (dest w') = contents (dest w) @ layout off (fragments off b data)"
proof (induction off b data arbitrary: w rule: fragments.induct)
  case (1 off b data)
  define v where "v = switch_block append w"
  define n where "n = min (length data) (kBlockSize - start off - kHeaderSize)"
  define t where "t = record_type b (n = length data)"
  have off: "off \<le> kBlockSize" "block_offset w = int off" using 1(2) by (simp_all add: writer_ok_def)
  have v: "writer_ok v (start off)" "good (dest v)" "contents (dest v) = contents (dest w) @ padding off"
    using switch_block_good [OF 1(2,3)] by (simp_all add: v_def)
  have n: "start off + kHeaderSize + length (take n data) \<le> kBlockSize" "length (take n data) = n"
    using start_le [OF off(1)] by (auto simp: n_def)
  obtain u where u: "EmitPhysicalRecord m append flush t (take n data) v = Some (StatusOK, u)"
      "writer_ok u (start off + kHeaderSize + n)" "good (dest u)"
      "contents (dest u) = contents (dest w) @ padding off @ physical t (take n data)"
    using EmitPhysicalRecord_good [OF assms v(1,2) n(1), of t] v(3) n(2) by auto
  have avail: "nat (int kBlockSize - block_offset v - int kHeaderSize) = kBlockSize - start off - kHeaderSize"
    using v(1) by (simp add: writer_ok_def)
  have fl: "(if length data < kBlockSize - start off - kHeaderSize then length data else kBlockSize - start off - kHeaderSize) = n"
    by (simp add: n_def min_def)
  have g: "\<not> int kBlockSize - block_offset w < 0" "\<not> int kBlockSize - block_offset v - int kHeaderSize < 0"
    using off v(1) start_le [OF off(1)] by (simp_all add: writer_ok_def)
  have step: "add_loop m append flush b data w =
      (if n < length data then add_loop m append flush False (drop n data) u else Some (StatusOK, u))"
    unfolding add_loop.simps [of m append flush b data w] Let_def v_def [symmetric] avail fl
      eq_commute [of "length data"] t_def [symmetric] using g u(1) by simp
  have fr: "fragments off b data = (t, take n data) #
      (if n < length data then fragments (start off + kHeaderSize + n) False (drop n data) else [])"
    by (subst fragments.simps) (simp add: Let_def n_def t_def)
  show ?case
  proof (cases "n < length data")
    case True
    then obtain w' where "add_loop m append flush False (drop n data) u = Some (StatusOK, w')" "good (dest w')"
        "writer_ok w' (end_offset (start off + kHeaderSize + n) (fragments (start off + kHeaderSize + n) False (drop n data)))"
        "contents (dest w') = contents (dest u) @ layout (start off + kHeaderSize + n) (fragments (start off + kHeaderSize + n) False (drop n data))"
      using 1(1) [OF n_def _ u(2,3)] by blast
    then show ?thesis using step True fr u(4) n(2) by simp
  next
    case False
    then show ?thesis using step fr u n(2) by simp
  qed
qed

end

end
