(* ===== verification/LogReader.thy ===== *)
theory LogReader
  imports LogWriter
begin

section \<open>Log reader (leveldb \<open>db/log_reader.cc\<close>)\<close>

text \<open>
  The reader over any file (its operations \<open>read\<close> and \<open>skip\<close> are arguments).  The reporter's calls are
  kept in \<open>reports\<close>.  Offsets are 64-bit words and wrap around.  \<open>None\<close> is an access out of bounds or
  a loop that does not end; the theorems show that neither happens on a log of the writer, cut at
  any byte.
\<close>

record 'f Reader =
  rd_file :: 'f
  reporter :: bool
  checksum :: bool
  buffer :: bytes
  eof :: bool
  last_record_offset :: "64 word"
  end_of_buffer_offset :: "64 word"
  initial_offset :: "64 word"
  resyncing :: bool
  reports :: "(64 word \<times> status) list"

definition new_Reader :: "'f \<Rightarrow> bool \<Rightarrow> bool \<Rightarrow> 64 word \<Rightarrow> 'f Reader" where
  "new_Reader f rep check init =
     \<lparr>rd_file = f, reporter = rep, checksum = check, buffer = [], eof = False, last_record_offset = 0,
      end_of_buffer_offset = 0, initial_offset = init, resyncing = (init > 0), reports = []\<rparr>"

definition kEof :: "32 word" where
  "kEof = of_nat (kMaxRecordType + 1)"

definition kBadRecord :: "32 word" where
  "kBadRecord = of_nat (kMaxRecordType + 2)"

definition LastRecordOffset :: "'f Reader \<Rightarrow> 64 word" where
  "LastRecordOffset r = last_record_offset r"

definition ReportDrop :: "64 word \<Rightarrow> status \<Rightarrow> 'f Reader \<Rightarrow> 'f Reader" where
  "ReportDrop dropped reason r =
     (if reporter r \<and> end_of_buffer_offset r - of_nat (length (buffer r)) - dropped \<ge> initial_offset r
      then r\<lparr>reports := reports r @ [(dropped, reason)]\<rparr> else r)"

definition ReportCorruption :: "64 word \<Rightarrow> string \<Rightarrow> 'f Reader \<Rightarrow> 'f Reader" where
  "ReportCorruption dropped reason r = ReportDrop dropped (Corruption reason) r"

definition SkipToInitialBlock :: "(nat \<Rightarrow> 'f \<Rightarrow> status \<times> 'f) \<Rightarrow> 'f Reader \<Rightarrow> bool \<times> 'f Reader" where
  "SkipToInitialBlock skip r =
     (let offset_in_block = initial_offset r mod of_nat kBlockSize;
          block_start_location = initial_offset r - offset_in_block;
          block_start_location =
            (if offset_in_block > of_nat kBlockSize - 6 then block_start_location + of_nat kBlockSize
             else block_start_location);
          r = r\<lparr>end_of_buffer_offset := block_start_location\<rparr>
      in if block_start_location > 0 then
           let (skip_status, f) = skip (unat block_start_location) (rd_file r);
               r = r\<lparr>rd_file := f\<rparr>
           in if skip_status \<noteq> StatusOK then (False, ReportDrop block_start_location skip_status r) else (True, r)
         else (True, r))"

text \<open>\<open>ReadPhysicalRecord\<close> once the buffer holds a header; \<open>result\<close> is the old value of the result.\<close>

definition parse_physical :: "machine \<Rightarrow> bytes \<Rightarrow> 'f Reader \<Rightarrow> (32 word \<times> bytes \<times> 'f Reader) option" where
  "parse_physical m result r =
     do {
       let header = buffer r;
       h4 \<leftarrow> mem_get 4 header;
       h5 \<leftarrow> mem_get 5 header;
       h6 \<leftarrow> mem_get 6 header;
       let a = (ucast h4 :: 32 word);
       let b = (ucast h5 :: 32 word);
       let type = (scast h6 :: 32 word);
       let len = unat (a OR push_bit 8 b);
       (if kHeaderSize + len > length (buffer r) then
          let drop_size = of_nat (length (buffer r));
              r = r\<lparr>buffer := []\<rparr>
          in if \<not> eof r then Some (kBadRecord, result, ReportCorruption drop_size ''bad record length'' r)
             else Some (kEof, result, r)
        else if type = of_nat (record_type_code kZeroType) \<and> len = 0 then
          Some (kBadRecord, result, r\<lparr>buffer := []\<rparr>)
        else
          do {
            good_crc \<leftarrow>
              (if checksum r then
                 do {
                   stored \<leftarrow> DecodeFixed32 (little_endian m) header;
                   data \<leftarrow> mem_read 6 (1 + len) header;
                   actual_crc \<leftarrow> crc_Value m data;
                   Some (actual_crc = Unmask stored) }
               else Some True);
            (if \<not> good_crc then
               let drop_size = of_nat (length (buffer r));
                   r = r\<lparr>buffer := []\<rparr>
               in Some (kBadRecord, result, ReportCorruption drop_size ''checksum mismatch'' r)
             else
               do {
                 buf \<leftarrow> remove_prefix (kHeaderSize + len) (buffer r);
                 let r = r\<lparr>buffer := buf\<rparr>;
                 (if end_of_buffer_offset r - of_nat (length (buffer r)) - of_nat kHeaderSize - of_nat len < initial_offset r
                  then Some (kBadRecord, [], r)
                  else do { res \<leftarrow> mem_read kHeaderSize len header; Some (type, res, r) }) }) }) }"

function ReadPhysicalRecord ::
    "machine \<Rightarrow> (nat \<Rightarrow> bytes \<Rightarrow> 'f \<Rightarrow> status \<times> bytes \<times> 'f) \<Rightarrow> bytes \<Rightarrow> 'f Reader \<Rightarrow>
     (32 word \<times> bytes \<times> 'f Reader) option" where
  "ReadPhysicalRecord m read result r =
     (if length (buffer r) < kHeaderSize then
        if \<not> eof r then
          (case read kBlockSize [] (rd_file r) of
             (status, buf, f) \<Rightarrow>
               if status \<noteq> StatusOK then
                 Some (kEof, result,
                   (ReportDrop (of_nat kBlockSize) status
                      (r\<lparr>rd_file := f, end_of_buffer_offset := end_of_buffer_offset r + of_nat (length buf), buffer := []\<rparr>))
                   \<lparr>eof := True\<rparr>)
               else
                 ReadPhysicalRecord m read result
                   (r\<lparr>rd_file := f, end_of_buffer_offset := end_of_buffer_offset r + of_nat (length buf), buffer := buf,
                      eof := length buf < kBlockSize\<rparr>))
        else Some (kEof, result, r\<lparr>buffer := []\<rparr>)
      else parse_physical m result r)"
  by pat_completeness auto
termination
  by (relation "measure (\<lambda>(m, read, res, r). if eof r \<or> length (buffer r) \<ge> kHeaderSize then 0 else 1)")
    (auto simp: kHeaderSize_def kBlockSize_def)

declare ReadPhysicalRecord.simps [simp del]

fun dec_string :: "nat \<Rightarrow> string" where
  "dec_string n =
     (if n < 10 then [''0123456789'' ! n] else dec_string (n div 10) @ [''0123456789'' ! (n mod 10)])"

declare dec_string.simps [simp del]

text \<open>
  The body of the loop of \<open>ReadRecord\<close> after a physical record is read.  Its state: whether a
  fragmented record is under way, the offset where it started, what there is of it (\<open>scratch\<close>), the
  reader.  \<open>Inl\<close> continues; \<open>Inr\<close> returns whether a record was read, the record and the scratch.
\<close>

type_synonym 'f read_state = "bool \<times> 64 word \<times> bytes \<times> 'f Reader"
type_synonym 'f read_result = "bool \<times> bytes \<times> bytes \<times> 'f Reader"

definition record_step ::
    "bool \<Rightarrow> 64 word \<Rightarrow> bytes \<Rightarrow> 32 word \<Rightarrow> bytes \<Rightarrow> 'f Reader \<Rightarrow> 'f read_state + 'f read_result" where
  "record_step in_fragmented_record prospective scratch type fragment r =
     (let physical_record_offset =
            end_of_buffer_offset r - of_nat (length (buffer r)) - of_nat kHeaderSize - of_nat (length fragment);
          resync = resyncing r;
          r = (if resync \<and> type \<noteq> of_nat (record_type_code kMiddleType) then r\<lparr>resyncing := False\<rparr> else r)
      in
      if resync \<and> (type = of_nat (record_type_code kMiddleType) \<or> type = of_nat (record_type_code kLastType)) then
        Inl (in_fragmented_record, prospective, scratch, r)
      else if type = of_nat (record_type_code kFullType) then
        let r = (if in_fragmented_record \<and> scratch \<noteq> []
                 then ReportCorruption (of_nat (length scratch)) ''partial record without end(1)'' r else r)
        in Inr (True, fragment, [], r\<lparr>last_record_offset := physical_record_offset\<rparr>)
      else if type = of_nat (record_type_code kFirstType) then
        let r = (if in_fragmented_record \<and> scratch \<noteq> []
                 then ReportCorruption (of_nat (length scratch)) ''partial record without end(2)'' r else r)
        in Inl (True, physical_record_offset, fragment, r)
      else if type = of_nat (record_type_code kMiddleType) then
        if \<not> in_fragmented_record then
          Inl (in_fragmented_record, prospective, scratch,
               ReportCorruption (of_nat (length fragment)) ''missing start of fragmented record(1)'' r)
        else Inl (in_fragmented_record, prospective, scratch @ fragment, r)
      else if type = of_nat (record_type_code kLastType) then
        if \<not> in_fragmented_record then
          Inl (in_fragmented_record, prospective, scratch,
               ReportCorruption (of_nat (length fragment)) ''missing start of fragmented record(2)'' r)
        else Inr (True, scratch @ fragment, scratch @ fragment, r\<lparr>last_record_offset := prospective\<rparr>)
      else if type = kEof then
        Inr (False, [], if in_fragmented_record then [] else scratch, r)
      else if type = kBadRecord then
        if in_fragmented_record then
          Inl (False, prospective, [], ReportCorruption (of_nat (length scratch)) ''error in middle of record'' r)
        else Inl (in_fragmented_record, prospective, scratch, r)
      else
        Inl (False, prospective, [],
             ReportCorruption (of_nat (length fragment + (if in_fragmented_record then length scratch else 0)))
               (''unknown record type '' @ dec_string (unat type)) r))"

partial_function (option) read_loop ::
    "machine \<Rightarrow> (nat \<Rightarrow> bytes \<Rightarrow> 'f \<Rightarrow> status \<times> bytes \<times> 'f) \<Rightarrow> bytes \<Rightarrow> 'f read_state \<Rightarrow> 'f read_result option" where
  "read_loop m read fragment st =
     (case st of (in_fragmented_record, prospective, scratch, r) \<Rightarrow>
        do {
          (type, fragment, r) \<leftarrow> ReadPhysicalRecord m read fragment r;
          (case record_step in_fragmented_record prospective scratch type fragment r of
             Inl st \<Rightarrow> read_loop m read fragment st
           | Inr res \<Rightarrow> Some res) })"

declare read_loop.simps [code]

definition ReadRecord ::
    "machine \<Rightarrow> (nat \<Rightarrow> bytes \<Rightarrow> 'f \<Rightarrow> status \<times> bytes \<times> 'f) \<Rightarrow> (nat \<Rightarrow> 'f \<Rightarrow> status \<times> 'f) \<Rightarrow> 'f Reader \<Rightarrow>
     'f read_result option" where
  "ReadRecord m read skip r =
     (let (ok, r) = (if last_record_offset r < initial_offset r then SkipToInitialBlock skip r else (True, r))
      in if \<not> ok then Some (False, [], [], r)
         else read_loop m read [] (False, 0, [], r))"

subsection \<open>Reading one physical record\<close>

lemma length_physical [simp]: "length (physical t d) = kHeaderSize + length d"
  by (simp add: physical_def kHeaderSize_def)

lemma header_length:
  assumes "n \<le> 0xffff"
  shows "unat (ucast (of_nat (n mod 256) :: byte) OR push_bit 8 (ucast (of_nat (n div 256) :: byte)) :: 32 word) = n"
proof -
  have "ucast (of_nat (n mod 256) :: byte) OR push_bit 8 (ucast (of_nat (n div 256) :: byte)) = (of_nat n :: 32 word)"
  proof (rule bit_word_eqI)
    fix k assume k: "k < LENGTH(32)"
    have b: "bit n k \<Longrightarrow> k < 16"
    proof -
      assume "bit n k"
      moreover have "n = take_bit 16 n" using assms by (simp add: take_bit_nat_eq_self)
      ultimately show ?thesis by (metis bit_take_bit_iff)
    qed
    have "n mod 256 = take_bit 8 n" "n div 256 = drop_bit 8 n" by (simp_all add: take_bit_eq_mod drop_bit_eq_div)
    then show "bit (ucast (of_nat (n mod 256) :: byte) OR push_bit 8 (ucast (of_nat (n div 256) :: byte)) :: 32 word) k \<longleftrightarrow>
        bit (of_nat n :: 32 word) k"
      using k b by (cases "k < 8") (auto simp: bit_simps)
  qed
  then show ?thesis using assms by (simp add: unat_of_nat take_bit_nat_eq_self)
qed

lemma type_scast: "scast (of_nat (record_type_code t) :: byte) = (of_nat (record_type_code t) :: 32 word)"
  by (cases t) simp_all

lemma physical_nth:
  "physical t d ! 4 = of_nat (length d mod 256)" "physical t d ! 5 = of_nat (length d div 256)"
  "physical t d ! 6 = of_nat (record_type_code t)"
  by (simp_all add: physical_def nth_append)

lemma physical_drop: "drop 6 (physical t d) = of_nat (record_type_code t) # d" "drop kHeaderSize (physical t d) = d"
  by (simp_all add: physical_def kHeaderSize_def)

lemma physical_crc:
  assumes "crc32c_lib m = None"
  shows "DecodeFixed32 (little_endian m) (physical t d @ x) = Some (Mask (crc32c_ref 0 (of_nat (record_type_code t) # d)))"
    "crc_Value m (of_nat (record_type_code t) # d) = Some (crc32c_ref 0 (of_nat (record_type_code t) # d))"
  using Fixed32_roundtrip [unfolded EncodeFixed32_le] assms
  by (simp_all add: physical_def Value_def Extend_ref [OF no_lib])

lemma Unmask_Mask: "Unmask (Mask crc) = crc"
  unfolding Unmask_def Mask_def Let_def add_diff_cancel_right' by (rule rotate_15) (rule refl)

text \<open>With a header in the buffer, the length check makes every access of \<open>parse_physical\<close> legal.\<close>

lemma header_get:
  assumes "kHeaderSize \<le> length buf"
  shows "mem_get 4 buf = Some (buf ! 4)" "mem_get 5 buf = Some (buf ! 5)" "mem_get 6 buf = Some (buf ! 6)"
  using assms by (simp_all add: mem_get_def kHeaderSize_def)

lemma record_read:
  assumes "\<not> kHeaderSize + len > length buf"
  shows "mem_read 6 (1 + len) buf = Some (take (1 + len) (drop 6 buf))"
    and "mem_read kHeaderSize len buf = Some (take len (drop kHeaderSize buf))"
    and "remove_prefix (kHeaderSize + len) buf = Some (drop (kHeaderSize + len) buf)"
  using assms by (auto simp: mem_read_def remove_prefix_def kHeaderSize_def)

text \<open>A record whole in the buffer.\<close>

lemma parse_physical_whole:
  assumes m: "crc32c_lib m = None" and buf: "buffer r = physical t d @ x" and t: "t \<noteq> kZeroType"
    and d: "length d \<le> 0xffff" and init: "initial_offset r = 0"
  shows "parse_physical m res r = Some (of_nat (record_type_code t), d, r\<lparr>buffer := x\<rparr>)"
proof -
  have n: "buffer r ! 4 = of_nat (length d mod 256)" "buffer r ! 5 = of_nat (length d div 256)"
    "buffer r ! 6 = of_nat (record_type_code t)"
    by (simp_all add: buf nth_append physical_nth kHeaderSize_def)
  have z: "(of_nat (record_type_code t) :: 32 word) \<noteq> 0" using t by (cases t) simp_all
  have c: "take (1 + length d) (drop 6 (buffer r)) = of_nat (record_type_code t) # d"
    "take (length d) (drop kHeaderSize (buffer r)) = d" "drop (kHeaderSize + length d) (buffer r) = x"
    by (simp_all add: buf physical_drop physical_drop(2) [unfolded kHeaderSize_def, simplified] kHeaderSize_def)
  have l: "\<not> length (buffer r) < kHeaderSize + length d" by (simp add: buf)
  have h: "kHeaderSize \<le> length (buffer r)" by (simp add: buf)
  show ?thesis
    unfolding parse_physical_def Let_def header_get [OF h] Option.bind.simps(2) n header_length [OF d] type_scast record_read [OF l] c
    using z m l physical_crc(1) [OF m, of t d x] physical_crc(2) [OF m, of t d] by (simp add: buf [symmetric] Unmask_Mask init)
qed

text \<open>A record cut short at the end of the file.\<close>

lemma parse_physical_cut:
  assumes buf: "physical t d = buffer r @ y" and y: "y \<noteq> []" and h: "kHeaderSize \<le> length (buffer r)"
    and d: "length d \<le> 0xffff" and e: "eof r"
  shows "parse_physical m res r = Some (kEof, res, r\<lparr>buffer := []\<rparr>)"
proof -
  have "buffer r ! k = physical t d ! k" if "k < kHeaderSize" for k
    using that h by (simp add: buf nth_append)
  then have n: "buffer r ! 4 = of_nat (length d mod 256)" "buffer r ! 5 = of_nat (length d div 256)"
    by (simp_all add: physical_nth kHeaderSize_def)
  have "kHeaderSize + length d > length (buffer r)"
    using arg_cong [OF buf, of length] y by simp
  then show ?thesis unfolding parse_physical_def Let_def header_get [OF h] Option.bind.simps(2) n header_length [OF d] using e by simp
qed

context sequential_file
begin

text \<open>The reader stands at offset \<open>off\<close> of a block, and \<open>S\<close> is what there is of the log from there.\<close>

definition reader_at :: "'f Reader \<Rightarrow> bytes \<Rightarrow> nat \<Rightarrow> bool" where
  "reader_at r S off =
     (good (rd_file r) \<and> S = buffer r @ rest (rd_file r) \<and> off \<le> kBlockSize \<and>
      length (buffer r) = min (kBlockSize - off) (length S) \<and> eof r = (length (buffer r) < kBlockSize - off) \<and>
      initial_offset r = 0 \<and> \<not> resyncing r)"

text \<open>At the end of a block the next one is read.\<close>

lemma refill:
  assumes at: "reader_at r S off" and low: "kBlockSize - off < kHeaderSize" "length S \<ge> kBlockSize - off"
  shows "\<exists>r1. ReadPhysicalRecord m read res r = ReadPhysicalRecord m read res r1 \<and>
     reader_at r1 (drop (kBlockSize - off) S) 0 \<and> reports r1 = reports r"
proof -
  have b: "length (buffer r) = kBlockSize - off" "\<not> eof r" "rest (rd_file r) = drop (kBlockSize - off) S" "good (rd_file r)"
    using at low by (auto simp: reader_at_def)
  obtain f where f: "read kBlockSize [] (rd_file r) = (StatusOK, take kBlockSize (rest (rd_file r)), f)"
      "good f" "rest f = drop kBlockSize (rest (rd_file r))"
    using read_good [OF b(4)] by blast
  let ?b = "take kBlockSize (rest (rd_file r))"
  define r1 where "r1 = r\<lparr>rd_file := f, end_of_buffer_offset := end_of_buffer_offset r + of_nat (length ?b), buffer := ?b,
      eof := length ?b < kBlockSize\<rparr>"
  have "ReadPhysicalRecord m read res r = ReadPhysicalRecord m read res r1"
    using b(1,2) low(1) f(1) by (simp add: ReadPhysicalRecord.simps [of m read res r] r1_def)
  moreover have "reader_at r1 (drop (kBlockSize - off) S) 0"
    unfolding b(3) [symmetric] r1_def using at f(2,3) by (auto simp: reader_at_def)
  moreover have "reports r1 = reports r" by (simp add: r1_def)
  ultimately show ?thesis by blast
qed

lemma ReadPhysicalRecord_short:
  assumes at: "reader_at r S off" and S: "length S < kHeaderSize" "length S < kBlockSize - off"
  shows "\<exists>r1. ReadPhysicalRecord m read res r = Some (kEof, res, r1) \<and> reports r1 = reports r \<and> \<not> resyncing r1"
proof -
  have "length (buffer r) < kHeaderSize" "eof r" "\<not> resyncing r" using at S unfolding reader_at_def by linarith+
  then show ?thesis by (simp add: ReadPhysicalRecord.simps [of m read res r])
qed

lemma ReadPhysicalRecord_whole_0:
  assumes m: "crc32c_lib m = None" and at: "reader_at r (physical t d @ S') off" and t: "t \<noteq> kZeroType"
    and fit: "off + kHeaderSize + length d \<le> kBlockSize"
  shows "\<exists>r'. ReadPhysicalRecord m read res r = Some (of_nat (record_type_code t), d, r') \<and>
     reader_at r' S' (off + kHeaderSize + length d) \<and> reports r' = reports r"
proof -
  define n where "n = length (buffer r) - (kHeaderSize + length d)"
  have l: "length (buffer r) \<ge> kHeaderSize + length d" using at fit by (auto simp: reader_at_def)
  have S: "physical t d @ S' = buffer r @ rest (rd_file r)" using at by (simp add: reader_at_def)
  then have "take (length (buffer r)) (physical t d @ S') = buffer r" by simp
  then have b: "buffer r = physical t d @ take n S'" using l by (simp add: n_def)
  have S': "S' = take n S' @ rest (rd_file r)" using S unfolding b by simp
  have d: "length d \<le> 0xffff" using fit by (simp add: kBlockSize_def)
  have init: "initial_offset r = 0" using at by (simp add: reader_at_def)
  have p: "ReadPhysicalRecord m read res r = Some (of_nat (record_type_code t), d, r\<lparr>buffer := take n S'\<rparr>)"
    using l parse_physical_whole [OF m b t d init, of res] by (simp only: ReadPhysicalRecord.simps [of m read res r]) simp
  have lb: "length (buffer r) = min (kBlockSize - off) (kHeaderSize + length d + length S')"
      "eof r = (length (buffer r) < kBlockSize - off)"
    using at by (simp_all add: reader_at_def)
  have lt: "length (buffer r) = kHeaderSize + length d + length (take n S')" using arg_cong [OF b, of length] by simp
  have "reader_at (r\<lparr>buffer := take n S'\<rparr>) S' (off + kHeaderSize + length d)"
    using at fit S' lb lt unfolding reader_at_def by (simp del: length_take) linarith
  then show ?thesis using p by (intro exI [of _ "r\<lparr>buffer := take n S'\<rparr>"]) simp
qed

lemma ReadPhysicalRecord_cut_0:
  assumes at: "reader_at r S off" and cut: "physical t d = S @ y" "y \<noteq> []"
    and fit: "off + kHeaderSize + length d \<le> kBlockSize"
  shows "\<exists>r'. ReadPhysicalRecord m read res r = Some (kEof, res, r') \<and> reports r' = reports r \<and> \<not> resyncing r'"
proof -
  have l: "length S < kHeaderSize + length d" using arg_cong [OF cut(1), of length] cut(2) by simp
  have b2: "length (buffer r) = length S" "eof r" using at fit l unfolding reader_at_def by linarith+
  have "S = buffer r @ rest (rd_file r)" using at by (simp add: reader_at_def)
  with b2(1) have b: "buffer r = S" "eof r" using b2(2) by (metis append_eq_conv_conj take_all order_refl)+
  have d: "length d \<le> 0xffff" using fit by (simp add: kBlockSize_def)
  show ?thesis
  proof (cases "length S < kHeaderSize")
    case True
    then show ?thesis using ReadPhysicalRecord_short [OF at True] fit by simp
  next
    case False
    then show ?thesis using parse_physical_cut [OF cut(1) [folded b(1)] cut(2) _ d b(2), of m res] b(1) at
      by (simp only: ReadPhysicalRecord.simps [of m read res r]) (simp add: reader_at_def)
  qed
qed

end

lemma append_split: "h @ l = S @ y \<Longrightarrow> \<not> length S < length h \<Longrightarrow> \<exists>z. S = h @ z \<and> l = z @ y"
  by (auto simp: append_eq_append_conv2)

context sequential_file
begin

lemma ReadPhysicalRecord_whole:
  assumes m: "crc32c_lib m = None" and at: "reader_at r (padding off @ physical t d @ S') off" and t: "t \<noteq> kZeroType"
    and fit: "start off + kHeaderSize + length d \<le> kBlockSize"
  shows "\<exists>r'. ReadPhysicalRecord m read res r = Some (of_nat (record_type_code t), d, r') \<and>
     reader_at r' S' (start off + kHeaderSize + length d) \<and> reports r' = reports r"
proof (cases "kBlockSize - off < kHeaderSize")
  case True
  then obtain r1 where r1: "ReadPhysicalRecord m read res r = ReadPhysicalRecord m read res r1"
      "reader_at r1 (physical t d @ S') 0" "reports r1 = reports r"
    using refill [OF at True, of m res] by (auto simp: padding_def)
  then show ?thesis using ReadPhysicalRecord_whole_0 [OF m r1(2) t, of res] fit True by (simp add: start_def)
next
  case False
  then show ?thesis using ReadPhysicalRecord_whole_0 [OF m _ t, of r d S' off res] at fit by (simp add: start_def padding_def)
qed

lemma ReadPhysicalRecord_cut:
  assumes at: "reader_at r S off" and cut: "padding off @ physical t d = S @ y" "y \<noteq> []"
    and fit: "start off + kHeaderSize + length d \<le> kBlockSize"
  shows "\<exists>r'. ReadPhysicalRecord m read res r = Some (kEof, res, r') \<and> reports r' = reports r \<and> \<not> resyncing r'"
proof (cases "kBlockSize - off < kHeaderSize")
  case low: True
  show ?thesis
  proof (cases "length S < kBlockSize - off")
    case True
    then show ?thesis using ReadPhysicalRecord_short [OF at _ True, of m res] low by simp
  next
    case False
    then obtain r1 where r1: "ReadPhysicalRecord m read res r = ReadPhysicalRecord m read res r1"
        "reader_at r1 (drop (kBlockSize - off) S) 0" "reports r1 = reports r"
      using refill [OF at low, of m res] by auto
    have "drop (kBlockSize - off) (padding off @ physical t d) = drop (kBlockSize - off) (S @ y)"
      by (simp only: cut(1))
    then have "physical t d = drop (kBlockSize - off) S @ y" using low False by (simp add: padding_def)
    then show ?thesis using ReadPhysicalRecord_cut_0 [OF r1(2) _ cut(2), of t d m res] fit low r1
      by (simp add: start_def)
  qed
next
  case False
  then show ?thesis using ReadPhysicalRecord_cut_0 [OF at _ cut(2), of t d m res] cut(1) fit
    by (simp add: start_def padding_def)
qed

end

lemmas record_types = kEof_def kBadRecord_def kMaxRecordType_def

subsection \<open>Fragments\<close>

lemma record_type_not_zero: "record_type b e \<noteq> kZeroType"
  by (simp add: record_type_def)

lemma fragments_unfold:
  assumes "n = min (length data) (kBlockSize - start off - kHeaderSize)"
  shows "fragments off b data = (record_type b (n = length data), take n data) #
      (if n < length data then fragments (start off + kHeaderSize + n) False (drop n data) else [])"
  unfolding assms by (subst fragments.simps) (simp add: Let_def)

text \<open>How a fragment changes the state of the loop.\<close>

lemma record_step_fragment:
  assumes "\<not> resyncing r"
  shows "record_step (\<not> b) p scratch (of_nat (record_type_code (record_type b e))) d r =
    (if e then Inr (True, if b then d else scratch @ d, if b then [] else scratch @ d,
        r\<lparr>last_record_offset := (if b then end_of_buffer_offset r - of_nat (length (buffer r)) - of_nat kHeaderSize - of_nat (length d) else p)\<rparr>)
     else Inl (True, if b then end_of_buffer_offset r - of_nat (length (buffer r)) - of_nat kHeaderSize - of_nat (length d) else p,
        if b then d else scratch @ d, r))"
  using assms by (simp add: record_step_def record_type_def Let_def record_types)

lemma record_step_eof:
  "\<not> resyncing r \<Longrightarrow> record_step fragd p scratch kEof d r = Inr (False, [], if fragd then [] else scratch, r)"
  by (simp add: record_step_def Let_def record_types)

context sequential_file
begin

lemma reader_at_resync: "reader_at r S off \<Longrightarrow> \<not> resyncing r"
  by (simp add: reader_at_def)

lemma reader_at_last: "reader_at (r\<lparr>last_record_offset := x\<rparr>) S off = reader_at r S off"
  by (simp add: reader_at_def)

lemma read_loop_whole:
  assumes m: "crc32c_lib m = None"
  shows "off \<le> kBlockSize \<Longrightarrow> reader_at r (layout off (fragments off b data) @ S') off \<Longrightarrow>
    \<exists>scr r'. read_loop m read fr (\<not> b, p, scratch, r) = Some (True, if b then data else scratch @ data, scr, r') \<and>
      reader_at r' S' (end_offset off (fragments off b data)) \<and> reports r' = reports r"
proof (induction off b data arbitrary: r p scratch fr rule: fragments.induct)
  case (1 off b data)
  define n where "n = min (length data) (kBlockSize - start off - kHeaderSize)"
  define t where "t = record_type b (n = length data)"
  define ps where "ps = (if n < length data then fragments (start off + kHeaderSize + n) False (drop n data) else [])"
  have fr: "fragments off b data = (t, take n data) # ps"
    unfolding t_def ps_def by (rule fragments_unfold [OF n_def])
  have len: "length (take n data) = n" by (simp add: n_def)
  have fit: "start off + kHeaderSize + n \<le> kBlockSize" using start_le [OF 1(2)] by (simp add: n_def)
  have at: "reader_at r (padding off @ physical t (take n data) @ layout (start off + kHeaderSize + n) ps @ S') off"
    using 1(3) len by (simp add: fr)
  obtain r1 where r1: "ReadPhysicalRecord m read fr r = Some (of_nat (record_type_code t), take n data, r1)"
      "reader_at r1 (layout (start off + kHeaderSize + n) ps @ S') (start off + kHeaderSize + n)" "reports r1 = reports r"
    using ReadPhysicalRecord_whole [OF m at _, of fr] record_type_not_zero fit len unfolding t_def by auto
  note step = record_step_fragment [OF reader_at_resync [OF r1(2)], of b p scratch "n = length data" "take n data", folded t_def]
  show ?case
  proof (cases "n < length data")
    case False
    then have e: "n = length data" by (simp add: n_def)
    show ?thesis using r1 e step by (subst read_loop.simps) (simp add: fr ps_def reader_at_last)
  next
    case True
    define p1 where "p1 = (if b then end_of_buffer_offset r1 - of_nat (length (buffer r1)) - of_nat kHeaderSize - of_nat (length (take n data)) else p)"
    have l: "read_loop m read fr (\<not> b, p, scratch, r) =
        read_loop m read (take n data) (\<not> False, p1, if b then take n data else scratch @ take n data, r1)"
      using True step r1(1) by (subst read_loop.simps) (simp add: p1_def)
    have p: "ps = fragments (start off + kHeaderSize + n) False (drop n data)" using True by (simp add: ps_def)
    obtain scr r' where "read_loop m read (take n data) (\<not> False, p1, if b then take n data else scratch @ take n data, r1) =
          Some (True, (if b then take n data else scratch @ take n data) @ drop n data, scr, r')"
        "reader_at r' S' (end_offset (start off + kHeaderSize + n) ps)" "reports r' = reports r1"
      using 1(1) [OF n_def True fit, of r1 "take n data" p1 "if b then take n data else scratch @ take n data"] r1(2) unfolding p by auto
    then show ?thesis unfolding l using r1(3) len by (auto simp: fr)
  qed
qed

lemma read_loop_cut:
  assumes m: "crc32c_lib m = None"
  shows "off \<le> kBlockSize \<Longrightarrow> reader_at r S off \<Longrightarrow> layout off (fragments off b data) = S @ y \<Longrightarrow> y \<noteq> [] \<Longrightarrow>
    \<exists>scr r'. read_loop m read fr (\<not> b, p, scratch, r) = Some (False, [], scr, r') \<and> reports r' = reports r"
proof (induction off b data arbitrary: r p scratch fr S rule: fragments.induct)
  case (1 off b data)
  define n where "n = min (length data) (kBlockSize - start off - kHeaderSize)"
  define t where "t = record_type b (n = length data)"
  define ps where "ps = (if n < length data then fragments (start off + kHeaderSize + n) False (drop n data) else [])"
  have fr: "fragments off b data = (t, take n data) # ps"
    unfolding t_def ps_def by (rule fragments_unfold [OF n_def])
  have len: "length (take n data) = n" by (simp add: n_def)
  have fit: "start off + kHeaderSize + n \<le> kBlockSize" using start_le [OF 1(2)] by (simp add: n_def)
  let ?h = "padding off @ physical t (take n data)" and ?l = "layout (start off + kHeaderSize + n) ps"
  have S: "?h @ ?l = S @ y" using 1(4) len by (simp add: fr)
  show ?case
  proof (cases "length S < length ?h")
    case True
    then have "?h = S @ drop (length S) ?h" using S by (metis append_eq_append_conv_if append_take_drop_id less_imp_le_nat)
    moreover have "drop (length S) ?h \<noteq> []" using True by (simp only: drop_eq_Nil not_le)
    ultimately obtain r' where "ReadPhysicalRecord m read fr r = Some (kEof, fr, r')" "reports r' = reports r" "\<not> resyncing r'"
      using ReadPhysicalRecord_cut [OF 1(3), of t "take n data" _ m fr] fit unfolding len by blast
    then show ?thesis by (simp add: read_loop.simps [of m read fr] record_step_eof)
  next
    case False
    obtain S1 where S1: "S = ?h @ S1" "?l = S1 @ y"
      using append_split [OF _ False, of ?l y] S unfolding append_assoc by blast
    then have lt: "n < length data" using 1(5) by (auto simp: ps_def split: if_splits)
    have p: "ps = fragments (start off + kHeaderSize + n) False (drop n data)" using lt by (simp add: ps_def)
    have at: "reader_at r (padding off @ physical t (take n data) @ S1) off" using 1(3) S1(1) by simp
    obtain r1 where r1: "ReadPhysicalRecord m read fr r = Some (of_nat (record_type_code t), take n data, r1)"
        "reader_at r1 S1 (start off + kHeaderSize + n)" "reports r1 = reports r"
      using ReadPhysicalRecord_whole [OF m at _, of fr] record_type_not_zero fit len unfolding t_def by auto
    note step = record_step_fragment [OF reader_at_resync [OF r1(2)], of b p scratch "n = length data" "take n data", folded t_def]
    define p1 where "p1 = (if b then end_of_buffer_offset r1 - of_nat (length (buffer r1)) - of_nat kHeaderSize - of_nat (length (take n data)) else p)"
    have "read_loop m read fr (\<not> b, p, scratch, r) =
        read_loop m read (take n data) (\<not> False, p1, if b then take n data else scratch @ take n data, r1)"
      using lt step r1(1) by (subst read_loop.simps) (simp add: p1_def)
    then show ?thesis
      using 1(1) [OF n_def lt fit r1(2) S1(2) [unfolded p] 1(5), of "take n data" p1 "if b then take n data else scratch @ take n data"] r1(3)
      by auto
  qed
qed

end

subsection \<open>Whole logs\<close>

lemma layout_append: "layout off (ps @ qs) = layout off ps @ layout (end_offset off ps) qs"
  by (induction off ps rule: layout.induct) simp_all

lemma end_offset_append: "end_offset off (ps @ qs) = end_offset (end_offset off ps) qs"
  by (induction off ps rule: end_offset.induct) simp_all

lemma fragments_end: "off \<le> kBlockSize \<Longrightarrow> end_offset off (fragments off b data) \<le> kBlockSize"
proof (induction off b data rule: fragments.induct)
  case (1 off b data)
  define n where "n = min (length data) (kBlockSize - start off - kHeaderSize)"
  have "start off + kHeaderSize + n \<le> kBlockSize" "length (take n data) = n" using start_le [OF 1(2)] by (auto simp: n_def)
  then show ?case using 1(1) [OF n_def] by (subst fragments_unfold [OF n_def]) auto
qed

text \<open>A client that adds records one after the other, and one that reads at most \<open>n\<close> records.\<close>

fun add_records ::
    "machine \<Rightarrow> ('f \<Rightarrow> bytes \<Rightarrow> status \<times> 'f) \<Rightarrow> ('f \<Rightarrow> status \<times> 'f) \<Rightarrow> bytes list \<Rightarrow> 'f Writer \<Rightarrow>
     (status \<times> 'f Writer) option" where
  "add_records m fappend fflush [] w = Some (StatusOK, w)"
| "add_records m fappend fflush (d # ds) w =
     do { (s, w) \<leftarrow> AddRecord m fappend fflush d w;
          (if s = StatusOK then add_records m fappend fflush ds w else Some (s, w)) }"

fun read_records ::
    "machine \<Rightarrow> (nat \<Rightarrow> bytes \<Rightarrow> 'f \<Rightarrow> status \<times> bytes \<times> 'f) \<Rightarrow> (nat \<Rightarrow> 'f \<Rightarrow> status \<times> 'f) \<Rightarrow> nat \<Rightarrow> 'f Reader \<Rightarrow>
     (bytes list \<times> bool \<times> 'f Reader) option" where
  "read_records m read skip 0 r = Some ([], False, r)"
| "read_records m read skip (Suc n) r =
     do { (ok, rec, scratch, r) \<leftarrow> ReadRecord m read skip r;
          (if ok then do { (recs, end_of_log, r) \<leftarrow> read_records m read skip n r; Some (rec # recs, end_of_log, r) }
           else Some ([], True, r)) }"

text \<open>The log that holds the records \<open>ds\<close> from the offset \<open>off\<close> of a block on.\<close>

definition log_image :: "nat \<Rightarrow> bytes list \<Rightarrow> bytes" where
  "log_image off ds = layout off (layout_records off ds)"

lemma log_image_Cons:
  "log_image off (d # ds) =
     layout off (fragments off True d) @ log_image (end_offset off (fragments off True d)) ds"
  by (simp add: log_image_def layout_append)

lemma log_image_Nil: "log_image off [] = []"
  by (simp add: log_image_def)

context writable_file
begin

lemma add_records_good:
  assumes "crc32c_lib m = None"
  shows "writer_ok w off \<Longrightarrow> good (dest w) \<Longrightarrow>
    \<exists>w'. add_records m append flush ds w = Some (StatusOK, w') \<and> good (dest w') \<and>
      contents (dest w') = contents (dest w) @ log_image off ds"
proof (induction ds arbitrary: w off)
  case (Cons d ds)
  let ?fs = "fragments off True d"
  obtain w1 where w1: "add_loop m append flush True d w = Some (StatusOK, w1)" "good (dest w1)"
      "writer_ok w1 (end_offset off ?fs)" "contents (dest w1) = contents (dest w) @ layout off ?fs"
    using add_loop_good [OF assms Cons.prems, of True d] by blast
  show ?case using Cons.IH [OF w1(3,2)] w1 by (auto simp: AddRecord_def log_image_Cons)
qed (simp add: log_image_Nil)

end

context sequential_file
begin

lemma ReadRecord_loop: "initial_offset r = 0 \<Longrightarrow> ReadRecord m read skip r = read_loop m read [] (False, 0, [], r)"
  by (simp add: ReadRecord_def)

lemma read_records_cut:
  assumes m: "crc32c_lib m = None"
  shows "off \<le> kBlockSize \<Longrightarrow> reader_at r (take k (log_image off ds)) off \<Longrightarrow>
    \<exists>j r'. read_records m read skip (Suc (length ds)) r = Some (take j ds, True, r') \<and> reports r' = reports r \<and>
      j \<le> length ds \<and> length (log_image off (take j ds)) \<le> k \<and> (j < length ds \<longrightarrow> k < length (log_image off (take (Suc j) ds)))"
proof (induction ds arbitrary: off r k)
  case Nil
  then have at: "reader_at r [] off" by (simp add: log_image_Nil)
  have "layout off (fragments off True []) \<noteq> []"
    using fragments_unfold [OF refl, of off True "[]"] by (auto simp: kHeaderSize_def physical_def)
  then obtain scr r' where "read_loop m read [] (\<not> True, 0, [], r) = Some (False, [], scr, r')" "reports r' = reports r"
    using read_loop_cut [OF m Nil(1) at, of True "[]" _ "[]" 0 "[]"] by auto
  moreover have "initial_offset r = 0" using at by (simp add: reader_at_def)
  ultimately show ?case by (auto simp: ReadRecord_loop log_image_Nil)
next
  case (Cons d ds)
  let ?fs = "fragments off True d"
  have init: "initial_offset r = 0" using Cons.prems(2) by (simp add: reader_at_def)
  show ?case
  proof (cases "k < length (layout off ?fs)")
    case True
    then have e: "layout off ?fs = take k (log_image off (d # ds)) @ drop k (layout off ?fs)" "drop k (layout off ?fs) \<noteq> []"
      by (simp_all add: log_image_Cons)
    obtain scr r' where "read_loop m read [] (\<not> True, 0, [], r) = Some (False, [], scr, r')" "reports r' = reports r"
      using read_loop_cut [OF m Cons.prems e, of "[]" 0 "[]"] by auto
    then show ?thesis using True
      by (intro exI [of _ 0] exI [of _ r']) (simp add: ReadRecord_loop [OF init] log_image_Nil log_image_Cons)
  next
    case False
    let ?o = "end_offset off ?fs"
    have e: "take k (log_image off (d # ds)) = layout off ?fs @ take (k - length (layout off ?fs)) (log_image ?o ds)"
      using False by (simp add: log_image_Cons)
    obtain scr r1 where r1: "read_loop m read [] (\<not> True, 0, [], r) = Some (True, d, scr, r1)"
        "reader_at r1 (take (k - length (layout off ?fs)) (log_image ?o ds)) ?o" "reports r1 = reports r"
      using read_loop_whole [OF m Cons.prems(1) Cons.prems(2) [unfolded e], of "[]" 0 "[]"] by auto
    obtain j r' where j: "read_records m read skip (Suc (length ds)) r1 = Some (take j ds, True, r')" "reports r' = reports r1"
        "j \<le> length ds" "length (log_image ?o (take j ds)) \<le> k - length (layout off ?fs)"
        "j < length ds \<longrightarrow> k - length (layout off ?fs) < length (log_image ?o (take (Suc j) ds))"
      using Cons.IH [OF fragments_end [OF Cons.prems(1)] r1(2)] by blast
    show ?thesis using j r1 False init
      by (intro exI [of _ "Suc j"] exI [of _ r'])
        (auto simp: ReadRecord_loop log_image_Cons simp del: read_records.simps(2) simp: read_records.simps(2) [of _ _ _ "Suc (length ds)"])
  qed
qed

lemma new_reader_at:
  "good f \<Longrightarrow> reader_at (new_Reader f rep check 0) (rest f) kBlockSize"
  by (simp add: reader_at_def new_Reader_def)

end

lemma log_image_block: "log_image kBlockSize ds = log_image 0 ds"
proof (cases ds)
  case (Cons d ds')
  have "padding kBlockSize = []" "padding 0 = []" "start kBlockSize = 0" "start 0 = 0"
    by (simp_all add: padding_def start_def kBlockSize_def kHeaderSize_def)
  moreover have "fragments kBlockSize True d = fragments 0 True d"
    by (subst (1 2) fragments.simps) (simp add: calculation Let_def)
  moreover have "fragments 0 True d \<noteq> []" by (subst fragments.simps) (simp add: Let_def)
  ultimately show ?thesis unfolding Cons log_image_Cons by (cases "fragments 0 True d") auto
qed (simp add: log_image_Nil)

lemma log_image_take: "length (log_image off (take j ds)) \<le> length (log_image off ds)"
  by (induction ds arbitrary: off j) (auto simp: log_image_Nil log_image_Cons take_Cons split: nat.split)

text \<open>
  C1. Round trip and recovery of the log on POSIX files.  The writer succeeds on every sequence of
  records (of any lengths, so across any number of blocks).  If the file is cut after any \<open>k\<close> bytes, as a
  crash may do, the reader returns exactly the records that are whole in it, in order, then the end
  of the log, and reports no corruption.  With nothing cut it returns all of them.
\<close>

theorem log_roundtrip:
  assumes "crc32c_lib m = None" "wf_good f" "wf_contents f = []"
    and "only_interrupts g" "position g = 0" "disk g = take k (log_image 0 ds)"
  shows "(\<exists>w w'. new_Writer m f = Some w \<and>
      add_records m (file_Append strerror) (file_Flush strerror) ds w = Some (StatusOK, w') \<and>
      wf_contents (dest w') = log_image 0 ds) \<and>
    (\<exists>j r'. read_records m (seq_Read strerror fname) (seq_Skip strerror fname) (Suc (length ds))
           (new_Reader g True check 0) = Some (take j ds, True, r') \<and>
         reports r' = [] \<and> j \<le> length ds \<and> length (log_image 0 (take j ds)) \<le> k \<and>
         (j < length ds \<longrightarrow> k < length (log_image 0 (take (Suc j) ds))) \<and>
         (length (log_image 0 ds) \<le> k \<longrightarrow> j = length ds))"
proof -
  define w where "w = \<lparr>dest = f, block_offset = 0, type_crc = map (\<lambda>i. crc32c_ref 0 [of_nat i]) [0..<kMaxRecordType + 1]\<rparr>"
  have w: "new_Writer m f = Some w" "writer_ok w 0" "dest w = f"
    using assms(1) by (simp_all add: w_def new_Writer_def InitTypeCrc_ok writer_ok_def del: upt_Suc)
  obtain w' where w': "add_records m (file_Append strerror) (file_Flush strerror) ds w = Some (StatusOK, w')"
      "wf_contents (dest w') = log_image 0 ds"
    using posix_file.add_records_good [OF assms(1) w(2), of strerror ds] assms(2,3) w(3) by auto
  have "os_rest g = take k (log_image kBlockSize ds)" using assms(5,6) by (simp add: os_rest_def log_image_block)
  then have at: "posix_seq.reader_at (new_Reader g True check 0) (take k (log_image kBlockSize ds)) kBlockSize"
    using posix_seq.new_reader_at [OF assms(4), of True check] by simp
  have "reports (new_Reader g True check 0) = []" by (simp add: new_Reader_def)
  with posix_seq.read_records_cut [OF assms(1) order_refl at, of strerror fname "seq_Skip strerror fname", unfolded log_image_block]
  obtain j r' where j: "read_records m (seq_Read strerror fname) (seq_Skip strerror fname) (Suc (length ds))
         (new_Reader g True check 0) = Some (take j ds, True, r')"
       "reports r' = []" "j \<le> length ds" "length (log_image 0 (take j ds)) \<le> k"
       "j < length ds \<longrightarrow> k < length (log_image 0 (take (Suc j) ds))"
    by auto
  moreover have "length (log_image 0 ds) \<le> k \<longrightarrow> j = length ds"
    using j(3,5) log_image_take [of 0 "Suc j" ds] by (meson le_neq_implies_less le_trans not_le)
  ultimately show ?thesis using w(1) w' by blast
qed

definition ex_machine :: machine where
  "ex_machine = \<lparr>little_endian = True, crc32c_lib = None, address = \<lambda>b. 0\<rparr>"

definition ex_new_file :: PosixWritableFile where
  "ex_new_file = new_PosixWritableFile ''000003.log'' \<lparr>disk = [], position = 0, script = [Errno EINTR, Ret 3]\<rparr>"

definition ex_cut_log :: os_file where
  "ex_cut_log = \<lparr>disk = take 12 (log_image 0 [[1, 2], [3]]), position = 0, script = [Errno EINTR]\<rparr>"

lemma ex_log_lengths:
  "length (log_image 0 [[1, 2], [3]]) = 17" "length (log_image 0 [[1, 2]]) = 9" "length (log_image 0 []) = 0"
  by (simp_all add: log_image_def fragments.simps [of 0] fragments.simps [of 9] start_def padding_def kBlockSize_def kHeaderSize_def Let_def)

theorem log_roundtrip_witness:
  "\<exists>r'. read_records ex_machine (seq_Read (\<lambda>e. []) ''000003.log'') (seq_Skip (\<lambda>e. []) ''000003.log'') 3
      (new_Reader ex_cut_log True True 0) = Some ([[1, 2]], True, r') \<and> reports r' = []"
proof -
  have g: "wf_good ex_new_file" "wf_contents ex_new_file = []" "only_interrupts ex_cut_log" "position ex_cut_log = 0"
      "disk ex_cut_log = take 12 (log_image 0 [[1, 2], [3]])" "crc32c_lib ex_machine = None"
    by (simp_all add: wf_good_def ex_new_file_def new_PosixWritableFile_def wf_ok_def no_errors_def wf_contents_def
        only_interrupts_def ex_cut_log_def ex_machine_def)
  obtain j r' where j: "read_records ex_machine (seq_Read (\<lambda>e. []) ''000003.log'') (seq_Skip (\<lambda>e. []) ''000003.log'')
      (Suc (length [[1, 2], [3 :: byte]])) (new_Reader ex_cut_log True True 0) = Some (take j [[1, 2], [3]], True, r')"
      "reports r' = []" "j \<le> length [[1, 2], [3 :: byte]]" "length (log_image 0 (take j [[1, 2], [3]])) \<le> 12"
      "j < length [[1, 2], [3 :: byte]] \<longrightarrow> 12 < length (log_image 0 (take (Suc j) [[1, 2], [3]]))"
    using log_roundtrip [OF g(6,1,2,3,4,5), of "\<lambda>e. []" "''000003.log''" True] by blast
  have "j = 0 \<or> j = 1 \<or> j = 2" using j(3) by auto
  then have "j = 1" using j(4,5) ex_log_lengths by auto
  then show ?thesis using j(1,2) by (intro exI [of _ r']) (simp add: numeral_eq_Suc)
qed

subsection \<open>Any file\<close>

lemma Extend_total: "\<exists>c. Extend lib le addr crc buf = Some c"
proof (cases "CanAccelerateCRC32C lib")
  case True
  then show ?thesis by (simp add: Extend_def)
qed (simp add: Extend_ref)

lemma parse_physical_total:
  assumes "length (buffer r) \<ge> kHeaderSize"
  shows "\<exists>t d r'. parse_physical m res r = Some (t, d, r') \<and> rd_file r' = rd_file r \<and>
     length (buffer r') + kHeaderSize \<le> length (buffer r)"
proof -
  have h: "mem_read 0 4 (buffer r) \<noteq> None" using assms by (simp add: mem_read_def kHeaderSize_def)
  define len where "len = unat (ucast (buffer r ! 4) OR push_bit 8 (ucast (buffer r ! 5)) :: 32 word)"
  obtain c where c: "crc_Value m (take (1 + len) (drop 6 (buffer r))) = Some c" using Extend_total Value_def by metis
  obtain s where s: "DecodeFixed32 (little_endian m) (buffer r) = Some s" using h by (auto simp: DecodeFixed32_le)
  have rep: "rd_file (ReportCorruption n x v) = rd_file v" "buffer (ReportCorruption n x v) = buffer v" for n x v
    by (simp_all add: ReportCorruption_def ReportDrop_def)
  show ?thesis
  proof (cases "kHeaderSize + len > length (buffer r)")
    case True
    then show ?thesis unfolding parse_physical_def Let_def header_get [OF assms] Option.bind.simps(2) len_def [symmetric]
      using assms by (auto simp: rep)
  next
    case False
    then show ?thesis
      unfolding parse_physical_def Let_def header_get [OF assms] Option.bind.simps(2) len_def [symmetric] record_read [OF False] c s
      using assms by (auto simp: rep)
  qed
qed

lemma sys_read_rest:
  "sys_read k n = (r, b, k') \<Longrightarrow> length b + length (os_rest k') \<le> length (os_rest k)"
  by (auto simp: sys_read_def Let_def os_rest_def split: list.splits sys_result.splits)

lemma seq_Read_rest:
  "seq_Read strerror fname n [] k = (s, b, k') \<Longrightarrow> length b + length (os_rest k') \<le> length (os_rest k)"
proof (induction strerror fname n "[] :: bytes" k rule: seq_Read.induct)
  case (1 strerror fname n k)
  obtain r b1 k1 where s: "sys_read k n = (r, b1, k1)" by (metis prod_cases3)
  note le = sys_read_rest [OF s]
  show ?case
  proof (cases r)
    case (Ret j)
    then show ?thesis using 1(2) le by (simp add: seq_Read.simps [of strerror fname n "[]" k] s)
  next
    case (Errno e)
    then show ?thesis
      using 1(2) le 1(1) [OF s [symmetric] Errno refl] by (auto simp: seq_Read.simps [of strerror fname n "[]" k] s split: if_splits)
  qed
qed

abbreviation (input) unread :: "os_file Reader \<Rightarrow> nat" where
  "unread r \<equiv> length (buffer r) + length (os_rest (rd_file r))"

lemma ReadPhysicalRecord_total:
  "\<exists>t d r'. ReadPhysicalRecord m (seq_Read strerror fname) res r = Some (t, d, r') \<and>
     (t = kEof \<or> unread r' < unread r)"
proof (induction m "seq_Read strerror fname" res r rule: ReadPhysicalRecord.induct)
  case (1 m res r)
  obtain s b k where rd: "seq_Read strerror fname kBlockSize [] (rd_file r) = (s, b, k)" by (metis prod_cases3)
  note le = seq_Read_rest [OF rd]
  consider "length (buffer r) \<ge> kHeaderSize" | "length (buffer r) < kHeaderSize" "eof r"
    | "length (buffer r) < kHeaderSize" "\<not> eof r" "s \<noteq> StatusOK" | "length (buffer r) < kHeaderSize" "\<not> eof r" "s = StatusOK"
    by fastforce
  then show ?case
  proof cases
    case 1
    then show ?thesis using parse_physical_total [OF 1, of m res]
      by (auto simp: ReadPhysicalRecord.simps [of m _ res r] kHeaderSize_def)
  next
    case 4
    define r1 where "r1 = r\<lparr>rd_file := k, end_of_buffer_offset := end_of_buffer_offset r + of_nat (length b), buffer := b,
      eof := length b < kBlockSize\<rparr>"
    have "ReadPhysicalRecord m (seq_Read strerror fname) res r = ReadPhysicalRecord m (seq_Read strerror fname) res r1"
      using 4 by (simp add: ReadPhysicalRecord.simps [of m _ res r] rd r1_def)
    moreover have "unread r1 \<le> unread r" using le by (simp add: r1_def)
    moreover have "\<exists>t d r'. ReadPhysicalRecord m (seq_Read strerror fname) res r1 = Some (t, d, r') \<and>
        (t = kEof \<or> unread r' < unread r1)"
      unfolding r1_def by (rule 1 [OF 4(1,2) rd [symmetric] refl]) (simp add: 4(3))
    ultimately show ?thesis by (elim exE conjE) (intro exI conjI, simp, linarith)
  qed (simp_all add: ReadPhysicalRecord.simps [of m _ res r] rd)
qed

lemma record_step_keeps:
  "record_step i p s t d r = Inl (i', p', s', r') \<Longrightarrow> t \<noteq> kEof \<and> buffer r' = buffer r \<and> rd_file r' = rd_file r"
  by (auto simp: record_step_def Let_def ReportCorruption_def ReportDrop_def record_types split: if_splits)

lemma read_loop_total: "\<exists>res. read_loop m (seq_Read strerror fname) fr (i, p, s, r) = Some res"
proof (induction "unread r" arbitrary: fr i p s r rule: less_induct)
  case less
  obtain t d r1 where 1: "ReadPhysicalRecord m (seq_Read strerror fname) fr r = Some (t, d, r1)"
      "t = kEof \<or> unread r1 < unread r"
    using ReadPhysicalRecord_total by blast
  show ?case
  proof (cases "record_step i p s t d r1")
    case (Inl st)
    obtain i' p' s' r' where st: "st = (i', p', s', r')" by (metis prod_cases4)
    have "unread r' < unread r" using record_step_keeps [OF Inl [unfolded st]] 1(2) by auto
    then show ?thesis using less [of r' d i' p' s'] 1(1) Inl st by (simp add: read_loop.simps [of m _ fr])
  qed (use 1(1) in \<open>simp add: read_loop.simps [of m _ fr] del: split_paired_Ex\<close>)
qed

text \<open>
  C19. Totality: on a POSIX file with any contents, whatever the system calls return, interrupted
  finitely often, and in any state of the reader, \<open>ReadRecord\<close> returns, and it never reads outside of
  its buffer.
\<close>

theorem ReadRecord_total:
  "\<exists>ok rec scratch r'. ReadRecord m (seq_Read strerror fname) (seq_Skip strerror fname) r = Some (ok, rec, scratch, r')"
proof -
  obtain b r1 where "(if last_record_offset r < initial_offset r then SkipToInitialBlock (seq_Skip strerror fname) r else (True, r)) = (b, r1)"
    by fastforce
  moreover obtain res where "read_loop m (seq_Read strerror fname) [] (False, 0, [], r1) = Some res"
    using read_loop_total by blast
  ultimately show ?thesis by (cases b; cases res) (auto simp: ReadRecord_def)
qed

text \<open>A new reader does not report that it could not skip to its first block.\<close>

lemma SkipToInitialBlock_unreported:
  assumes "buffer r = []" "SkipToInitialBlock skip r = (False, r')"
  shows "reports r' = reports r"
proof -
  have "initial_offset r \<noteq> 0"
    using assms(2) by (auto simp: SkipToInitialBlock_def Let_def kBlockSize_def)
  then have "\<not> 0 \<ge> initial_offset r" by (simp add: word_le_nat_alt unat_gt_0)
  then show ?thesis using assms
    by (auto simp: SkipToInitialBlock_def Let_def ReportDrop_def case_prod_beta split: if_splits)
qed

end
