(* ===== verification/Bloom.thy ===== *)
theory Bloom
  imports Comparator
begin

section \<open>Bloom filters (leveldb \<open>util/hash.cc\<close>, \<open>util/bloom.cc\<close>)\<close>

text \<open>
  The hash function, the Bloom filter policy, the contract of a filter policy (no false negatives, and a query
  never reads outside the filter it is given) and the policy that strips internal keys to user keys.
\<close>

subsection \<open>The hash function\<close>

abbreviation hash_m :: "32 word" where
  "hash_m \<equiv> 0xc6a4a793"

fun hash_loop :: "bool \<Rightarrow> bytes \<Rightarrow> 32 word \<Rightarrow> (32 word \<times> bytes) option" where
  "hash_loop le (a # b # c # d # data) h =
     do { w \<leftarrow> DecodeFixed32 le [a, b, c, d];
          let h = (h + w) * hash_m
          in hash_loop le data (h XOR drop_bit 16 h) }"
| "hash_loop le data h = Some (h, data)"

fun hash_tail :: "bytes \<Rightarrow> 32 word \<Rightarrow> 32 word" where
  "hash_tail [a, b, c] h = hash_tail [a, b] (h + push_bit 16 (ucast c))"
| "hash_tail [a, b] h = hash_tail [a] (h + push_bit 8 (ucast b))"
| "hash_tail [a] h = (let h = (h + ucast a) * hash_m in h XOR drop_bit 24 h)"
| "hash_tail _ h = h"

definition Hash :: "bool \<Rightarrow> bytes \<Rightarrow> 32 word \<Rightarrow> 32 word option" where
  "Hash le data seed =
     do { (h, data) \<leftarrow> hash_loop le data (seed XOR (of_nat (length data) * hash_m));
          Some (hash_tail data h) }"

definition BloomHash :: "bool \<Rightarrow> bytes \<Rightarrow> 32 word option" where
  "BloomHash le key = Hash le key 0xbc9f1d34"

subsection \<open>The Bloom filter policy\<close>

record BloomFilterPolicy =
  bits_per_key :: "64 word"
  bf_k :: nat

text \<open>
  \<open>static_cast<size_t>(bits_per_key * 0.69)\<close> truncates; for the values below the cap of 30 probes the product
  is at least 0.01 away from an integer, so the rounding of the multiplication does not matter.  The conversion
  of a value of at most \<open>-1\<close> is undefined.
\<close>

definition new_BloomFilterPolicy :: "int \<Rightarrow> BloomFilterPolicy option" where
  "new_BloomFilterPolicy bits =
     (if bits * 69 \<le> - 100 then None
      else
        let k = nat (bits * 69) div 100;
            k = (if k < 1 then 1 else k);
            k = (if k > 30 then 30 else k)
        in Some \<lparr>bits_per_key = of_int bits, bf_k = k\<rparr>)"

definition bloom_delta :: "32 word \<Rightarrow> 32 word" where
  "bloom_delta h = drop_bit 17 h OR push_bit 15 h"

fun set_probes :: "nat \<Rightarrow> nat \<Rightarrow> 32 word \<Rightarrow> 32 word \<Rightarrow> bytes \<Rightarrow> bytes option" where
  "set_probes 0 bits delta h array = Some array"
| "set_probes (Suc j) bits delta h array =
     (if bits = 0 then None
      else
        let bitpos = unat h mod bits
        in if bitpos div 8 < length array then
             set_probes j bits delta (h + delta)
               (array[bitpos div 8 := array ! (bitpos div 8) OR push_bit (bitpos mod 8) 1])
           else None)"

fun add_keys :: "bool \<Rightarrow> nat \<Rightarrow> nat \<Rightarrow> bytes list \<Rightarrow> bytes \<Rightarrow> bytes option" where
  "add_keys le k bits [] array = Some array"
| "add_keys le k bits (key # keys) array =
     do { h \<leftarrow> BloomHash le key;
          array \<leftarrow> set_probes k bits (bloom_delta h) h array;
          add_keys le k bits keys array }"

definition CreateFilter :: "bool \<Rightarrow> BloomFilterPolicy \<Rightarrow> bytes list \<Rightarrow> bytes \<Rightarrow> bytes option" where
  "CreateFilter le p keys dst =
     (let n = length keys;
          bits = of_nat n * bits_per_key p :: 64 word;
          bits = (if bits < 64 then 64 else bits);
          bytes = (bits + 7) div 8;
          bits = bytes * 8
      in do { array \<leftarrow> add_keys le (bf_k p) (unat bits) keys (replicate (unat bytes) 0 @ [of_nat (bf_k p)]);
              Some (dst @ array) })"

fun test_probes :: "nat \<Rightarrow> nat \<Rightarrow> 32 word \<Rightarrow> 32 word \<Rightarrow> bytes \<Rightarrow> bool option" where
  "test_probes 0 bits delta h array = Some True"
| "test_probes (Suc j) bits delta h array =
     (if bits = 0 then None
      else
        let bitpos = unat h mod bits
        in if bitpos div 8 < length array then
             (if array ! (bitpos div 8) AND push_bit (bitpos mod 8) 1 = 0 then Some False
              else test_probes j bits delta (h + delta) array)
           else None)"

definition KeyMayMatch :: "bool \<Rightarrow> bytes \<Rightarrow> bytes \<Rightarrow> bool option" where
  "KeyMayMatch le key bloom_filter =
     (let len = length bloom_filter in
      if len < 2 then Some False
      else
        let bits = (len - 1) * 8;
            k = unat (scast (bloom_filter ! (len - 1)) :: 64 word)
        in if k > 30 then Some True
           else do { h \<leftarrow> BloomHash le key; test_probes k bits (bloom_delta h) h bloom_filter })"

subsection \<open>The contract of a filter policy\<close>

text \<open>
  \<open>include/leveldb/filter_policy.h\<close>: a filter is appended to the destination, it matches every key it was built
  from (of which there are fewer than \<open>2\<^sup>3\<^sup>1\<close>, the count being an \<open>int\<close>), and a query of any filter, corrupted or
  not, answers.
\<close>

locale filter_policy =
  fixes accepts :: "bytes \<Rightarrow> bool"
    and create :: "bytes list \<Rightarrow> bytes \<Rightarrow> bytes option"
    and may_match :: "bytes \<Rightarrow> bytes \<Rightarrow> bool option"
  assumes create_matches: "\<forall>k \<in> set keys. accepts k \<Longrightarrow> length keys < 2 ^ 31 \<Longrightarrow>
      \<exists>f. create keys dst = Some (dst @ f) \<and> (\<forall>k \<in> set keys. may_match k f = Some True)"
    and may_match_total: "accepts k \<Longrightarrow> \<exists>b. may_match k f = Some b"

lemma those_user_keys: "\<forall>k \<in> set keys. key_valid k \<Longrightarrow> those (map ExtractUserKey keys) = Some (map key_user keys)"
  by (induction keys) (simp_all add: ExtractUserKey_valid)

text \<open>A policy whose filters have at most so many bytes for every key.\<close>

locale sized_filter_policy = filter_policy accepts create may_match for accepts create may_match +
  fixes per_key :: nat
  assumes create_length: "\<forall>k \<in> set keys. accepts k \<Longrightarrow> length keys < 2 ^ 31 \<Longrightarrow> keys \<noteq> [] \<Longrightarrow>
      create keys dst = Some r \<Longrightarrow> length r \<le> length dst + per_key * length keys"

locale user_filter_policy = sized_filter_policy accepts create may_match per_key for accepts create may_match per_key
begin

lemma internal_create:
  assumes "\<forall>k \<in> set keys. key_valid k \<and> accepts (key_user k)" "length keys < 2 ^ 31"
  shows "\<exists>f. internal_CreateFilter create keys dst = Some (dst @ f) \<and>
      (\<forall>k \<in> set keys. internal_KeyMayMatch may_match k f = Some True)"
proof -
  show ?thesis
    using assms create_matches [of "map key_user keys" dst] those_user_keys [of keys]
    by (auto simp: internal_CreateFilter_def internal_KeyMayMatch_def ExtractUserKey_valid)
qed

lemma internal_create_length:
  assumes "\<forall>k \<in> set keys. key_valid k \<and> accepts (key_user k)" "length keys < 2 ^ 31" "keys \<noteq> []"
    "internal_CreateFilter create keys dst = Some r"
  shows "length r \<le> length dst + per_key * length keys"
  using assms create_length [of "map key_user keys" dst r] those_user_keys [of keys]
  by (auto simp: internal_CreateFilter_def)

end

text \<open>A filter policy of user keys gives one of internal keys.\<close>

sublocale user_filter_policy \<subseteq> internal: sized_filter_policy "\<lambda>k. key_valid k \<and> accepts (key_user k)"
    "internal_CreateFilter create" "internal_KeyMayMatch may_match" per_key
  by unfold_locales
     (use internal_create internal_create_length may_match_total in \<open>auto simp: internal_KeyMayMatch_def ExtractUserKey_valid\<close>)

subsection \<open>The Bloom filter keeps it\<close>

lemma hash_loop_total: "\<exists>r. hash_loop le data h = Some r"
  by (induction le data h rule: hash_loop.induct) (auto simp: DecodeFixed32_le mem_read_def Let_def)

lemma BloomHash_total: "\<exists>h. BloomHash le key = Some h"
  using hash_loop_total [of le key "0xbc9f1d34 XOR (of_nat (length key) * hash_m)"] by (auto simp: BloomHash_def Hash_def)

text \<open>The bits a probe sequence visits.\<close>

definition probe_set :: "nat \<Rightarrow> nat \<Rightarrow> 32 word \<Rightarrow> 32 word \<Rightarrow> nat set" where
  "probe_set k bits delta h = (\<lambda>j. unat (h + of_nat j * delta) mod bits) ` {..<k}"

definition array_bit :: "bytes \<Rightarrow> nat \<Rightarrow> bool" where
  "array_bit array p \<longleftrightarrow> bit (array ! (p div 8)) (p mod 8)"

lemma probe_set_Suc: "probe_set (Suc k) bits delta h = insert (unat h mod bits) (probe_set k bits delta (h + delta))"
  unfolding probe_set_def lessThan_Suc_eq_insert_0 image_insert image_image by (simp add: algebra_simps)

lemma array_bit_set:
  assumes "p div 8 < length array" "q div 8 < length array"
  shows "array_bit (array[p div 8 := array ! (p div 8) OR push_bit (p mod 8) 1]) q \<longleftrightarrow> array_bit array q \<or> p = q"
proof -
  have "p = q \<longleftrightarrow> p div 8 = q div 8 \<and> p mod 8 = q mod 8" by (metis div_mult_mod_eq)
  with assms show ?thesis by (auto simp: array_bit_def nth_list_update bit_simps)
qed

lemma div_8_less: "p < bits \<Longrightarrow> bits \<le> 8 * n \<Longrightarrow> p div 8 < (n :: nat)"
  by (simp add: div_less_iff_less_mult)

lemma set_probes_correct:
  assumes "0 < bits" "bits \<le> 8 * length array"
  shows "\<exists>array'. set_probes k bits delta h array = Some array' \<and> length array' = length array \<and>
     (\<forall>i < length array. bits \<le> 8 * i \<longrightarrow> array' ! i = array ! i) \<and>
     (\<forall>p < bits. array_bit array' p \<longleftrightarrow> array_bit array p \<or> p \<in> probe_set k bits delta h)"
  using assms
proof (induction k arbitrary: h array)
  case 0
  then show ?case by (simp add: probe_set_def)
next
  case (Suc k)
  define p where "p = unat h mod bits"
  define a where "a = array[p div 8 := array ! (p div 8) OR push_bit (p mod 8) 1]"
  have p: "p < bits" using Suc.prems by (simp add: p_def)
  note p = this div_8_less [OF this Suc.prems(2)]
  have "array_bit a q \<longleftrightarrow> array_bit array q \<or> p = q" if "q < bits" for q
    unfolding a_def by (rule array_bit_set [OF p(2) div_8_less [OF that Suc.prems(2)]])
  moreover have "a ! i = array ! i" if "bits \<le> 8 * i" for i
    using p(1) that by (auto simp: a_def nth_list_update)
  moreover have "set_probes (Suc k) bits delta h array = set_probes k bits delta (h + delta) a" "length a = length array"
    using p Suc.prems by (simp_all add: a_def p_def Let_def)
  ultimately show ?case
    using Suc.IH [of a "h + delta"] Suc.prems unfolding probe_set_Suc by (auto simp flip: p_def)
qed

lemma test_probes_correct:
  assumes "0 < bits" "bits \<le> 8 * length array"
  shows "test_probes k bits delta h array = Some (\<forall>p \<in> probe_set k bits delta h. array_bit array p)"
  using assms
proof (induction k arbitrary: h)
  case 0
  then show ?case by (simp add: probe_set_def)
next
  case (Suc k)
  define p where "p = unat h mod bits"
  have "p div 8 < length array" using Suc.prems by (intro div_8_less [of _ bits]) (simp_all add: p_def)
  moreover have "array ! (p div 8) AND push_bit (p mod 8) 1 = 0 \<longleftrightarrow> \<not> array_bit array p"
    by (simp only: array_bit_def bit_iff_and_push_bit_not_eq_0 not_not)
  ultimately have "test_probes (Suc k) bits delta h array =
      (if array_bit array p then test_probes k bits delta (h + delta) array else Some False)"
    using Suc.prems(1) by (simp only: test_probes.simps Let_def flip: p_def) simp
  with Suc show ?case by (simp add: probe_set_Suc flip: p_def)
qed

lemma hash_loop_order: "hash_loop le data h = hash_loop le' data h"
  by (induction le data h rule: hash_loop.induct) (auto simp: DecodeFixed32_le mem_read_def Let_def)

lemma BloomHash_order: "BloomHash le key = BloomHash le' key"
  by (simp add: BloomHash_def Hash_def hash_loop_order [of le _ _ le'])

text \<open>The bits a key sets.\<close>

definition key_bits :: "nat \<Rightarrow> nat \<Rightarrow> bytes \<Rightarrow> nat set" where
  "key_bits k bits key = (let h = the (BloomHash True key) in probe_set k bits (bloom_delta h) h)"

lemma key_bits_hash: "BloomHash le key = Some h \<Longrightarrow> key_bits k bits key = probe_set k bits (bloom_delta h) h"
  by (simp add: key_bits_def BloomHash_order [of True _ le])

lemma key_bits_less: "0 < bits \<Longrightarrow> p \<in> key_bits k bits key \<Longrightarrow> p < bits"
  by (auto simp: key_bits_def probe_set_def Let_def)

lemma add_keys_correct:
  assumes "0 < bits" "bits \<le> 8 * length array"
  shows "\<exists>array'. add_keys le k bits keys array = Some array' \<and> length array' = length array \<and>
     (\<forall>i < length array. bits \<le> 8 * i \<longrightarrow> array' ! i = array ! i) \<and>
     (\<forall>p < bits. array_bit array' p \<longleftrightarrow> array_bit array p \<or> (\<exists>key \<in> set keys. p \<in> key_bits k bits key))"
  using assms
proof (induction keys arbitrary: array)
  case (Cons key keys)
  obtain h where h: "BloomHash le key = Some h" using BloomHash_total by blast
  obtain a where a: "set_probes k bits (bloom_delta h) h array = Some a" "length a = length array"
      "\<forall>i < length array. bits \<le> 8 * i \<longrightarrow> a ! i = array ! i"
      "\<forall>p < bits. array_bit a p \<longleftrightarrow> array_bit array p \<or> p \<in> key_bits k bits key"
    using set_probes_correct [OF Cons.prems, of k "bloom_delta h" h] by (auto simp: key_bits_hash [OF h])
  show ?case using Cons.IH [of a] Cons.prems a by (auto simp: h)
qed simp

definition policy_ok :: "BloomFilterPolicy \<Rightarrow> bool" where
  "policy_ok p \<longleftrightarrow> bf_k p \<le> 30 \<and> unat (bits_per_key p) < 2 ^ 31"

lemma new_policy_ok: "0 \<le> bits \<Longrightarrow> bits < 2 ^ 31 \<Longrightarrow> \<exists>p. new_BloomFilterPolicy bits = Some p \<and> policy_ok p \<and> bits_per_key p = of_int bits"
  by (simp add: new_BloomFilterPolicy_def policy_ok_def Let_def unsigned_of_int take_bit_int_eq_self nat_less_iff)

definition filter_bytes :: "nat \<Rightarrow> BloomFilterPolicy \<Rightarrow> nat" where
  "filter_bytes n p = (max 64 (n * unat (bits_per_key p)) + 7) div 8"

lemma CreateFilter_unfold:
  assumes "policy_ok p" "length keys < 2 ^ 31"
  shows "CreateFilter le p keys dst =
     map_option ((@) dst) (add_keys le (bf_k p) (8 * filter_bytes (length keys) p) keys
        (replicate (filter_bytes (length keys) p) 0 @ [of_nat (bf_k p)]))"
proof -
  define n where "n = length keys"
  define b where "b = unat (bits_per_key p)"
  define bits where "bits = (of_nat n * bits_per_key p :: 64 word)"
  have "n * b \<le> 2 ^ 31 * 2 ^ 31"
    using assms unfolding n_def b_def policy_ok_def by (intro mult_mono) auto
  moreover from this have "unat bits = n * b"
    by (simp add: bits_def unat_word_ariths b_def unsigned_of_nat take_bit_eq_mod mod_mult_left_eq)
  ultimately have "unat (if bits < 64 then 64 else bits) = max 64 (n * b)" "max 64 (n * b) \<le> 2 ^ 62"
    by (auto simp: word_less_nat_alt max_def)
  then have "unat (((if bits < 64 then 64 else bits) + 7) div 8) = filter_bytes n p"
      "unat (((if bits < 64 then 64 else bits) + 7) div 8 * 8) = 8 * filter_bytes n p"
    by (simp_all add: unat_word_ariths unat_div filter_bytes_def b_def div_le_mono) 
  then show ?thesis
    unfolding CreateFilter_def Let_def bits_def n_def by (simp add: map_option_bind option.map_comp comp_def map_conv_bind_option)
qed

lemma filter_bytes_ge: "8 \<le> filter_bytes n p"
  using div_le_mono [of "64 + 7" "max 64 (n * unat (bits_per_key p)) + 7" 8] by (simp add: filter_bytes_def)

lemma filter_bytes_le: "1 \<le> n \<Longrightarrow> filter_bytes n p + 1 \<le> (unat (bits_per_key p) + 16) * n"
proof -
  assume n: "1 \<le> n"
  have "(max 64 m + 7) div 8 < m + 16" for m :: nat by (intro less_mult_imp_div_less) simp
  from this [of "n * unat (bits_per_key p)"] n show ?thesis by (simp add: filter_bytes_def algebra_simps)
qed

lemma KeyMayMatch_unfold:
  assumes "2 \<le> length f" "f ! (length f - 1) = of_nat k" "k \<le> 30"
  shows "KeyMayMatch le key f = Some (\<forall>q \<in> key_bits k ((length f - 1) * 8) key. array_bit f q)"
proof -
  obtain h where h: "BloomHash le key = Some h" using BloomHash_total by blast
  have "\<forall>k \<in> set [0..<31]. unat (scast (of_nat k :: 8 word) :: 64 word) = k" by code_simp
  with assms(3) have "unat (scast (of_nat k :: 8 word) :: 64 word) = k" by (simp add: less_Suc_eq_le)
  with assms show ?thesis
    by (simp add: KeyMayMatch_def h test_probes_correct key_bits_hash [OF h])
qed

lemma KeyMayMatch_total: "\<exists>b. KeyMayMatch le key f = Some b"
proof -
  obtain h where "BloomHash le key = Some h" using BloomHash_total by blast
  then show ?thesis
    using test_probes_correct [of "(length f - 1) * 8" f] by (auto simp: KeyMayMatch_def Let_def)
qed

lemma CreateFilter_matches:
  assumes "policy_ok p" "length keys < 2 ^ 31"
  shows "\<exists>f. CreateFilter le p keys dst = Some (dst @ f) \<and> length f = filter_bytes (length keys) p + 1 \<and>
     (\<forall>le' key. KeyMayMatch le' key f =
        Some (key_bits (bf_k p) (8 * filter_bytes (length keys) p) key \<subseteq>
              (\<Union>key' \<in> set keys. key_bits (bf_k p) (8 * filter_bytes (length keys) p) key')))"
proof -
  define m where "m = filter_bytes (length keys) p"
  define z where "z = replicate m 0 @ [of_nat (bf_k p) :: byte]"
  have m: "8 \<le> m" unfolding m_def by (rule filter_bytes_ge)
  obtain f where f: "add_keys le (bf_k p) (8 * m) keys z = Some f" "length f = m + 1"
      "\<forall>i < m + 1. 8 * m \<le> 8 * i \<longrightarrow> f ! i = z ! i"
      "\<forall>q < 8 * m. array_bit f q \<longleftrightarrow> array_bit z q \<or> (\<exists>key \<in> set keys. q \<in> key_bits (bf_k p) (8 * m) key)"
    using add_keys_correct [of "8 * m" z le "bf_k p" keys] m by (auto simp: z_def)
  have "f ! m = of_nat (bf_k p)" using f(3) by (simp add: z_def nth_append)
  then have "KeyMayMatch le' key f = Some (\<forall>q \<in> key_bits (bf_k p) (8 * m) key. array_bit f q)" for le' key
    using KeyMayMatch_unfold [of f "bf_k p" le' key] f(2) m assms(1) by (simp add: policy_ok_def mult.commute)
  moreover have "array_bit f q \<longleftrightarrow> (\<exists>key \<in> set keys. q \<in> key_bits (bf_k p) (8 * m) key)" if "q < 8 * m" for q
    using f(4) that div_8_less [of q "8 * m" m] by (simp add: z_def array_bit_def nth_append)
  ultimately show ?thesis
    using f(1,2) m key_bits_less [of "8 * m"] unfolding CreateFilter_unfold [OF assms] z_def m_def [symmetric]
    by (auto simp: subset_iff)
qed

interpretation bloom: user_filter_policy "\<lambda>_. policy_ok p" "CreateFilter le p" "KeyMayMatch le" "unat (bits_per_key p) + 16" for p le
proof unfold_locales
  show "\<exists>f. CreateFilter le p keys dst = Some (dst @ f) \<and> (\<forall>k \<in> set keys. KeyMayMatch le k f = Some True)"
    if "\<forall>k \<in> set keys. policy_ok p" "length keys < 2 ^ 31" for keys dst
  proof (cases keys)
    case Nil
    then show ?thesis by (simp add: CreateFilter_def Let_def)
  next
    case Cons
    with that(1) have "policy_ok p" by auto
    from CreateFilter_matches [OF this that(2), of le dst] show ?thesis by (auto simp: UN_upper)
  qed
  show "length r \<le> length dst + (unat (bits_per_key p) + 16) * length keys"
    if "\<forall>k \<in> set keys. policy_ok p" "length keys < 2 ^ 31" "keys \<noteq> []" "CreateFilter le p keys dst = Some r" for keys dst r
  proof -
    have "policy_ok p" using that(1,3) by auto
    from CreateFilter_matches [OF this that(2), of le dst] that(4) have "length r = length dst + filter_bytes (length keys) p + 1" by auto
    moreover have "1 \<le> length keys" using that(3) by (simp add: Suc_le_eq)
    ultimately show ?thesis using filter_bytes_le [of "length keys" p] by simp
  qed
qed (rule KeyMayMatch_total)

text \<open>
  C11. A Bloom filter has no false negatives and is exact on its probes: for every number of bits per key a caller
  may configure and every list of keys, the filter is appended to the destination and has the documented size,
  and any later query (on a machine of any byte order) answers yes exactly when all the probed bits of the key
  are among the bits that the inserted keys set; in particular it answers yes for every inserted key.
\<close>

theorem bloom_filter_correct:
  assumes bits: "0 \<le> bits" "bits < 2 ^ 31" and n: "length keys < 2 ^ 31"
  shows "\<exists>p f. new_BloomFilterPolicy bits = Some p \<and> CreateFilter le p keys dst = Some (dst @ f) \<and>
     length f = (max 64 (length keys * nat bits) + 7) div 8 + 1 \<and>
     (\<forall>le' key. KeyMayMatch le' key f =
        Some (key_bits (bf_k p) (8 * (length f - 1)) key \<subseteq> (\<Union>key' \<in> set keys. key_bits (bf_k p) (8 * (length f - 1)) key'))) \<and>
     (\<forall>le'. \<forall>key \<in> set keys. KeyMayMatch le' key f = Some True)"
proof -
  obtain p where p: "new_BloomFilterPolicy bits = Some p" "policy_ok p" "bits_per_key p = of_int bits"
    using new_policy_ok [OF bits] by blast
  have b: "unat (bits_per_key p) = nat bits"
    using bits by (simp add: p(3) unsigned_of_int take_bit_int_eq_self)
  obtain f where f: "CreateFilter le p keys dst = Some (dst @ f)" "length f = filter_bytes (length keys) p + 1"
     "\<forall>le' key. KeyMayMatch le' key f =
        Some (key_bits (bf_k p) (8 * filter_bytes (length keys) p) key \<subseteq>
              (\<Union>key' \<in> set keys. key_bits (bf_k p) (8 * filter_bytes (length keys) p) key'))"
    using CreateFilter_matches [OF p(2) n] by blast
  show ?thesis
    using p(1) f by (intro exI [of _ p] exI [of _ f] conjI) (auto simp: filter_bytes_def b)
qed

theorem bloom_filter_correct_witness:
  "\<exists>p f. new_BloomFilterPolicy 10 = Some p \<and> CreateFilter True p [[97], [98]] [] = Some f \<and> length f = 9 \<and>
     KeyMayMatch False [97] f = Some True \<and> KeyMayMatch False [98] f = Some True"
  using bloom_filter_correct [of 10 "[[97], [98]]" True "[]"] by auto

end
