(* ===== verification/FilterBlock.thy ===== *)
theory FilterBlock
  imports Bloom
begin

section \<open>Filter blocks (leveldb \<open>table/filter_block.cc\<close>)\<close>

text \<open>
  The block of a table that holds a filter for every two kilobytes of data: the builder, the reader, and that a
  key that was added for a block is never filtered out when it is looked up in that block.  The policy is given
  by its two operations.
\<close>

definition kFilterBaseLg :: nat where
  "kFilterBaseLg = 11"

definition kFilterBase :: nat where
  "kFilterBase = 2 ^ kFilterBaseLg"

record FilterBlockBuilder =
  fb_keys :: bytes
  fb_start :: "nat list"
  fb_result :: bytes
  fb_filter_offsets :: "32 word list"

definition new_FilterBlockBuilder :: FilterBlockBuilder where
  "new_FilterBlockBuilder = \<lparr>fb_keys = [], fb_start = [], fb_result = [], fb_filter_offsets = []\<rparr>"

text \<open>The number of keys of a filter is converted to \<open>int\<close>.\<close>

definition GenerateFilter :: "(bytes list \<Rightarrow> bytes \<Rightarrow> bytes option) \<Rightarrow> FilterBlockBuilder \<Rightarrow> FilterBlockBuilder option" where
  "GenerateFilter create b =
     (let num_keys = length (fb_start b) in
      if num_keys = 0 then
        Some (b\<lparr>fb_filter_offsets := fb_filter_offsets b @ [of_nat (length (fb_result b))]\<rparr>)
      else if num_keys \<ge> 2 ^ 31 then None
      else
        let start = fb_start b @ [length (fb_keys b)];
            tmp_keys = map (\<lambda>i. take (start ! (i + 1) - start ! i) (drop (start ! i) (fb_keys b))) [0..<num_keys]
        in do {
          result \<leftarrow> create tmp_keys (fb_result b);
          Some \<lparr>fb_keys = [], fb_start = [], fb_result = result,
                fb_filter_offsets = fb_filter_offsets b @ [of_nat (length (fb_result b))]\<rparr> })"

lemma GenerateFilter_offsets:
  "GenerateFilter create b = Some b' \<Longrightarrow> length (fb_filter_offsets b') = Suc (length (fb_filter_offsets b))"
  by (auto simp: GenerateFilter_def Let_def split: if_splits Option.bind_splits)

function start_loop :: "(bytes list \<Rightarrow> bytes \<Rightarrow> bytes option) \<Rightarrow> nat \<Rightarrow> FilterBlockBuilder \<Rightarrow> FilterBlockBuilder option" where
  "start_loop create filter_index b =
     (if filter_index > length (fb_filter_offsets b)
      then do { b \<leftarrow> GenerateFilter create b; start_loop create filter_index b }
      else Some b)"
  by auto
termination
  by (relation "measure (\<lambda>(create, i, b). i - length (fb_filter_offsets b))") (auto dest: GenerateFilter_offsets)

declare start_loop.simps [simp del]

definition StartBlock ::
    "(bytes list \<Rightarrow> bytes \<Rightarrow> bytes option) \<Rightarrow> FilterBlockBuilder \<Rightarrow> 64 word \<Rightarrow> FilterBlockBuilder option" where
  "StartBlock create b block_offset =
     (let filter_index = unat block_offset div kFilterBase in
      if filter_index \<ge> length (fb_filter_offsets b) then start_loop create filter_index b else None)"

definition AddKey :: "FilterBlockBuilder \<Rightarrow> bytes \<Rightarrow> FilterBlockBuilder" where
  "AddKey b key = b\<lparr>fb_start := fb_start b @ [length (fb_keys b)], fb_keys := fb_keys b @ key\<rparr>"

definition FilterBlock_Finish :: "bool \<Rightarrow> (bytes list \<Rightarrow> bytes \<Rightarrow> bytes option) \<Rightarrow> FilterBlockBuilder \<Rightarrow> bytes option" where
  "FilterBlock_Finish le create b =
     do {
       b \<leftarrow> (if fb_start b \<noteq> [] then GenerateFilter create b else Some b);
       let array_offset = of_nat (length (fb_result b));
       let result = fold (\<lambda>off result. PutFixed32 le result off) (fb_filter_offsets b) (fb_result b);
       Some (PutFixed32 le result array_offset @ [of_nat kFilterBaseLg]) }"

record FilterBlockReader =
  fr_data :: bytes
  fr_offset :: nat
  fr_num :: nat
  fr_base_lg :: nat

definition new_FilterBlockReader :: "bool \<Rightarrow> bytes \<Rightarrow> FilterBlockReader option" where
  "new_FilterBlockReader le contents =
     (let r = \<lparr>fr_data = [], fr_offset = 0, fr_num = 0, fr_base_lg = 0\<rparr>; n = length contents in
      if n < 5 then Some r
      else
        let r = r\<lparr>fr_base_lg := unat (scast (contents ! (n - 1)) :: 64 word)\<rparr>
        in do {
          last_word \<leftarrow> DecodeFixed32 le (drop (n - 5) contents);
          (if unat last_word > n - 5 then Some r
           else Some (r\<lparr>fr_data := contents, fr_offset := unat last_word, fr_num := (n - 5 - unat last_word) div 4\<rparr>)) })"

text \<open>Shifting by the width of the shifted value or more is undefined.\<close>

definition FilterBlock_KeyMayMatch ::
    "bool \<Rightarrow> (bytes \<Rightarrow> bytes \<Rightarrow> bool option) \<Rightarrow> FilterBlockReader \<Rightarrow> 64 word \<Rightarrow> bytes \<Rightarrow> bool option" where
  "FilterBlock_KeyMayMatch le may_match r block_offset key =
     (if fr_base_lg r \<ge> 64 then None
      else
        let index = unat (drop_bit (fr_base_lg r) block_offset) in
        if index < fr_num r then do {
          start \<leftarrow> DecodeFixed32 le (drop (fr_offset r + index * 4) (fr_data r));
          limit \<leftarrow> DecodeFixed32 le (drop (fr_offset r + index * 4 + 4) (fr_data r));
          (if start \<le> limit \<and> unat limit \<le> fr_offset r then
             (if unat limit \<le> length (fr_data r) then
                may_match key (take (unat limit - unat start) (drop (unat start) (fr_data r)))
              else None)
           else if start = limit then Some False
           else Some True) }
        else Some True)"

text \<open>The calls of the builder: \<open>(StartBlock AddKey*)* Finish\<close>.\<close>

fun add_blocks :: "(bytes list \<Rightarrow> bytes \<Rightarrow> bytes option) \<Rightarrow> (64 word \<times> bytes list) list \<Rightarrow> FilterBlockBuilder \<Rightarrow> FilterBlockBuilder option" where
  "add_blocks create [] b = Some b"
| "add_blocks create ((off, ks) # blocks) b =
     do { b \<leftarrow> StartBlock create b off; add_blocks create blocks (fold (\<lambda>k b. AddKey b k) ks b) }"

definition build_filter_block :: "bool \<Rightarrow> (bytes list \<Rightarrow> bytes \<Rightarrow> bytes option) \<Rightarrow> (64 word \<times> bytes list) list \<Rightarrow> bytes option" where
  "build_filter_block le create blocks =
     do { b \<leftarrow> add_blocks create blocks new_FilterBlockBuilder; FilterBlock_Finish le create b }"

subsection \<open>The state of the builder\<close>

text \<open>
  \<open>F\<close> are the filters generated so far, \<open>P\<close> the keys waiting for the next one, \<open>A\<close> the keys added so far, each
  with the index of the filter it belongs to.
\<close>

definition fb_inv :: "(bytes \<Rightarrow> bytes \<Rightarrow> bool option) \<Rightarrow> FilterBlockBuilder \<Rightarrow> (nat \<times> bytes) set \<Rightarrow> bytes list \<Rightarrow> bytes list \<Rightarrow> bool" where
  "fb_inv may_match b A F P \<longleftrightarrow>
     b = \<lparr>fb_keys = concat P, fb_start = offsets P, fb_result = concat F, fb_filter_offsets = map of_nat (offsets F)\<rparr> \<and>
     (\<forall>(i, k) \<in> A. (i < length F \<and> may_match k (F ! i) = Some True) \<or> (i = length F \<and> k \<in> set P))"

definition filter_index :: "64 word \<Rightarrow> nat" where
  "filter_index off = unat off div kFilterBase"

definition added :: "(64 word \<times> bytes list) list \<Rightarrow> (nat \<times> bytes) set" where
  "added blocks = {(filter_index off, k) | off ks k. (off, ks) \<in> set blocks \<and> k \<in> set ks}"

lemma tmp_keys_eq:
  "map (\<lambda>i. take ((offsets P @ [length (concat P)]) ! (i + 1) - (offsets P @ [length (concat P)]) ! i)
        (drop ((offsets P @ [length (concat P)]) ! i) (concat P))) [0..<length P] = P"
  by (rule nth_equalityI) (simp_all add: offsets_nth piece)

lemma fb_inv_new: "fb_inv may_match new_FilterBlockBuilder {} [] []"
  by (simp add: fb_inv_def new_FilterBlockBuilder_def)

lemma fb_inv_AddKey:
  assumes "fb_inv may_match b A F P"
  shows "fb_inv may_match (AddKey b k) (insert (length F, k) A) F (P @ [k])"
  using assms by (auto simp: fb_inv_def AddKey_def)

lemma fb_inv_AddKeys:
  assumes "fb_inv may_match b A F P"
  shows "fb_inv may_match (fold (\<lambda>k b. AddKey b k) ks b) (A \<union> {length F} \<times> set ks) F (P @ ks)"
  using assms
proof (induction ks arbitrary: b A P)
  case (Cons k ks)
  from Cons.IH [OF fb_inv_AddKey [OF Cons.prems, of k]] show ?case by (simp add: insert_Times_insert)
qed simp

context sized_filter_policy
begin

lemma GenerateFilter_inv:
  assumes inv: "fb_inv may_match b A F P" and P: "\<forall>k \<in> set P. accepts k" "length P < 2 ^ 31"
  shows "\<exists>b' f. GenerateFilter create b = Some b' \<and> fb_inv may_match b' A (F @ [f]) [] \<and>
     length f \<le> per_key * length P"
proof (cases "P = []")
  case True
  with inv show ?thesis
    by (intro exI [of _ "b\<lparr>fb_filter_offsets := fb_filter_offsets b @ [of_nat (length (fb_result b))]\<rparr>"] exI [of _ "[]"])
       (fastforce simp: fb_inv_def GenerateFilter_def nth_append)
next
  case False
  from create_matches [OF P, of "concat F"] obtain f where f: "create P (concat F) = Some (concat F @ f)"
      "\<forall>k \<in> set P. may_match k f = Some True" by blast
  let ?b = "\<lparr>fb_keys = [], fb_start = [], fb_result = concat F @ f, fb_filter_offsets = fb_filter_offsets b @ [of_nat (length (concat F))]\<rparr>"
  have "GenerateFilter create b = Some ?b"
    using inv False P(2) f(1) by (simp add: fb_inv_def GenerateFilter_def Let_def tmp_keys_eq [simplified])
  moreover have "fb_inv may_match ?b A (F @ [f]) []"
    using inv f(2) by (fastforce simp: fb_inv_def nth_append)
  moreover have "length f \<le> per_key * length P" using create_length [OF P False f(1)] by simp
  ultimately show ?thesis by blast
qed

lemma start_loop_inv:
  assumes "fb_inv may_match b A F P" "\<forall>k \<in> set P. accepts k" "length P < 2 ^ 31" "length F \<le> idx"
  shows "\<exists>b' F' P'. start_loop create idx b = Some b' \<and> fb_inv may_match b' A F' P' \<and> length F' = idx \<and>
     set P' \<subseteq> set P \<and> length P' \<le> length P \<and>
     length (concat F') + per_key * length P' \<le> length (concat F) + per_key * length P"
  using assms
proof (induction "idx - length F" arbitrary: b F P)
  case 0
  then have "start_loop create idx b = Some b" by (subst start_loop.simps) (simp add: fb_inv_def)
  with 0 show ?case by auto
next
  case (Suc d)
  from GenerateFilter_inv [OF Suc.prems(1-3)] obtain b' f where
    b': "GenerateFilter create b = Some b'" "fb_inv may_match b' A (F @ [f]) []" "length f \<le> per_key * length P" by blast
  have "length F < idx" using Suc.hyps(2) by simp
  then have "start_loop create idx b = start_loop create idx b'"
    using Suc.prems(1) b'(1) by (subst start_loop.simps) (simp add: fb_inv_def)
  with Suc.hyps(1) [OF _ b'(2)] Suc.hyps(2) b'(3) show ?case by fastforce
qed

lemma StartBlock_inv:
  assumes "fb_inv may_match b A F P" "\<forall>k \<in> set P. accepts k" "length P < 2 ^ 31" "length F \<le> filter_index off"
  shows "\<exists>b' F' P'. StartBlock create b off = Some b' \<and> fb_inv may_match b' A F' P' \<and> length F' = filter_index off \<and>
     set P' \<subseteq> set P \<and> length P' \<le> length P \<and>
     length (concat F') + per_key * length P' \<le> length (concat F) + per_key * length P"
proof -
  have "StartBlock create b off = start_loop create (filter_index off) b"
    using assms(1,4) by (simp add: StartBlock_def fb_inv_def filter_index_def)
  with start_loop_inv [OF assms] show ?thesis by simp
qed

lemma add_blocks_inv:
  assumes "fb_inv may_match b A F P" "\<forall>k \<in> set P. accepts k" "\<forall>(off, ks) \<in> set blocks. \<forall>k \<in> set ks. accepts k"
    "length P + (\<Sum>(off, ks) \<leftarrow> blocks. length ks) < 2 ^ 31"
    "sorted (length F # map (filter_index \<circ> fst) blocks)"
  shows "\<exists>b' F' P'. add_blocks create blocks b = Some b' \<and> fb_inv may_match b' (A \<union> added blocks) F' P' \<and>
     (\<forall>k \<in> set P'. accepts k) \<and> length P' < 2 ^ 31"
  using assms
proof (induction blocks arbitrary: b A F P)
  case Nil
  then show ?case by (auto simp: added_def)
next
  case (Cons blk blocks)
  obtain off ks where blk: "blk = (off, ks)" by (cases blk)
  have "length P < 2 ^ 31" "length F \<le> filter_index off" using Cons.prems(4,5) by (simp_all add: blk)
  from StartBlock_inv [OF Cons.prems(1,2) this] obtain b1 F1 P1 where
    1: "StartBlock create b off = Some b1" "fb_inv may_match b1 A F1 P1" "length F1 = filter_index off"
       "set P1 \<subseteq> set P" "length P1 \<le> length P" by blast
  have "\<exists>b' F' P'. add_blocks create blocks (fold (\<lambda>k b. AddKey b k) ks b1) = Some b' \<and>
      fb_inv may_match b' ((A \<union> {length F1} \<times> set ks) \<union> added blocks) F' P' \<and> (\<forall>k \<in> set P'. accepts k) \<and> length P' < 2 ^ 31"
    using Cons.prems 1(3,4,5) by (intro Cons.IH [OF fb_inv_AddKeys [OF 1(2)]]) (auto simp: blk)
  moreover have "added (blk # blocks) = {length F1} \<times> set ks \<union> added blocks"
    using 1(3) by (auto simp: added_def blk)
  ultimately show ?case by (simp add: blk Un_assoc 1(1))
qed

lemma Finish_inv:
  assumes "fb_inv may_match b A F P" "\<forall>k \<in> set P. accepts k" "length P < 2 ^ 31"
  shows "\<exists>F'. FilterBlock_Finish le create b =
      Some (concat F' @ concat (map (\<lambda>off. EncodeFixed32 le (of_nat off)) (offsets F' @ [length (concat F')])) @ [11]) \<and>
    (\<forall>(i, k) \<in> A. i < length F' \<and> may_match k (F' ! i) = Some True) \<and>
    length (concat F') \<le> length (concat F) + per_key * length P \<and> length F' \<le> length F + 1"
proof -
  have fin: "FilterBlock_Finish le create b = FilterBlock_Finish le create b'" 
    if "GenerateFilter create b = Some b'" "P \<noteq> []" "fb_inv may_match b' A F' []" for b' F'
    using that assms(1) by (simp add: FilterBlock_Finish_def fb_inv_def)
  have put: "fold (\<lambda>off result. result @ EncodeFixed32 le off) offs r = r @ concat (map (EncodeFixed32 le) offs)" for offs r
    by (induction offs arbitrary: r) simp_all
  have "FilterBlock_Finish le create b'' =
      Some (concat F' @ concat (map (\<lambda>off. EncodeFixed32 le (of_nat off)) (offsets F' @ [length (concat F')])) @ [11])"
    if "fb_inv may_match b'' A F' []" for b'' F'
    using that by (simp add: FilterBlock_Finish_def fb_inv_def put PutFixed32_def kFilterBaseLg_def comp_def)
  moreover have "\<exists>b'' F'. FilterBlock_Finish le create b = FilterBlock_Finish le create b'' \<and> fb_inv may_match b'' A F' [] \<and>
      length (concat F') \<le> length (concat F) + per_key * length P \<and> length F' \<le> length F + 1"
  proof (cases "P = []")
    case False
    from GenerateFilter_inv [OF assms] obtain b' f where b': "GenerateFilter create b = Some b'" "fb_inv may_match b' A (F @ [f]) []"
      "length f \<le> per_key * length P" by blast
    with fin [OF b'(1) False b'(2)] show ?thesis by (intro exI [of _ b'] exI [of _ "F @ [f]"]) simp
  qed (use assms(1) in \<open>intro exI [of _ b] exI [of _ F], simp\<close>)
  ultimately show ?thesis by (fastforce simp: fb_inv_def)
qed

end

subsection \<open>The reader\<close>

text \<open>The layout of a finished block.\<close>

definition fb_layout :: "bool \<Rightarrow> bytes list \<Rightarrow> bytes" where
  "fb_layout le F = concat F @ concat (map (\<lambda>off. EncodeFixed32 le (of_nat off)) (offsets F @ [length (concat F)])) @ [11]"

lemma fb_layout_length: "length (fb_layout le F) = length (concat F) + 4 * length F + 5"
proof -
  from length_Encode_chunks [of le "map of_nat (offsets F @ [length (concat F)])"] show ?thesis
    by (simp add: fb_layout_def comp_def)
qed

lemma fb_layout_offset:
  assumes "i \<le> length F" 
  shows "DecodeFixed32 le' (drop (length (concat F) + 4 * i) (fb_layout le F)) = Some (of_nat (length (concat (take i F))))"
  using Decode_chunk [of i "map of_nat (offsets F @ [length (concat F)])" le' le "[11]"] assms offsets_nth [OF assms]
  by (simp add: fb_layout_def comp_def flip: map_append) 

lemma new_reader_layout:
  assumes "length (fb_layout le F) < 2 ^ 32"
  shows "new_FilterBlockReader le' (fb_layout le F) =
     Some \<lparr>fr_data = fb_layout le F, fr_offset = length (concat F), fr_num = length F, fr_base_lg = 11\<rparr>"
proof -
  have "fb_layout le F ! (length (fb_layout le F) - 1) = 11"
    by (simp add: fb_layout_def nth_append)
  moreover have "unat (scast (11 :: 8 word) :: 64 word) = 11" by code_simp
  moreover have "unat (of_nat (length (concat F)) :: 32 word) = length (concat F)"
    using assms by (simp add: fb_layout_length unsigned_of_nat take_bit_nat_eq_self)
  ultimately show ?thesis
    using fb_layout_offset [of "length F" F le' le]
    by (simp add: new_FilterBlockReader_def fb_layout_length Let_def add.commute)
qed

lemma reader_layout_match:
  assumes len: "length (fb_layout le F) < 2 ^ 32" and i: "unat off div kFilterBase = i" "i < length F"
  shows "FilterBlock_KeyMayMatch le' may_match
     \<lparr>fr_data = fb_layout le F, fr_offset = length (concat F), fr_num = length F, fr_base_lg = 11\<rparr> off key = may_match key (F ! i)"
proof -
  have idx: "unat (drop_bit 11 off) = i"
    using i(1) by (simp add: unsigned_drop_bit_eq drop_bit_eq_div kFilterBase_def kFilterBaseLg_def unat_div)
  have small: "unat (of_nat (length (concat (take j F))) :: 32 word) = length (concat (take j F))" if "j \<le> length F" for j
    using len piece_le [OF that] by (simp add: fb_layout_length unsigned_of_nat take_bit_nat_eq_self)
  have "take (length (concat (take (Suc i) F)) - length (concat (take i F))) (drop (length (concat (take i F))) (fb_layout le F)) = F ! i"
    using piece [OF i(2)] piece_le [of "Suc i" F] i(2) piece_mono [of i F] by (simp add: fb_layout_def)
  then show ?thesis
    using fb_layout_offset [of i F le' le] fb_layout_offset [of "Suc i" F le' le] i(2) small [of i] small [of "Suc i"]
      piece_mono [of i F] piece_le [of "Suc i" F]
    by (simp add: FilterBlock_KeyMayMatch_def idx word_le_nat_alt fb_layout_length mult.commute add.commute add.left_commute)
qed

context sized_filter_policy
begin

lemma filter_block_correct:
  assumes "\<forall>(off, ks) \<in> set blocks. \<forall>k \<in> set ks. accepts k" "(\<Sum>(off, ks) \<leftarrow> blocks. length ks) < 2 ^ 31"
    "sorted (map fst blocks)"
  shows "\<exists>c. build_filter_block le create blocks = Some c \<and>
     (length c < 2 ^ 32 \<longrightarrow>
       (\<exists>r. new_FilterBlockReader le' c = Some r \<and>
         (\<forall>(off, ks) \<in> set blocks. \<forall>k \<in> set ks. FilterBlock_KeyMayMatch le' may_match r off k = Some True)))"
proof -
  have "sorted (map (filter_index \<circ> fst) blocks)"
    using assms(3) unfolding map_map [symmetric] 
    by (intro sorted_map_mono) (auto simp: filter_index_def mono_on_def word_le_nat_alt div_le_mono)
  then obtain b F P where b: "add_blocks create blocks new_FilterBlockBuilder = Some b"
      "fb_inv may_match b (added blocks) F P" "\<forall>k \<in> set P. accepts k" "length P < 2 ^ 31"
    using add_blocks_inv [OF fb_inv_new, of blocks] assms(1,2) by auto
  from Finish_inv [OF b(2-4), of le] obtain F' where F': "FilterBlock_Finish le create b = Some (fb_layout le F')"
      "\<forall>(i, k) \<in> added blocks. i < length F' \<and> may_match k (F' ! i) = Some True"
    by (auto simp: fb_layout_def)
  have "FilterBlock_KeyMayMatch le' may_match r off k = Some True"
    if "length (fb_layout le F') < 2 ^ 32" "new_FilterBlockReader le' (fb_layout le F') = Some r" "(off, ks) \<in> set blocks" "k \<in> set ks"
    for r off ks k
  proof -
    have "(filter_index off, k) \<in> added blocks" using that(3,4) by (auto simp: added_def)
    with F'(2) have "filter_index off < length F'" "may_match k (F' ! filter_index off) = Some True" by auto
    then show ?thesis
      using that(2) reader_layout_match [OF that(1) refl, of off le' may_match k]
      by (simp add: new_reader_layout [OF that(1)] filter_index_def)
  qed
  then show ?thesis
    using b(1) F'(1) new_reader_layout [of le F' le'] by (intro exI [of _ "fb_layout le F'"]) (auto simp: build_filter_block_def)
qed

end

lemma KeyMayMatch_order: "KeyMayMatch le = KeyMayMatch le'"
proof (intro ext)
  show "KeyMayMatch le key f = KeyMayMatch le' key f" for key f
    unfolding KeyMayMatch_def BloomHash_order [of le key le'] ..
qed

text \<open>
  C9. A table lookup never misses a key because of the filter block: whatever blocks were written, in order of
  their offsets, and whatever internal keys were added for them, the block that the builder finishes, read back
  by a machine of any byte order, may match each key at the offset of its block.  The builder's assertion holds.
  The offsets in the block are 32 bits wide, so the block has to be smaller than four gigabytes.
\<close>

theorem filter_block_no_false_negatives:
  assumes bits: "0 \<le> bits" "bits < 2 ^ 31" and p: "new_BloomFilterPolicy bits = Some p"
    and keys: "\<forall>(off, ks) \<in> set blocks. \<forall>k \<in> set ks. key_valid k" "(\<Sum>(off, ks) \<leftarrow> blocks. length ks) < 2 ^ 31"
    and offs: "sorted (map fst blocks)"
  shows "\<exists>c. build_filter_block le (internal_CreateFilter (CreateFilter le p)) blocks = Some c \<and>
     (length c < 2 ^ 32 \<longrightarrow>
       (\<exists>r. new_FilterBlockReader le' c = Some r \<and>
         (\<forall>(off, ks) \<in> set blocks. \<forall>k \<in> set ks.
            FilterBlock_KeyMayMatch le' (internal_KeyMayMatch (KeyMayMatch le')) r off k = Some True)))"
proof -
  have "policy_ok p" using new_policy_ok [OF bits] p by auto
  with bloom.internal.filter_block_correct [where p = p and blocks = blocks] keys offs show ?thesis
    unfolding KeyMayMatch_order [of le' le] by blast
qed

theorem filter_block_no_false_negatives_witness:
  "\<exists>p c r. new_BloomFilterPolicy 10 = Some p \<and>
     build_filter_block True (internal_CreateFilter (CreateFilter True p)) [(0, [[97, 0, 0, 0, 0, 0, 0, 0, 0]]), (5000, [])] = Some c \<and>
     length c = 22 \<and> new_FilterBlockReader False c = Some r \<and>
     FilterBlock_KeyMayMatch False (internal_KeyMayMatch (KeyMayMatch False)) r 0 [97, 0, 0, 0, 0, 0, 0, 0, 0] = Some True"
proof -
  let ?k = "[97, 0, 0, 0, 0, 0, 0, 0, 0] :: bytes"
  let ?b = "[(0, [?k]), (5000, [])] :: (64 word \<times> bytes list) list"
  let ?p = "\<lparr>bits_per_key = 10, bf_k = 6\<rparr>"
  have p: "new_BloomFilterPolicy 10 = Some ?p" by code_simp
  obtain f where f: "CreateFilter True ?p [[97]] [] = Some f" "length f = 9"
    using CreateFilter_matches [of ?p "[[97]]" True "[]"] by (auto simp: policy_ok_def filter_bytes_def)
  have k: "ExtractUserKey ?k = Some [97]" by code_simp
  have "map_option length (build_filter_block True (internal_CreateFilter (CreateFilter True ?p)) ?b) = Some 22"
    using f by (simp add: build_filter_block_def StartBlock_def kFilterBase_def kFilterBaseLg_def start_loop.simps Let_def GenerateFilter_def new_FilterBlockBuilder_def
        AddKey_def internal_CreateFilter_def k FilterBlock_Finish_def PutFixed32_def EncodeFixed32_le)
  with filter_block_no_false_negatives [OF _ _ p, of ?b True False] p show ?thesis by (auto simp: key_valid_def)
qed

end
