(* ===== verification/Block.thy ===== *)
theory Block
  imports Comparator
begin

section \<open>Blocks of sorted entries (leveldb \<open>table/block_builder.cc\<close>, \<open>table/block.cc\<close>)\<close>

text \<open>
  The builder of a block, which stores each key as the part it does not share with the previous one and a full
  key at every restart point, and the iterator, with its binary search over the restart points.  \<open>None\<close> is a
  failing assertion or a read outside the block.  The comparator is given by its \<open>Compare\<close>.
\<close>

subsection \<open>The builder\<close>

record BlockBuilder =
  bb_buffer :: bytes
  bb_restarts :: "32 word list"
  bb_counter :: nat
  bb_finished :: bool
  bb_last_key :: bytes

definition new_BlockBuilder :: "nat \<Rightarrow> BlockBuilder option" where
  "new_BlockBuilder block_restart_interval =
     (if block_restart_interval \<ge> 1
      then Some \<lparr>bb_buffer = [], bb_restarts = [0], bb_counter = 0, bb_finished = False, bb_last_key = []\<rparr>
      else None)"

definition BlockBuilder_Reset :: "BlockBuilder \<Rightarrow> BlockBuilder" where
  "BlockBuilder_Reset b =
     b\<lparr>bb_buffer := [], bb_restarts := [0], bb_counter := 0, bb_finished := False, bb_last_key := []\<rparr>"

definition CurrentSizeEstimate :: "BlockBuilder \<Rightarrow> nat" where
  "CurrentSizeEstimate b = length (bb_buffer b) + length (bb_restarts b) * 4 + 4"

definition BlockBuilder_Finish :: "bool \<Rightarrow> BlockBuilder \<Rightarrow> BlockBuilder \<times> bytes" where
  "BlockBuilder_Finish le b =
     (let buffer = fold (\<lambda>r buffer. PutFixed32 le buffer r) (bb_restarts b) (bb_buffer b);
          buffer = PutFixed32 le buffer (of_nat (length (bb_restarts b)))
      in (b\<lparr>bb_buffer := buffer, bb_finished := True\<rparr>, buffer))"

definition BlockBuilder_Add ::
    "(bytes \<Rightarrow> bytes \<Rightarrow> int option) \<Rightarrow> nat \<Rightarrow> BlockBuilder \<Rightarrow> bytes \<Rightarrow> bytes \<Rightarrow> BlockBuilder option" where
  "BlockBuilder_Add compare block_restart_interval b key value =
     do {
       r \<leftarrow> (if bb_buffer b = [] then Some 1 else compare key (bb_last_key b));
       (if \<not> bb_finished b \<and> bb_counter b \<le> block_restart_interval \<and> r > 0 then
          let last_key = bb_last_key b;
              (shared, restarts, counter) =
                (if bb_counter b < block_restart_interval then (diff_loop last_key key, bb_restarts b, bb_counter b)
                 else (0, bb_restarts b @ [of_nat (length (bb_buffer b))], 0));
              non_shared = length key - shared;
              buffer = PutVarint32 (bb_buffer b) (of_nat shared);
              buffer = PutVarint32 buffer (of_nat non_shared);
              buffer = PutVarint32 buffer (of_nat (length value));
              buffer = buffer @ take non_shared (drop shared key);
              buffer = buffer @ value;
              last_key = take shared last_key @ take non_shared (drop shared key)
          in if last_key = key
             then Some \<lparr>bb_buffer = buffer, bb_restarts = restarts, bb_counter = counter + 1,
                        bb_finished = False, bb_last_key = last_key\<rparr>
             else None
        else None) }"

subsection \<open>A block and its entries\<close>

record Block =
  block_data :: bytes
  block_size :: nat
  block_restart_offset :: "32 word"

definition NumRestarts :: "bool \<Rightarrow> bytes \<Rightarrow> nat \<Rightarrow> 32 word option" where
  "NumRestarts le data n = (if n \<ge> 4 then DecodeFixed32 le (drop (n - 4) data) else None)"

definition new_Block :: "bool \<Rightarrow> bytes \<Rightarrow> Block option" where
  "new_Block le contents =
     (let size = length contents in
      if size < 4 then Some \<lparr>block_data = contents, block_size = 0, block_restart_offset = 0\<rparr>
      else
        let max_restarts_allowed = (size - 4) div 4
        in do {
          n \<leftarrow> NumRestarts le contents size;
          (if unat n > max_restarts_allowed
           then Some \<lparr>block_data = contents, block_size = 0, block_restart_offset = 0\<rparr>
           else Some \<lparr>block_data = contents, block_size = size,
                      block_restart_offset = of_nat (size - unat (1 + n) * 4)\<rparr>) })"

text \<open>\<open>DecodeEntry\<close> between the offsets \<open>p\<close> and \<open>limit\<close>; the null pointer is \<open>None\<close>.\<close>

definition DecodeEntry :: "bytes \<Rightarrow> nat \<Rightarrow> nat \<Rightarrow> (nat \<times> 32 word \<times> 32 word \<times> 32 word) option" where
  "DecodeEntry data p limit =
     (if limit < p + 3 then None
      else
        let s = take (limit - p) (drop p data);
            shared = ucast (s ! 0); non_shared = ucast (s ! 1); value_length = ucast (s ! 2)
        in do {
          (s, shared, non_shared, value_length) \<leftarrow>
            (if (shared OR non_shared OR value_length) < (128 :: 32 word)
             then Some (drop 3 s, shared, non_shared, value_length)
             else do {
               (shared, s) \<leftarrow> GetVarint32Ptr s;
               (non_shared, s) \<leftarrow> GetVarint32Ptr s;
               (value_length, s) \<leftarrow> GetVarint32Ptr s;
               Some (s, shared, non_shared, value_length) });
          (if of_nat (length s) < non_shared + value_length then None
           else Some (limit - length s, shared, non_shared, value_length)) })"

subsection \<open>The iterator\<close>

text \<open>\<open>value_\<close> is a slice of the block, given by its offset and length; \<open>None\<close> is the slice that points to nothing.\<close>

record BlockIter =
  it_data :: bytes
  it_restarts :: "32 word"
  it_num_restarts :: nat
  it_current :: nat
  it_restart_index :: nat
  it_key :: bytes
  it_value :: "(nat \<times> nat) option"
  it_status :: status

definition new_BlockIter :: "bytes \<Rightarrow> 32 word \<Rightarrow> nat \<Rightarrow> BlockIter option" where
  "new_BlockIter data restarts num_restarts =
     (if num_restarts > 0
      then Some \<lparr>it_data = data, it_restarts = restarts, it_num_restarts = num_restarts, it_current = unat restarts,
                 it_restart_index = num_restarts, it_key = [], it_value = None, it_status = StatusOK\<rparr>
      else None)"

definition Iter_Valid :: "BlockIter \<Rightarrow> bool" where
  "Iter_Valid it \<longleftrightarrow> it_current it < unat (it_restarts it)"

definition Iter_key :: "BlockIter \<Rightarrow> bytes option" where
  "Iter_key it = (if Iter_Valid it then Some (it_key it) else None)"

definition Iter_value :: "BlockIter \<Rightarrow> bytes option" where
  "Iter_value it =
     (if Iter_Valid it then do { (off, len) \<leftarrow> it_value it; mem_read off len (it_data it) } else None)"

definition NextEntryOffset :: "BlockIter \<Rightarrow> nat option" where
  "NextEntryOffset it = do { (off, len) \<leftarrow> it_value it; Some ((off + len) mod 2 ^ 32) }"

definition GetRestartPoint :: "bool \<Rightarrow> BlockIter \<Rightarrow> nat \<Rightarrow> nat option" where
  "GetRestartPoint le it index =
     (if index < it_num_restarts it
      then map_option unat (DecodeFixed32 le (drop (unat (it_restarts it) + index * 4) (it_data it)))
      else None)"

definition SeekToRestartPoint :: "bool \<Rightarrow> BlockIter \<Rightarrow> nat \<Rightarrow> BlockIter option" where
  "SeekToRestartPoint le it index =
     do {
       let it = it\<lparr>it_key := [], it_restart_index := index\<rparr>;
       offset \<leftarrow> GetRestartPoint le it index;
       Some (it\<lparr>it_value := Some (offset, 0)\<rparr>) }"

definition CorruptionError :: "BlockIter \<Rightarrow> BlockIter" where
  "CorruptionError it =
     it\<lparr>it_current := unat (it_restarts it), it_restart_index := it_num_restarts it,
        it_status := Corruption ''bad entry in block'', it_key := [], it_value := None\<rparr>"

function restart_loop :: "bool \<Rightarrow> BlockIter \<Rightarrow> BlockIter option" where
  "restart_loop le it =
     (if it_restart_index it + 1 < it_num_restarts it then
        do {
          r \<leftarrow> GetRestartPoint le it (it_restart_index it + 1);
          (if r < it_current it then restart_loop le (it\<lparr>it_restart_index := it_restart_index it + 1\<rparr>) else Some it) }
      else Some it)"
  by auto
termination
  by (relation "measure (\<lambda>(le, it). it_num_restarts it - it_restart_index it)") auto

declare restart_loop.simps [simp del]

definition ParseNextKey :: "bool \<Rightarrow> BlockIter \<Rightarrow> (BlockIter \<times> bool) option" where
  "ParseNextKey le it =
     do {
       current \<leftarrow> NextEntryOffset it;
       let it = it\<lparr>it_current := current\<rparr>;
       let limit = unat (it_restarts it);
       (if current \<ge> limit then
          Some (it\<lparr>it_current := unat (it_restarts it), it_restart_index := it_num_restarts it\<rparr>, False)
        else
          case DecodeEntry (it_data it) current limit of
            None \<Rightarrow> Some (CorruptionError it, False)
          | Some (p, shared, non_shared, value_length) \<Rightarrow>
              if length (it_key it) < unat shared then Some (CorruptionError it, False)
              else do {
                delta \<leftarrow> mem_read p (unat non_shared) (it_data it);
                let it = it\<lparr>it_key := take (unat shared) (it_key it) @ delta,
                            it_value := Some (p + unat non_shared, unat value_length)\<rparr>;
                it \<leftarrow> restart_loop le it;
                Some (it, True) }) }"

text \<open>Every step moves forward, also in a corrupted block, so the loops below end.\<close>

lemma varint_loop_shorter: "varint_loop lim shift r p = Some (v, q) \<Longrightarrow> length q < length p"
  by (induction lim shift r p rule: varint_loop.induct) (auto simp: Let_def split: if_splits)

lemma GetVarint32Ptr_shorter: "GetVarint32Ptr p = Some (v, q) \<Longrightarrow> length q < length p"
  by (auto simp: GetVarint32Ptr_def GetVarint32PtrFallback_def dest: varint_loop_shorter split: list.splits if_splits)

lemma less_128: "(x :: 32 word) < 128 \<longleftrightarrow> drop_bit 7 x = 0"
  by (simp add: drop_bit_eq_div word_less_nat_alt word_unat_eq_iff unat_div div_eq_0_iff)

lemma GetVarint32Ptr_byte: "(ucast b :: 32 word) < 128 \<Longrightarrow> GetVarint32Ptr (b # p) = Some (ucast b, p)"
  using and_128_last [of "unat b"] unat_less [of b]
  by (simp add: GetVarint32Ptr_def word_less_nat_alt unsigned_ucast_eq take_bit_nat_eq_self)

text \<open>The fast path of the decoder is only a fast path.\<close>

lemma DecodeEntry_slow:
  assumes "p + 3 \<le> limit" "limit \<le> length data"
  shows "DecodeEntry data p limit =
    do {
      (shared, s) \<leftarrow> GetVarint32Ptr (take (limit - p) (drop p data));
      (non_shared, s) \<leftarrow> GetVarint32Ptr s;
      (value_length, s) \<leftarrow> GetVarint32Ptr s;
      (if of_nat (length s) < non_shared + value_length then None
       else Some (limit - length s, shared, non_shared, value_length)) }"
proof -
  define s where "s = take (limit - p) (drop p data)"
  have "3 \<le> length s" using assms by (simp add: s_def)
  then obtain a b c t where s: "s = a # b # c # t"
    by (auto simp: Suc_le_length_iff numeral_3_eq_3)
  show ?thesis
    using assms unfolding DecodeEntry_def s_def [symmetric] s
    by (auto simp: Let_def less_128 GetVarint32Ptr_byte or_eq_0_iff split: Option.bind_splits)
qed

lemma DecodeEntry_bounds:
  assumes "DecodeEntry data p limit = Some (q, shared, non_shared, value_length)" "limit < 2 ^ 32"
  shows "p < q" "q + (unat non_shared + unat value_length) mod 2 ^ 32 \<le> limit"
proof -
  define t where "t = take (limit - p) (drop p data)"
  have p: "p + 3 \<le> limit" using assms(1) by (auto simp: DecodeEntry_def split: if_splits)
  obtain l where l: "q = limit - l" "\<not> of_nat l < non_shared + value_length"
      "l = length t - 3 \<or> (\<exists>a b c s1 s2 s. GetVarint32Ptr t = Some (a, s1) \<and> GetVarint32Ptr s1 = Some (b, s2) \<and>
         GetVarint32Ptr s2 = Some (c, s) \<and> l = length s)"
    using assms(1) unfolding DecodeEntry_def t_def [symmetric] Let_def
    by (auto split: if_splits Option.bind_splits)
  from l(3) p have len: "l < limit - p"
    by (auto simp: t_def dest!: GetVarint32Ptr_shorter)
  with l(1) show "p < q" by simp
  have "unat (of_nat l :: 32 word) = l"
    using len assms(2) by (intro unat_word_of_nat) simp
  then show "q + (unat non_shared + unat value_length) mod 2 ^ 32 \<le> limit"
    using l(1,2) len by (simp add: word_less_nat_alt unat_word_ariths)
qed

lemma restart_loop_Some: "restart_loop le it = Some it' \<Longrightarrow> \<exists>r. it' = it\<lparr>it_restart_index := r\<rparr>"
proof (induction le it arbitrary: it' rule: restart_loop.induct)
  case (1 le it)
  from 1(2) consider "it' = it"
    | r where "it_restart_index it + 1 < it_num_restarts it" "GetRestartPoint le it (it_restart_index it + 1) = Some r" "r < it_current it"
        "restart_loop le (it\<lparr>it_restart_index := it_restart_index it + 1\<rparr>) = Some it'"
    by (subst (asm) restart_loop.simps) (auto split: if_splits Option.bind_splits)
  then show ?case
  proof cases
    case 1
    then show ?thesis by (intro exI [of _ "it_restart_index it"]) simp
  next
    case (2 r)
    from "1.IH" [OF this] show ?thesis by auto
  qed
qed

definition remaining :: "BlockIter \<Rightarrow> nat" where
  "remaining it = (case NextEntryOffset it of None \<Rightarrow> 0 | Some n \<Rightarrow> unat (it_restarts it) - n)"

lemma ParseNextKey_progress:
  assumes "ParseNextKey le it = Some (it', True)"
  shows "remaining it' < remaining it"
proof -
  obtain n where n: "NextEntryOffset it = Some n" using assms by (auto simp: ParseNextKey_def split: Option.bind_splits)
  obtain q sh ns vl delta r where d: "n < unat (it_restarts it)" "DecodeEntry (it_data it) n (unat (it_restarts it)) = Some (q, sh, ns, vl)"
      "it_restarts it' = it_restarts it" "it_value it' = Some (q + unat ns, unat vl)"
    using assms n by (auto simp: ParseNextKey_def Let_def split: if_splits Option.bind_splits option.splits dest!: restart_loop_Some)
  have lim: "unat (it_restarts it) < 2 ^ 32" using unat_less [of "it_restarts it"] by simp
  note b = DecodeEntry_bounds [OF d(2) lim]
  have "(q + unat ns + unat vl) mod 2 ^ 32 = (q + (unat ns + unat vl) mod 2 ^ 32) mod 2 ^ 32"
    by (simp add: mod_simps add.assoc)
  also have "\<dots> = q + (unat ns + unat vl) mod 2 ^ 32" using b(2) lim by (intro mod_less) linarith
  finally have "NextEntryOffset it' = Some (q + (unat ns + unat vl) mod 2 ^ 32)"
    using d(4) by (simp add: NextEntryOffset_def)
  then show ?thesis using n d b by (simp add: remaining_def)
qed

text \<open>\<open>while (ParseNextKey() && NextEntryOffset() < bound);\<close>\<close>

function parse_until :: "bool \<Rightarrow> nat \<Rightarrow> BlockIter \<Rightarrow> BlockIter option" where
  "parse_until le bound it =
     do {
       (it, ok) \<leftarrow> ParseNextKey le it;
       (if ok then do {
          n \<leftarrow> NextEntryOffset it;
          (if n < bound then parse_until le bound it else Some it) }
        else Some it) }"
  by auto
termination
  by (relation "measure (\<lambda>(le, bound, it). remaining it)") (auto dest: ParseNextKey_progress)

declare parse_until.simps [simp del]

function linear_loop :: "bool \<Rightarrow> (bytes \<Rightarrow> bytes \<Rightarrow> int option) \<Rightarrow> bytes \<Rightarrow> BlockIter \<Rightarrow> BlockIter option" where
  "linear_loop le compare target it =
     do {
       (it, ok) \<leftarrow> ParseNextKey le it;
       (if ok then do {
          r \<leftarrow> compare (it_key it) target;
          (if r \<ge> 0 then Some it else linear_loop le compare target it) }
        else Some it) }"
  by auto
termination
  by (relation "measure (\<lambda>(le, compare, target, it). remaining it)") (auto dest: ParseNextKey_progress)

declare linear_loop.simps [simp del]

definition Iter_Next :: "bool \<Rightarrow> BlockIter \<Rightarrow> BlockIter option" where
  "Iter_Next le it = (if Iter_Valid it then map_option fst (ParseNextKey le it) else None)"

text \<open>The loop of \<open>Prev\<close> over the restart points; \<open>None\<close> inside is that there are no more entries.\<close>

fun back_loop :: "bool \<Rightarrow> BlockIter \<Rightarrow> nat \<Rightarrow> nat \<Rightarrow> nat option option" where
  "back_loop le it original 0 =
     do { r \<leftarrow> GetRestartPoint le it 0; Some (if r \<ge> original then None else Some 0) }"
| "back_loop le it original (Suc i) =
     do { r \<leftarrow> GetRestartPoint le it (Suc i); (if r \<ge> original then back_loop le it original i else Some (Some (Suc i))) }"

definition Iter_Prev :: "bool \<Rightarrow> BlockIter \<Rightarrow> BlockIter option" where
  "Iter_Prev le it =
     (if Iter_Valid it then
        let original = it_current it
        in do {
          found \<leftarrow> back_loop le it original (it_restart_index it);
          (case found of
             None \<Rightarrow> Some (it\<lparr>it_current := unat (it_restarts it), it_restart_index := it_num_restarts it\<rparr>)
           | Some i \<Rightarrow> do { it \<leftarrow> SeekToRestartPoint le it i; parse_until le original it }) }
      else None)"

text \<open>The binary search of \<open>Seek\<close>; \<open>None\<close> inside is a corrupted entry.\<close>

partial_function (option) search_loop ::
    "bool \<Rightarrow> (bytes \<Rightarrow> bytes \<Rightarrow> int option) \<Rightarrow> bytes \<Rightarrow> BlockIter \<Rightarrow> 32 word \<Rightarrow> 32 word \<Rightarrow> 32 word option option" where
  "search_loop le compare target it left right =
     (if left < right then
        let mid = (left + right + 1) div 2
        in do {
          region_offset \<leftarrow> GetRestartPoint le it (unat mid);
          (case DecodeEntry (it_data it) region_offset (unat (it_restarts it)) of
             None \<Rightarrow> Some None
           | Some (key_ptr, shared, non_shared, value_length) \<Rightarrow>
               if shared \<noteq> 0 then Some None
               else do {
                 mid_key \<leftarrow> mem_read key_ptr (unat non_shared) (it_data it);
                 r \<leftarrow> compare mid_key target;
                 (if r < 0 then search_loop le compare target it mid right
                  else search_loop le compare target it left (mid - 1)) }) }
      else Some (Some left))"

definition Iter_Seek :: "bool \<Rightarrow> (bytes \<Rightarrow> bytes \<Rightarrow> int option) \<Rightarrow> BlockIter \<Rightarrow> bytes \<Rightarrow> BlockIter option" where
  "Iter_Seek le compare it target =
     do {
       found \<leftarrow> search_loop le compare target it 0 (of_nat (it_num_restarts it) - 1);
       (case found of
          None \<Rightarrow> Some (CorruptionError it)
        | Some left \<Rightarrow> do { it \<leftarrow> SeekToRestartPoint le it (unat left); linear_loop le compare target it }) }"

definition Iter_SeekToFirst :: "bool \<Rightarrow> BlockIter \<Rightarrow> BlockIter option" where
  "Iter_SeekToFirst le it = do { it \<leftarrow> SeekToRestartPoint le it 0; map_option fst (ParseNextKey le it) }"

definition Iter_SeekToLast :: "bool \<Rightarrow> BlockIter \<Rightarrow> BlockIter option" where
  "Iter_SeekToLast le it =
     do { it \<leftarrow> SeekToRestartPoint le it (it_num_restarts it - 1); parse_until le (unat (it_restarts it)) it }"

text \<open>\<open>Block::NewIterator\<close>: an error, an empty iterator or an iterator of the block.\<close>

datatype block_iterator = ErrorIterator status | EmptyIterator | Iter BlockIter

definition NewIterator :: "bool \<Rightarrow> Block \<Rightarrow> block_iterator option" where
  "NewIterator le b =
     (if block_size b < 4 then Some (ErrorIterator (Corruption ''bad block contents''))
      else do {
        num_restarts \<leftarrow> NumRestarts le (block_data b) (block_size b);
        (if num_restarts = 0 then Some EmptyIterator
         else map_option Iter (new_BlockIter (block_data b) (block_restart_offset b) (unat num_restarts))) })"

subsection \<open>The layout of a block\<close>

text \<open>A block with the entries \<open>es\<close> and a restart point every \<open>I\<close> entries.\<close>

definition entry_shared :: "nat \<Rightarrow> (bytes \<times> bytes) list \<Rightarrow> nat \<Rightarrow> nat" where
  "entry_shared I es i = (if i mod I = 0 then 0 else diff_loop (fst (es ! (i - 1))) (fst (es ! i)))"

definition entry :: "nat \<Rightarrow> (bytes \<times> bytes) list \<Rightarrow> nat \<Rightarrow> bytes" where
  "entry I es i =
     (let shared = entry_shared I es i; (key, val) = es ! i
      in EncodeVarint32 (of_nat shared) @ EncodeVarint32 (of_nat (length key - shared)) @ EncodeVarint32 (of_nat (length val))
         @ drop shared key @ val)"

definition entries :: "nat \<Rightarrow> (bytes \<times> bytes) list \<Rightarrow> bytes list" where
  "entries I es = map (entry I es) [0..<length es]"

definition entry_offset :: "nat \<Rightarrow> (bytes \<times> bytes) list \<Rightarrow> nat \<Rightarrow> nat" where
  "entry_offset I es i = length (concat (take i (entries I es)))"

definition regions :: "nat \<Rightarrow> nat \<Rightarrow> nat" where
  "regions I n = (n - 1) div I + 1"

definition restart_points :: "nat \<Rightarrow> (bytes \<times> bytes) list \<Rightarrow> nat list" where
  "restart_points I es = map (\<lambda>r. entry_offset I es (r * I)) [0..<regions I (length es)]"

definition block_layout :: "bool \<Rightarrow> nat \<Rightarrow> (bytes \<times> bytes) list \<Rightarrow> bytes" where
  "block_layout le I es =
     concat (entries I es) @ concat (map (\<lambda>n. EncodeFixed32 le (of_nat n)) (restart_points I es @ [regions I (length es)]))"

lemma length_entries [simp]: "length (entries I es) = length es"
  by (simp add: entries_def)

lemma entry_snoc: "i < length es \<Longrightarrow> entry I (es @ es') i = entry I es i"
  by (simp add: entry_def entry_shared_def nth_append)

lemma entries_snoc: "entries I (es @ [e]) = entries I es @ [entry I (es @ [e]) (length es)]"
  by (simp add: entries_def entry_snoc cong: map_cong)

lemma entry_offset_snoc: "i \<le> length es \<Longrightarrow> entry_offset I (es @ [e]) i = entry_offset I es i"
  by (simp add: entry_offset_def entries_snoc)

lemma diff_loop_take: "take (diff_loop a b) a = take (diff_loop a b) b"
  by (induction a b rule: diff_loop.induct) auto

lemma diff_loop_le: "diff_loop a b \<le> length a" "diff_loop a b \<le> length b"
  by (induction a b rule: diff_loop.induct) auto

lemma diff_loop_Nil: "diff_loop [] b = 0"
  by simp

lemma regions_Suc:
  assumes "0 < I"
  shows "regions I (Suc n) = (if n mod I = 0 \<and> 0 < n then Suc (regions I n) else regions I n)"
proof (cases n)
  case (Suc m)
  have "Suc m div I = (if Suc m mod I = 0 then Suc (m div I) else m div I)" by (rule div_Suc)
  with Suc show ?thesis by (simp add: regions_def)
qed (simp add: regions_def)

lemma regions_mult: assumes "0 < I" "r < regions I n" shows "r * I \<le> n - 1"
  using assms by (simp add: regions_def less_Suc_eq_le less_eq_div_iff_mult_less_eq)

lemma regions_exact: assumes "0 < I" "n mod I = 0" "0 < n" shows "regions I n * I = n"
proof -
  obtain k where k: "n = I * k" using assms(2) by (auto elim: dvdE)
  with assms obtain j where j: "k = Suc j" by (cases k) auto
  have "n - 1 = (I - 1) + I * j" using k j assms(1) by simp
  then have "(n - 1) div I = j" using assms(1) by (simp only: div_mult_self2 div_less diff_less)
  then show ?thesis by (simp add: regions_def k j mult.commute)
qed

lemma restart_points_snoc:
  assumes "0 < I"
  shows "restart_points I (es @ [e]) =
    (if length es mod I = 0 \<and> es \<noteq> [] then restart_points I es @ [length (concat (entries I es))] else restart_points I es)"
proof -
  have *: "map (\<lambda>r. entry_offset I (es @ [e]) (r * I)) [0..<regions I (length es)] = restart_points I es"
    unfolding restart_points_def using regions_mult [OF assms, of _ "length es"]
    by (intro map_cong entry_offset_snoc) (fastforce intro: le_trans)+
  have "regions I (length es) * I = length es" if "length es mod I = 0" "es \<noteq> []"
    using that assms by (intro regions_exact) auto
  then show ?thesis
    using assms * by (auto simp: restart_points_def regions_Suc entry_offset_snoc entry_offset_def entries_snoc)
qed

subsection \<open>The builder writes this layout\<close>

definition builder_state :: "nat \<Rightarrow> (bytes \<times> bytes) list \<Rightarrow> BlockBuilder" where
  "builder_state I es =
     \<lparr>bb_buffer = concat (entries I es), bb_restarts = map of_nat (restart_points I es),
      bb_counter = (if es = [] then 0 else (length es - 1) mod I + 1), bb_finished = False,
      bb_last_key = (if es = [] then [] else fst (last es))\<rparr>"

fun add_entries :: "(bytes \<Rightarrow> bytes \<Rightarrow> int option) \<Rightarrow> nat \<Rightarrow> (bytes \<times> bytes) list \<Rightarrow> BlockBuilder \<Rightarrow> BlockBuilder option" where
  "add_entries compare I [] b = Some b"
| "add_entries compare I ((key, val) # es) b = do { b \<leftarrow> BlockBuilder_Add compare I b key val; add_entries compare I es b }"

definition build_block :: "bool \<Rightarrow> (bytes \<Rightarrow> bytes \<Rightarrow> int option) \<Rightarrow> nat \<Rightarrow> (bytes \<times> bytes) list \<Rightarrow> bytes option" where
  "build_block le compare I es =
     do { b \<leftarrow> new_BlockBuilder I; b \<leftarrow> add_entries compare I es b; Some (snd (BlockBuilder_Finish le b)) }"

lemma length_EncodeVarint32: "0 < length (EncodeVarint32 v)"
  by (simp add: EncodeVarint32_enc enc_nat.simps)

lemma entry_length: "3 \<le> length (entry I es i)"
  using length_EncodeVarint32 [of "of_nat (entry_shared I es i)"]
    length_EncodeVarint32 [of "of_nat (length (fst (es ! i)) - entry_shared I es i)"]
    length_EncodeVarint32 [of "of_nat (length (snd (es ! i)))"]
  by (simp add: entry_def Let_def split_beta del: length_greater_0_conv)

lemma entries_empty: "concat (entries I es) = [] \<longleftrightarrow> es = []"
  using entry_length [of I es 0] by (cases "length es") (auto simp: entries_def upt_conv_Cons simp del: upt_Suc)

lemma counter_state:
  fixes es I defines "c \<equiv> bb_counter (builder_state I es)"
  assumes "0 < I"
  shows "c < I \<longleftrightarrow> es = [] \<or> length es mod I \<noteq> 0" "c \<le> I" "length es mod I = (if c < I then c else 0)"
proof (atomize (full), cases "length es")
  case (Suc m)
  then have "c = Suc (m mod I)" by (auto simp: c_def builder_state_def)
  moreover have "m mod I < I" using assms(2) by simp
  ultimately show "(c < I \<longleftrightarrow> es = [] \<or> length es mod I \<noteq> 0) \<and> c \<le> I \<and> length es mod I = (if c < I then c else 0)"
    using Suc by (auto simp: mod_Suc)
qed (use assms(2) in \<open>simp add: c_def builder_state_def\<close>)

lemma BlockBuilder_Add_state:
  assumes I: "0 < I" and r: "es \<noteq> [] \<Longrightarrow> \<exists>r. compare key (fst (last es)) = Some r \<and> 0 < r"
  shows "BlockBuilder_Add compare I (builder_state I es) key val = Some (builder_state I (es @ [(key, val)]))"
proof -
  define n where "n = length es"
  define b where "b = builder_state I es"
  define sh where "sh = entry_shared I (es @ [(key, val)]) n"
  note counter = counter_state [OF I, of es, folded b_def n_def]
  have shared: "sh = (if bb_counter b < I then diff_loop (bb_last_key b) key else 0)"
    unfolding counter(1) sh_def by (auto simp: b_def entry_shared_def builder_state_def n_def nth_append last_conv_nth)
  have incr: "n mod I + 1 = (if bb_counter b < I then bb_counter b else 0) + 1"
    using counter(3) by simp
  have restarts: "map of_nat (restart_points I (es @ [(key, val)])) =
      (if bb_counter b < I then bb_restarts b else bb_restarts b @ [of_nat (length (bb_buffer b))])"
    unfolding counter(1) using restart_points_snoc [OF I, of es "(key, val)"] by (auto simp: b_def builder_state_def n_def)
  have key: "take sh (bb_last_key b) @ drop sh key = key" using shared by (auto simp: diff_loop_take)
  have ok: "\<exists>r. (if bb_buffer b = [] then Some 1 else compare key (bb_last_key b)) = Some r \<and> 0 < r"
    using r by (auto simp: b_def builder_state_def entries_empty simp del: concat_eq_Nil_conv)
  have buf: "bb_buffer b = concat (entries I es)" "\<not> bb_finished b" by (simp_all add: b_def builder_state_def)
  have "BlockBuilder_Add compare I b key val =
      Some \<lparr>bb_buffer = concat (entries I es) @ entry I (es @ [(key, val)]) n,
        bb_restarts = map of_nat (restart_points I (es @ [(key, val)])), bb_counter = n mod I + 1, bb_finished = False, bb_last_key = key\<rparr>"
  proof -
    have e: "entry I (es @ [(key, val)]) n = EncodeVarint32 (of_nat sh) @ EncodeVarint32 (of_nat (length key - sh))
        @ EncodeVarint32 (of_nat (length val)) @ drop sh key @ val"
      by (simp add: entry_def sh_def n_def nth_append Let_def)
    have s: "(if bb_counter b < I then (diff_loop (bb_last_key b) key, bb_restarts b, bb_counter b)
         else (0, bb_restarts b @ [of_nat (length (bb_buffer b))], 0)) =
        (sh, map of_nat (restart_points I (es @ [(key, val)])), n mod I)"
      using shared restarts incr by simp
    from ok obtain r where "(if bb_buffer b = [] then Some 1 else compare key (bb_last_key b)) = Some r" "0 < r" by blast
    then show ?thesis
      unfolding BlockBuilder_Add_def Let_def s e using key buf counter(2) by (simp add: PutVarint32_def)
  qed
  then show ?thesis by (simp add: b_def [symmetric] builder_state_def [of _ "es @ [(key, val)]"] entries_snoc n_def)
qed

lemma add_entries_state:
  assumes "0 < I" "\<forall>i < length es. \<exists>r. compare (fst (es ! Suc i)) (fst (es ! i)) = Some r \<and> 0 < r \<or> Suc i = length es"
  shows "j \<le> length es \<Longrightarrow> add_entries compare I (drop j es) (builder_state I (take j es)) = Some (builder_state I es)"
proof (induction "length es - j" arbitrary: j)
  case (Suc d)
  then have j: "j < length es" by simp
  obtain key val where kv: "es ! j = (key, val)" by (cases "es ! j")
  have "\<exists>r. compare key (fst (last (take j es))) = Some r \<and> 0 < r" if ne: "take j es \<noteq> []"
  proof -
    obtain i where i: "j = Suc i" using ne by (cases j) auto
    with j have "last (take j es) = es ! i" by (simp add: take_Suc_conv_app_nth)
    with assms(2) [rule_format, of i] i j kv show ?thesis by auto
  qed
  then have "BlockBuilder_Add compare I (builder_state I (take j es)) key val = Some (builder_state I (take (Suc j) es))"
    using BlockBuilder_Add_state [OF assms(1), of "take j es" compare key val] j kv by (simp add: take_Suc_conv_app_nth)
  with Suc.hyps(1) [of "Suc j"] Suc.hyps(2) j kv show ?case
    by (subst Cons_nth_drop_Suc [symmetric, OF j]) simp
qed simp

lemma Finish_state: "snd (BlockBuilder_Finish le (builder_state I es)) = block_layout le I es"
proof -
  have put: "fold (\<lambda>r buffer. buffer @ EncodeFixed32 le r) rs buf = buf @ concat (map (EncodeFixed32 le) rs)" for rs buf
    by (induction rs arbitrary: buf) simp_all
  show ?thesis
    by (simp add: BlockBuilder_Finish_def builder_state_def block_layout_def PutFixed32_def put restart_points_def comp_def Let_def)
qed

context comparator
begin

lemma build_block_layout:
  assumes "0 < I" "\<forall>(k, v) \<in> set es. valid k" "sorted_wrt less (map fst es)"
  shows "build_block le compare I es = Some (block_layout le I es)"
proof -
  have "\<exists>r. compare (fst (es ! Suc i)) (fst (es ! i)) = Some r \<and> 0 < r \<or> Suc i = length es" if "i < length es" for i
  proof (cases "Suc i = length es")
    case False
    then have i: "Suc i < length es" using that by simp
    have "less (fst (es ! i)) (fst (es ! Suc i))" using sorted_wrt_nth_less [OF assms(3), of i "Suc i"] i by simp
    moreover have "valid (fst (es ! i))" "valid (fst (es ! Suc i))" using assms(2) i that by (auto simp: split_beta)
    ultimately show ?thesis using compare_sgn by blast
  qed auto
  then have "add_entries compare I es (builder_state I []) = Some (builder_state I es)"
    using add_entries_state [of I es compare 0] assms(1) by simp
  moreover have "new_BlockBuilder I = Some (builder_state I [])"
    using assms(1) by (simp add: new_BlockBuilder_def builder_state_def entries_def restart_points_def regions_def entry_offset_def)
  ultimately show ?thesis by (simp add: build_block_def Finish_state)
qed

end

subsection \<open>Reading the layout\<close>

definition good_block :: "bool \<Rightarrow> nat \<Rightarrow> (bytes \<times> bytes) list \<Rightarrow> bool" where
  "good_block le I es \<longleftrightarrow> 0 < I \<and> length (block_layout le I es) < 2 ^ 32 \<and> (\<forall>(k, v) \<in> set es. length k < 2 ^ 32)"

abbreviation entries_end :: "nat \<Rightarrow> (bytes \<times> bytes) list \<Rightarrow> nat" where
  "entries_end I es \<equiv> entry_offset I es (length es)"

lemma entries_end: "entries_end I es = length (concat (entries I es))"
  by (simp add: entry_offset_def)

lemma block_layout_length: "length (block_layout le I es) = entries_end I es + 4 * regions I (length es) + 4"
  using length_Encode_chunks [of le "map of_nat (restart_points I es @ [regions I (length es)])"]
  by (simp add: block_layout_def entries_end restart_points_def comp_def)

lemma entry_offset_Suc: "i < length es \<Longrightarrow> entry_offset I es (Suc i) = entry_offset I es i + length (entry I es i)"
  by (simp add: entry_offset_def take_Suc_conv_app_nth entries_def)

lemma entry_offset_less: "i < j \<Longrightarrow> j \<le> length es \<Longrightarrow> entry_offset I es i < entry_offset I es j"
proof (induction j)
  case (Suc j)
  have "entry_offset I es j < entry_offset I es (Suc j)"
    using entry_offset_Suc [of j es I] entry_length [of I es j] Suc.prems by linarith
  with Suc show ?case by (cases "i = j") auto
qed simp

lemma entry_offset_less_iff:
  assumes "i \<le> length es" "j \<le> length es"
  shows "entry_offset I es i < entry_offset I es j \<longleftrightarrow> i < j"
  using assms entry_offset_less [of i j es I] entry_offset_less [of j i es I] by (cases i j rule: linorder_cases) auto

lemma entry_offset_le: "i \<le> length es \<Longrightarrow> entry_offset I es i \<le> entries_end I es"
  using piece_le [of i "entries I es"] by (simp add: entry_offset_def)

lemma restart_index_le: "0 < I \<Longrightarrow> r < regions I (length es) \<Longrightarrow> r * I \<le> length es"
  using regions_mult [of I r "length es"] by linarith

lemma entries_split:
  assumes "i \<le> length es"
  shows "take (entries_end I es - entry_offset I es i) (drop (entry_offset I es i) (block_layout le I es)) = concat (drop i (entries I es))"
proof -
  have "concat (entries I es) = concat (take i (entries I es)) @ concat (drop i (entries I es))"
    by (metis append_take_drop_id concat_append)
  then show ?thesis by (simp add: block_layout_def entries_end entry_offset_def)
qed

lemma NumRestarts_layout:
  assumes "good_block le I es"
  shows "NumRestarts le' (block_layout le I es) (length (block_layout le I es)) = Some (of_nat (regions I (length es)))"
    "unat (of_nat (regions I (length es)) :: 32 word) = regions I (length es)"
proof -
  let ?xs = "map of_nat (restart_points I es @ [regions I (length es)]) :: 32 word list"
  have "DecodeFixed32 le' (drop (4 * regions I (length es)) (concat (map (EncodeFixed32 le) ?xs) @ [])) = Some (?xs ! regions I (length es))"
    by (rule Decode_chunk) (simp add: restart_points_def)
  then show "NumRestarts le' (block_layout le I es) (length (block_layout le I es)) = Some (of_nat (regions I (length es)))"
    by (simp add: NumRestarts_def block_layout_length) (simp add: block_layout_def entries_end restart_points_def comp_def nth_append)
  show "unat (of_nat (regions I (length es)) :: 32 word) = regions I (length es)"
    using assms by (intro unat_word_of_nat) (simp add: good_block_def block_layout_length)
qed

lemma GetRestartPoint_layout:
  assumes g: "good_block le I es" and r: "r < regions I (length es)"
    and it: "it_data it = block_layout le I es" "it_restarts it = of_nat (entries_end I es)" "it_num_restarts it = regions I (length es)"
  shows "GetRestartPoint le' it r = Some (entry_offset I es (r * I))"
proof -
  let ?xs = "map of_nat (restart_points I es @ [regions I (length es)]) :: 32 word list"
  have "DecodeFixed32 le' (drop (4 * r) (concat (map (EncodeFixed32 le) ?xs) @ [])) = Some (?xs ! r)"
    using r by (intro Decode_chunk) (simp add: restart_points_def)
  moreover have "unat (of_nat (entries_end I es) :: 32 word) = entries_end I es"
    using g by (intro unat_word_of_nat) (simp add: good_block_def block_layout_length)
  moreover have "entry_offset I es (r * I) \<le> entries_end I es"
    using g restart_index_le [of I r es] r by (simp add: good_block_def entry_offset_le)
  moreover from this have "unat (of_nat (entry_offset I es (r * I)) :: 32 word) = entry_offset I es (r * I)"
    using g by (intro unat_word_of_nat) (simp add: good_block_def block_layout_length)
  ultimately show ?thesis
    using it r by (simp add: GetRestartPoint_def block_layout_def entries_end restart_points_def comp_def nth_append mult.commute)
qed

lemma entry_shared_le: "entry_shared I es i \<le> length (fst (es ! i))"
  using diff_loop_le(2) [of "fst (es ! (i - 1))" "fst (es ! i)"] by (simp add: entry_shared_def)

lemma good_entry:
  assumes g: "good_block le I es" and i: "i < length es"
  shows "entry_offset I es i + 3 \<le> entries_end I es" "entries_end I es < 2 ^ 32" "entries_end I es \<le> length (block_layout le I es)"
    "length (fst (es ! i)) < 2 ^ 32" "entry_offset I es (Suc i) \<le> entries_end I es"
proof -
  have "entry_offset I es (Suc i) \<le> entries_end I es" using i by (intro entry_offset_le) simp
  with entry_offset_Suc [OF i, of I] entry_length [of I es i]
  show "entry_offset I es i + 3 \<le> entries_end I es" "entry_offset I es (Suc i) \<le> entries_end I es" by linarith+
  show "entries_end I es < 2 ^ 32" "entries_end I es \<le> length (block_layout le I es)" "length (fst (es ! i)) < 2 ^ 32"
    using g nth_mem [OF i] by (auto simp: good_block_def block_layout_length split_beta)
qed

lemma DecodeEntry_layout:
  assumes g: "good_block le I es" and i: "i < length es"
  defines "ns \<equiv> length (fst (es ! i)) - entry_shared I es i" and "vl \<equiv> length (snd (es ! i))"
  shows "DecodeEntry (block_layout le I es) (entry_offset I es i) (entries_end I es) =
      Some (entry_offset I es (Suc i) - vl - ns, of_nat (entry_shared I es i), of_nat ns, of_nat vl)" (is ?decode)
    and "mem_read (entry_offset I es (Suc i) - vl - ns) ns (block_layout le I es) = Some (drop (entry_shared I es i) (fst (es ! i)))" (is ?key)
    and "mem_read (entry_offset I es (Suc i) - vl) vl (block_layout le I es) = Some (snd (es ! i))" (is ?val)
    and "ns + vl \<le> entry_offset I es (Suc i)" (is ?len)
    and "unat (of_nat (entry_shared I es i) :: 32 word) = entry_shared I es i" "unat (of_nat ns :: 32 word) = ns" "unat (of_nat vl :: 32 word) = vl"
proof -
  note b = good_entry [OF g i]
  define d where "d = drop (entry_shared I es i) (fst (es ! i))"
  define v where "v = snd (es ! i)"
  define rest where "rest = concat (drop (Suc i) (entries I es))"
  define head where "head = EncodeVarint32 (of_nat (entry_shared I es i)) @ EncodeVarint32 (of_nat ns) @ EncodeVarint32 (of_nat vl)"
  define pre where "pre = concat (take i (entries I es)) @ head"
  have entry: "entry I es i = head @ d @ v"
    by (simp add: entry_def head_def ns_def vl_def d_def v_def Let_def split_beta)
  have len: "length d = ns" "length v = vl" by (simp_all add: ns_def vl_def d_def v_def)
  have off: "entry_offset I es (Suc i) = entry_offset I es i + length head + ns + vl"
    using entry_offset_Suc [OF i, of I] len by (simp add: entry)
  then show ?len by simp
  have cut: "concat (drop i (entries I es)) = head @ d @ v @ rest"
    using i unfolding rest_def by (simp add: Cons_nth_drop_Suc [symmetric] entries_def entry del: upt_Suc)
  obtain post where lay: "block_layout le I es = pre @ d @ v @ post"
    unfolding block_layout_def pre_def using cut by (metis append.assoc append_take_drop_id concat_append)
  have pre: "length pre = entry_offset I es (Suc i) - vl - ns" "length (pre @ d) = entry_offset I es (Suc i) - vl"
    using off len by (simp_all add: entry_offset_def pre_def)
  show ?key unfolding lay d_def [symmetric] by (rule mem_read_append [OF pre(1) len(1)])
  show ?val using mem_read_append [OF pre(2) len(2), of post] by (simp add: lay v_def)
  have "entries_end I es = entry_offset I es i + length (concat (drop i (entries I es)))"
    by (metis entries_end entry_offset_def append_take_drop_id concat_append length_append)
  then have rest: "entries_end I es = entry_offset I es i + length head + ns + vl + length rest"
    using len by (simp add: cut)
  have lt: "ns + vl + length rest < 2 ^ 32" using rest b(2) by linarith
  show u: "unat (of_nat (entry_shared I es i) :: 32 word) = entry_shared I es i" "unat (of_nat ns :: 32 word) = ns" "unat (of_nat vl :: 32 word) = vl"
    using lt b(4) entry_shared_le [of I es i] by (simp_all add: unat_word_of_nat)
  have "\<not> (of_nat (length (d @ v @ rest)) :: 32 word) < of_nat ns + of_nat vl"
    using lt len by (simp add: word_less_nat_alt unat_word_of_nat flip: of_nat_add)
  then show ?decode
    unfolding DecodeEntry_slow [OF b(1,3)] entries_split [OF less_imp_le [OF i]] cut
    using GetVarint32_enc len rest off by (simp add: head_def GetVarint32_def)
qed

subsection \<open>The iterator is a cursor\<close>

definition iter_of :: "bool \<Rightarrow> nat \<Rightarrow> (bytes \<times> bytes) list \<Rightarrow> BlockIter \<Rightarrow> bool" where
  "iter_of le I es it \<longleftrightarrow>
     it_data it = block_layout le I es \<and> it_restarts it = of_nat (entries_end I es) \<and>
     it_num_restarts it = regions I (length es) \<and> it_status it = StatusOK"

text \<open>The iterator stands at entry \<open>i\<close>; past the last entry it is not valid.\<close>

definition iter_at :: "bool \<Rightarrow> nat \<Rightarrow> (bytes \<times> bytes) list \<Rightarrow> nat \<Rightarrow> BlockIter \<Rightarrow> bool" where
  "iter_at le I es i it \<longleftrightarrow>
     iter_of le I es it \<and> it_current it = entry_offset I es i \<and> i \<le> length es \<and>
     (i < length es \<longrightarrow>
        it_key it = fst (es ! i) \<and>
        it_value it = Some (entry_offset I es (Suc i) - length (snd (es ! i)), length (snd (es ! i))) \<and>
        it_restart_index it < regions I (length es) \<and> it_restart_index it * I \<le> i \<and> i \<le> (it_restart_index it + 1) * I)"

text \<open>The next entry that \<open>ParseNextKey\<close> parses is entry \<open>i\<close>.\<close>

definition iter_before :: "bool \<Rightarrow> nat \<Rightarrow> (bytes \<times> bytes) list \<Rightarrow> nat \<Rightarrow> BlockIter \<Rightarrow> bool" where
  "iter_before le I es i it \<longleftrightarrow>
     iter_of le I es it \<and> NextEntryOffset it = Some (entry_offset I es i) \<and> i \<le> length es \<and>
     it_restart_index it < regions I (length es) \<and> it_restart_index it * I \<le> i \<and>
     (i < length es \<longrightarrow> entry_shared I es i \<le> length (it_key it) \<and>
        take (entry_shared I es i) (it_key it) = take (entry_shared I es i) (fst (es ! i)))"

lemma good_end:
  assumes "good_block le I es"
  shows "unat (of_nat (entries_end I es) :: 32 word) = entries_end I es" "entries_end I es < 2 ^ 32" "0 < I"
  using assms by (auto simp: good_block_def block_layout_length intro!: unat_word_of_nat)

lemma iter_at_Valid: "good_block le I es \<Longrightarrow> iter_at le I es i it \<Longrightarrow> Iter_Valid it \<longleftrightarrow> i < length es"
  by (simp add: Iter_Valid_def iter_at_def iter_of_def good_end entry_offset_less_iff)

lemma iter_at_entry:
  assumes "good_block le I es" "iter_at le I es i it" "i < length es"
  shows "Iter_key it = Some (fst (es ! i))" "Iter_value it = Some (snd (es ! i))"
  using assms iter_at_Valid [OF assms(1,2)] DecodeEntry_layout(3) [OF assms(1,3)]
  by (simp_all add: Iter_key_def Iter_value_def iter_at_def iter_of_def)

lemma iter_before_Suc:
  assumes "good_block le I es" "iter_at le I es i it" "i < length es"
  shows "iter_before le I es (Suc i) it"
proof -
  have "entry_offset I es (Suc i) < 2 ^ 32" using good_entry(2,5) [OF assms(1,3)] by linarith
  moreover have "length (snd (es ! i)) \<le> entry_offset I es (Suc i)" using DecodeEntry_layout(4) [OF assms(1,3)] by linarith
  ultimately show ?thesis
    using assms(2,3) diff_loop_take [of "fst (es ! i)" "fst (es ! Suc i)"]
    by (simp add: iter_before_def iter_at_def NextEntryOffset_def entry_shared_def diff_loop_le)
qed

lemma GetRestartPoint_iter:
  "good_block le I es \<Longrightarrow> iter_of le I es it \<Longrightarrow> r < regions I (length es) \<Longrightarrow> GetRestartPoint le' it r = Some (entry_offset I es (r * I))"
  by (intro GetRestartPoint_layout) (auto simp: iter_of_def)

lemma regions_end: "0 < I \<Longrightarrow> n \<le> regions I n * I"
proof -
  assume I: "0 < I"
  have "n - 1 < ((n - 1) div I + 1) * I" using dividend_less_times_div [OF I, of "n - 1"] by (simp add: mult.commute)
  then show ?thesis by (simp add: regions_def)
qed

lemma restart_loop_iter:
  assumes "good_block le I es" "iter_of le I es it" "it_current it = entry_offset I es i" "i < length es"
    "it_restart_index it < regions I (length es)" "it_restart_index it * I \<le> i"
  shows "\<exists>r. restart_loop le' it = Some (it\<lparr>it_restart_index := r\<rparr>) \<and> r < regions I (length es) \<and> r * I \<le> i \<and> i \<le> (r + 1) * I"
  using assms
proof (induction "regions I (length es) - it_restart_index it" arbitrary: it rule: less_induct)
  case less
  let ?r = "it_restart_index it"
  have n: "it_num_restarts it = regions I (length es)" using less.prems(2) by (simp add: iter_of_def)
  have I: "0 < I" using good_end [OF assms(1)] by simp
  show ?case
  proof (cases "Suc ?r < regions I (length es)")
    case True
    then have p: "GetRestartPoint le' it (Suc ?r) = Some (entry_offset I es (Suc ?r * I))"
      using GetRestartPoint_iter [OF assms(1) less.prems(2)] by blast
    have "Suc ?r * I \<le> length es" using restart_index_le [OF I True] .
    then have lt: "entry_offset I es (Suc ?r * I) < entry_offset I es i \<longleftrightarrow> Suc ?r * I < i"
      using less.prems(4) by (intro entry_offset_less_iff) simp_all
    show ?thesis
    proof (cases "Suc ?r * I < i")
      case step: True
      let ?it = "it\<lparr>it_restart_index := Suc ?r\<rparr>"
      have "\<exists>r. restart_loop le' ?it = Some (?it\<lparr>it_restart_index := r\<rparr>) \<and> r < regions I (length es) \<and> r * I \<le> i \<and> i \<le> (r + 1) * I"
        using less.prems True step by (intro less.hyps) (auto simp: iter_of_def)
      moreover have "restart_loop le' it = restart_loop le' ?it"
        using True p lt step less.prems(3) n by (subst restart_loop.simps) simp
      ultimately show ?thesis by simp
    next
      case False
      then show ?thesis
        using True p lt less.prems n by (intro exI [of _ ?r]) (subst restart_loop.simps, simp)
    qed
  next
    case False
    then have "regions I (length es) = ?r + 1" using less.prems(5) by simp
    then have "i \<le> (?r + 1) * I" using regions_end [OF I, of "length es"] less.prems(4) by simp
    then show ?thesis
      using False less.prems n by (intro exI [of _ ?r]) (subst restart_loop.simps, simp)
  qed
qed

lemma ParseNextKey_iter:
  assumes g: "good_block le I es" and b: "iter_before le I es i it" and i: "i < length es"
  shows "\<exists>it'. ParseNextKey le' it = Some (it', True) \<and> iter_at le I es i it'"
proof -
  note d = DecodeEntry_layout [OF g i]
  let ?sh = "entry_shared I es i" and ?v = "snd (es ! i)"
  define it1 where "it1 = it\<lparr>it_current := entry_offset I es i, it_key := fst (es ! i),
     it_value := Some (entry_offset I es (Suc i) - length ?v, length ?v)\<rparr>"
  have of: "iter_of le I es it1" "it_restart_index it1 < regions I (length es)" "it_restart_index it1 * I \<le> i"
    using b by (simp_all add: iter_before_def iter_of_def it1_def)
  obtain r where r: "restart_loop le' it1 = Some (it1\<lparr>it_restart_index := r\<rparr>)" "r < regions I (length es)" "r * I \<le> i" "i \<le> (r + 1) * I"
    using restart_loop_iter [OF g of(1) _ i of(2,3), of le'] by (auto simp: it1_def)
  have key: "take ?sh (it_key it) @ drop ?sh (fst (es ! i)) = fst (es ! i)" using b i by (simp add: iter_before_def)
  have lt: "entry_offset I es i < entries_end I es" using i by (simp add: entry_offset_less_iff)
  have val: "entry_offset I es (Suc i) - length ?v - (length (fst (es ! i)) - ?sh) + (length (fst (es ! i)) - ?sh) = entry_offset I es (Suc i) - length ?v"
    using d(4) by linarith
  have "ParseNextKey le' it = Some (it1\<lparr>it_restart_index := r\<rparr>, True)"
    using b i lt d key r(1) val
    by (simp add: ParseNextKey_def iter_before_def iter_of_def good_end [OF g] it1_def linorder_not_less Let_def)
  moreover have "iter_at le I es i (it1\<lparr>it_restart_index := r\<rparr>)"
    using of(1) r i by (simp add: iter_at_def iter_of_def it1_def)
  ultimately show ?thesis by blast
qed

lemma ParseNextKey_end:
  assumes g: "good_block le I es" and b: "iter_before le I es (length es) it"
  shows "\<exists>it'. ParseNextKey le' it = Some (it', False) \<and> iter_at le I es (length es) it'"
  using b by (simp add: ParseNextKey_def iter_before_def iter_of_def iter_at_def good_end [OF g] Let_def)

lemma SeekToRestartPoint_iter:
  assumes g: "good_block le I es" and it: "iter_of le I es it" and r: "r < regions I (length es)"
  shows "\<exists>it'. SeekToRestartPoint le' it r = Some it' \<and> iter_before le I es (r * I) it'"
proof -
  have "r * I \<le> length es" using restart_index_le [OF good_end(3) [OF g] r] .
  moreover from this have "entry_offset I es (r * I) < 2 ^ 32" using entry_offset_le [of "r * I" es I] good_end(2) [OF g] by linarith
  moreover have "iter_of le I es (it\<lparr>it_key := [], it_restart_index := r\<rparr>)" using it by (simp add: iter_of_def)
  ultimately show ?thesis
    using r it GetRestartPoint_iter [OF g, of "it\<lparr>it_key := [], it_restart_index := r\<rparr>" r le']
    by (simp add: SeekToRestartPoint_def iter_before_def iter_of_def NextEntryOffset_def entry_shared_def)
qed

lemma parse_until_iter:
  assumes g: "good_block le I es" and "iter_before le I es j it" "j < m" "m \<le> length es"
  shows "\<exists>it'. parse_until le' (entry_offset I es m) it = Some it' \<and> iter_at le I es (m - 1) it'"
  using assms(2-)
proof (induction "m - j" arbitrary: j it rule: less_induct)
  case less
  then obtain it1 where 1: "ParseNextKey le' it = Some (it1, True)" "iter_at le I es j it1"
    using ParseNextKey_iter [OF g, of j it le'] by auto
  have b: "iter_before le I es (Suc j) it1" using iter_before_Suc [OF g 1(2)] less.prems by simp
  then have nxt: "NextEntryOffset it1 = Some (entry_offset I es (Suc j))" by (simp add: iter_before_def)
  have lt: "entry_offset I es (Suc j) < entry_offset I es m \<longleftrightarrow> Suc j < m"
    using less.prems by (intro entry_offset_less_iff) auto
  show ?case
  proof (cases "Suc j < m")
    case True
    with less.hyps [OF _ b] less.prems lt show ?thesis by (subst parse_until.simps) (simp add: 1(1) nxt)
  next
    case False
    then have "m - 1 = j" using less.prems by simp
    with False lt 1 show ?thesis by (subst parse_until.simps) (simp add: nxt)
  qed
qed

lemma Iter_Next_at:
  assumes g: "good_block le I es" and it: "iter_at le I es i it" "i < length es"
  shows "\<exists>it'. Iter_Next le' it = Some it' \<and> iter_at le I es (Suc i) it'"
proof -
  note b = iter_before_Suc [OF g it]
  have "Iter_Valid it" using iter_at_Valid [OF g it(1)] it(2) by simp
  moreover have "Suc i < length es \<or> Suc i = length es" using it(2) by linarith
  ultimately show ?thesis
    using ParseNextKey_iter [OF g b, of le'] ParseNextKey_end [OF g, of it le'] b by (auto simp: Iter_Next_def simp del: map_option_eq_Some)
qed

lemma Iter_SeekToFirst_at:
  assumes g: "good_block le I es" and it: "iter_of le I es it"
  shows "\<exists>it'. Iter_SeekToFirst le' it = Some it' \<and> iter_at le I es 0 it'"
proof -
  obtain it1 where 1: "SeekToRestartPoint le' it 0 = Some it1" "iter_before le I es 0 it1"
    using SeekToRestartPoint_iter [OF g it, of 0 le'] by (auto simp: regions_def)
  then show ?thesis
    using ParseNextKey_iter [OF g 1(2), of le'] ParseNextKey_end [OF g, of it1 le']
    by (cases "es = []") (auto simp: Iter_SeekToFirst_def simp del: map_option_eq_Some)
qed

lemma Iter_SeekToLast_at:
  assumes g: "good_block le I es" and it: "iter_of le I es it"
  shows "\<exists>it'. Iter_SeekToLast le' it = Some it' \<and> iter_at le I es (length es - 1) it'"
proof -
  let ?r = "regions I (length es) - 1"
  have r: "?r < regions I (length es)" by (simp add: regions_def)
  obtain it1 where 1: "SeekToRestartPoint le' it ?r = Some it1" "iter_before le I es (?r * I) it1"
    using SeekToRestartPoint_iter [OF g it r, of le'] by blast
  have "unat (it_restarts it1) = entries_end I es"
    using 1(2) good_end [OF g] by (simp add: iter_before_def iter_of_def)
  then have seek: "Iter_SeekToLast le' it = parse_until le' (entries_end I es) it1"
    using it 1(1) by (simp add: Iter_SeekToLast_def iter_of_def)
  show ?thesis
  proof (cases "es = []")
    case True
    then have "?r * I = length es" by (simp add: regions_def)
    with 1(2) ParseNextKey_end [OF g, of it1 le'] True seek show ?thesis by (subst (asm) parse_until.simps) auto
  next
    case False
    then have "?r * I < length es" using regions_mult [OF good_end(3) [OF g] r] by (cases "length es") auto
    with parse_until_iter [OF g 1(2)] seek show ?thesis by simp
  qed
qed

lemma back_loop_iter:
  assumes g: "good_block le I es" and it: "iter_of le I es it" and "r < regions I (length es)" "r * I \<le> i" "i \<le> (r + 1) * I" "i < length es"
  shows "(i = 0 \<longrightarrow> back_loop le' it (entry_offset I es i) r = Some None) \<and>
     (0 < i \<longrightarrow> (\<exists>q. back_loop le' it (entry_offset I es i) r = Some (Some q) \<and> q < regions I (length es) \<and> q * I < i))"
  using assms(3-)
proof (induction r)
  case 0
  have "GetRestartPoint le' it 0 = Some (entry_offset I es (0 * I))" by (rule GetRestartPoint_iter [OF g it 0(1)])
  moreover have "entry_offset I es 0 < entry_offset I es i \<longleftrightarrow> 0 < i" using 0(4) by (intro entry_offset_less_iff) auto
  ultimately show ?case using 0(1) by (auto simp: linorder_not_less [symmetric] entry_offset_def)
next
  case (Suc r)
  have p: "GetRestartPoint le' it (Suc r) = Some (entry_offset I es (Suc r * I))" by (rule GetRestartPoint_iter [OF g it Suc.prems(1)])
  have lt: "entry_offset I es (Suc r * I) < entry_offset I es i \<longleftrightarrow> Suc r * I < i"
    using Suc.prems by (intro entry_offset_less_iff) auto
  show ?case
  proof (cases "Suc r * I < i")
    case True
    with p lt Suc.prems(1) show ?thesis by auto
  next
    case False
    then have "i = Suc r * I" using Suc.prems by simp
    with Suc.IH Suc.prems p lt False show ?thesis by (simp add: linorder_not_less)
  qed
qed

lemma Iter_Prev_at:
  assumes g: "good_block le I es" and it: "iter_at le I es i it" "i < length es"
  shows "\<exists>it'. Iter_Prev le' it = Some it' \<and> iter_at le I es (if i = 0 then length es else i - 1) it'"
proof -
  have v: "Iter_Valid it" using iter_at_Valid [OF g it(1)] it(2) by simp
  have base: "iter_of le I es it" and cur: "it_current it = entry_offset I es i" using it by (simp_all add: iter_at_def)
  have found: "(i = 0 \<longrightarrow> back_loop le' it (entry_offset I es i) (it_restart_index it) = Some None) \<and>
     (0 < i \<longrightarrow> (\<exists>q. back_loop le' it (entry_offset I es i) (it_restart_index it) = Some (Some q) \<and> q < regions I (length es) \<and> q * I < i))"
    using it by (intro back_loop_iter [OF g base]) (auto simp: iter_at_def)
  show ?thesis
  proof (cases "i = 0")
    case True
    with found v cur base show ?thesis by (simp add: Iter_Prev_def iter_at_def iter_of_def good_end [OF g])
  next
    case False
    with found obtain q where q: "back_loop le' it (entry_offset I es i) (it_restart_index it) = Some (Some q)" "q < regions I (length es)" "q * I < i"
      by auto
    obtain it1 where 1: "SeekToRestartPoint le' it q = Some it1" "iter_before le I es (q * I) it1"
      using SeekToRestartPoint_iter [OF g base q(2)] by blast
    with parse_until_iter [OF g 1(2) q(3), of le'] it(2) v cur q(1) False show ?thesis by (simp add: Iter_Prev_def Let_def)
  qed
qed

text \<open>Where \<open>Seek\<close> has to stop: at the first entry whose key is not less than the target.\<close>

definition seek_pos :: "(bytes \<Rightarrow> bytes \<Rightarrow> bool) \<Rightarrow> bytes \<Rightarrow> (bytes \<times> bytes) list \<Rightarrow> nat" where
  "seek_pos lt target es = length (takeWhile (\<lambda>(k, v). lt k target) es)"

context comparator
begin

lemma linear_loop_iter:
  assumes g: "good_block le I es" and es: "\<forall>(k, v) \<in> set es. valid k" and t: "valid target"
    and "iter_before le I es j it" "\<forall>i < j. less (fst (es ! i)) target"
  shows "\<exists>it'. linear_loop le' compare target it = Some it' \<and> iter_at le I es (seek_pos less target es) it'"
  using assms(4-)
proof (induction "length es - j" arbitrary: j it rule: less_induct)
  case less
  have j: "j \<le> length es" using less.prems(1) by (simp add: iter_before_def)
  show ?case
  proof (cases "j < length es")
    case True
    obtain it1 where 1: "ParseNextKey le' it = Some (it1, True)" "iter_at le I es j it1"
      using ParseNextKey_iter [OF g less.prems(1) True] by blast
    have key: "it_key it1 = fst (es ! j)" using 1(2) True by (simp add: iter_at_def)
    have "valid (fst (es ! j))" using es True by (auto simp: split_beta)
    from compare_sgn [OF this t] obtain r where r: "compare (fst (es ! j)) target = Some r" "r < 0 \<longleftrightarrow> less (fst (es ! j)) target" by blast
    show ?thesis
    proof (cases "less (fst (es ! j)) target")
      case l: True
      have "\<forall>i < Suc j. less (fst (es ! i)) target" using l less.prems(2) by (auto simp: less_Suc_eq)
      with less.hyps [OF _ iter_before_Suc [OF g 1(2) True]] True r l key 1(1) show ?thesis
        by (subst linear_loop.simps) auto
    next
      case False
      have "seek_pos less target es = j"
        unfolding seek_pos_def using takeWhile_eq_take_P_nth [of j es "\<lambda>(k, v). less k target"] less.prems(2) False True
        by (auto simp: split_beta)
      with 1 r False key show ?thesis by (subst linear_loop.simps) auto
    qed
  next
    case False
    then have "j = length es" using j by simp
    moreover from this have "takeWhile (\<lambda>(k, v). less k target) es = es"
      using less.prems(2) by (force simp: takeWhile_eq_all_conv in_set_conv_nth)
    then have "seek_pos less target es = length es" by (simp only: seek_pos_def)
    ultimately show ?thesis using ParseNextKey_end [OF g, of it le'] less.prems(1) by (subst linear_loop.simps) auto
  qed
qed

lemma search_loop_iter:
  assumes g: "good_block le I es" and es: "\<forall>(k, v) \<in> set es. valid k" and t: "valid target" and it: "iter_of le I es it"
    and "l \<le> r" "r < regions I (length es)" "l = 0 \<or> less (fst (es ! (l * I))) target"
  shows "\<exists>m. search_loop le' compare target it (of_nat l) (of_nat r) = Some (Some (of_nat m)) \<and> m < regions I (length es) \<and>
     (m = 0 \<or> less (fst (es ! (m * I))) target)"
  using assms(5-)
proof (induction "r - l" arbitrary: l r rule: less_induct)
  case less
  have small: "regions I (length es) < 2 ^ 30" using g by (simp add: good_block_def block_layout_length)
  have u: "unat (of_nat q :: 32 word) = q" if "q < 2 ^ 31" for q using that by (simp add: unat_word_of_nat)
  show ?case
  proof (cases "l < r")
    case True
    define mid where "mid = (l + r + 1) div 2"
    have mid: "l < mid" "mid \<le> r" using True by (auto simp: mid_def)
    have "of_nat l + of_nat r + 1 = (of_nat (l + r + 1) :: 32 word)" by simp
    moreover have "unat (of_nat (l + r + 1) :: 32 word) = l + r + 1" using less.prems small by (intro u) simp
    moreover have "unat (of_nat mid :: 32 word) = mid" using mid less.prems small by (intro u) simp
    ultimately have m: "(of_nat l + of_nat r + 1 :: 32 word) div 2 = of_nat mid"
      by (simp only: word_unat_eq_iff unat_div) (simp add: mid_def)
    have lt: "(of_nat l :: 32 word) < of_nat r" using True less.prems small by (simp add: word_less_nat_alt u)
    have I: "0 < I" using good_end [OF g] by simp
    have mr: "mid < regions I (length es)" using mid less.prems by simp
    have pos: "mid * I < length es" using regions_mult [OF I mr] mid(1) I by (cases "length es") auto
    note d = DecodeEntry_layout [OF g pos]
    have sh: "entry_shared I es (mid * I) = 0" by (simp add: entry_shared_def)
    have "valid (fst (es ! (mid * I)))" using es pos by (auto simp: split_beta)
    from compare_sgn [OF this t] obtain c where c: "compare (fst (es ! (mid * I))) target = Some c" "c < 0 \<longleftrightarrow> less (fst (es ! (mid * I))) target"
      by blast
    have step: "search_loop le' compare target it (of_nat l) (of_nat r) =
        (if c < 0 then search_loop le' compare target it (of_nat mid) (of_nat r) else search_loop le' compare target it (of_nat l) (of_nat mid - 1))"
      using lt m d c(1) sh it GetRestartPoint_iter [OF g it mr, of le'] u [of mid] mid less.prems small good_end [OF g]
      by (subst search_loop.simps) (simp add: iter_of_def Let_def)
    have pred: "(of_nat mid - 1 :: 32 word) = of_nat (mid - 1)" using mid(1) by simp
    show ?thesis
    proof (cases "c < 0")
      case True
      then have l: "mid = 0 \<or> less (fst (es ! (mid * I))) target" using c(2) by simp
      have "r - mid < r - l" using mid by linarith
      from less.hyps [OF this mid(2) less.prems(2) l] True step show ?thesis by simp
    next
      case False
      have "mid - 1 - l < r - l" "l \<le> mid - 1" "mid - 1 < regions I (length es)" using mid less.prems by linarith+
      from less.hyps [OF this less.prems(3)] False step pred show ?thesis by simp
    qed
  next
    case False
    then have "l = r" using less.prems by simp
    with less.prems show ?thesis by (subst search_loop.simps) auto
  qed
qed

end

subsection \<open>Sequences of operations\<close>

datatype iter_op = SeekToFirst | SeekToLast | Seek bytes | Next | Prev

fun iter_step :: "bool \<Rightarrow> (bytes \<Rightarrow> bytes \<Rightarrow> int option) \<Rightarrow> iter_op \<Rightarrow> BlockIter \<Rightarrow> BlockIter option" where
  "iter_step le compare SeekToFirst it = Iter_SeekToFirst le it"
| "iter_step le compare SeekToLast it = Iter_SeekToLast le it"
| "iter_step le compare (Seek target) it = Iter_Seek le compare it target"
| "iter_step le compare Next it = Iter_Next le it"
| "iter_step le compare Prev it = Iter_Prev le it"

fun iter_run :: "bool \<Rightarrow> (bytes \<Rightarrow> bytes \<Rightarrow> int option) \<Rightarrow> iter_op list \<Rightarrow> BlockIter \<Rightarrow> BlockIter option" where
  "iter_run le compare [] it = Some it"
| "iter_run le compare (op # ops) it = do { it \<leftarrow> iter_step le compare op it; iter_run le compare ops it }"

text \<open>
  The specification: a position in the sorted list of entries, past its end when the iterator is not valid.
  \<open>Next\<close> and \<open>Prev\<close> require a valid iterator.
\<close>

fun cursor_step :: "(bytes \<Rightarrow> bool) \<Rightarrow> (bytes \<Rightarrow> bytes \<Rightarrow> bool) \<Rightarrow> (bytes \<times> bytes) list \<Rightarrow> iter_op \<Rightarrow> nat \<Rightarrow> nat option" where
  "cursor_step ok lt es SeekToFirst i = Some 0"
| "cursor_step ok lt es SeekToLast i = Some (length es - 1)"
| "cursor_step ok lt es (Seek target) i = (if ok target then Some (seek_pos lt target es) else None)"
| "cursor_step ok lt es Next i = (if i < length es then Some (i + 1) else None)"
| "cursor_step ok lt es Prev i = (if i < length es then Some (if i = 0 then length es else i - 1) else None)"

fun cursor_run :: "(bytes \<Rightarrow> bool) \<Rightarrow> (bytes \<Rightarrow> bytes \<Rightarrow> bool) \<Rightarrow> (bytes \<times> bytes) list \<Rightarrow> iter_op list \<Rightarrow> nat \<Rightarrow> nat option" where
  "cursor_run ok lt es [] i = Some i"
| "cursor_run ok lt es (op # ops) i = do { i \<leftarrow> cursor_step ok lt es op i; cursor_run ok lt es ops i }"

lemma NewIterator_layout:
  assumes g: "good_block le I es"
  shows "\<exists>b it. new_Block le' (block_layout le I es) = Some b \<and> NewIterator le' b = Some (Iter it) \<and> iter_at le I es (length es) it"
proof -
  let ?c = "block_layout le I es" and ?n = "regions I (length es)"
  note N = NumRestarts_layout(1) [OF g, of le'] NumRestarts_layout(2) [OF g]
  have len: "length ?c = entries_end I es + 4 * ?n + 4" by (rule block_layout_length)
  have small: "?n + 1 < 2 ^ 32" "0 < ?n" using g len by (simp_all add: good_block_def regions_def)
  have "unat (1 + of_nat ?n :: 32 word) = ?n + 1" using small(1) unat_word_of_nat [where 'a = 32, of "?n + 1"] by simp
  then have off: "length ?c - unat (1 + of_nat ?n :: 32 word) * 4 = entries_end I es" using len by simp
  have "new_Block le' ?c = Some \<lparr>block_data = ?c, block_size = length ?c, block_restart_offset = of_nat (entries_end I es)\<rparr>"
    using N off len by (simp add: new_Block_def Let_def)
  moreover have "(of_nat ?n :: 32 word) \<noteq> 0" using N(2) small(2) by (metis unat_0 less_numeral_extra(3))
  ultimately show ?thesis
    using N len small(2) by (simp add: NewIterator_def new_BlockIter_def iter_at_def iter_of_def good_end [OF g])
qed

context comparator
begin

lemma Iter_Seek_at:
  assumes g: "good_block le I es" and es: "\<forall>(k, v) \<in> set es. valid k" "sorted_wrt less (map fst es)" and t: "valid target"
    and it: "iter_of le I es it"
  shows "\<exists>it'. Iter_Seek le' compare it target = Some it' \<and> iter_at le I es (seek_pos less target es) it'"
proof -
  let ?n = "regions I (length es)"
  have n: "it_num_restarts it = ?n" "0 < ?n" using it by (simp_all add: iter_of_def regions_def)
  have I: "0 < I" using good_end [OF g] by simp
  have "of_nat (it_num_restarts it) - 1 = (of_nat (?n - 1) :: 32 word)" using n by simp
  with search_loop_iter [OF g es(1) t it, of 0 "?n - 1" le'] n obtain m where
    m: "search_loop le' compare target it 0 (of_nat (it_num_restarts it) - 1) = Some (Some (of_nat m))" "m < ?n"
       "m = 0 \<or> less (fst (es ! (m * I))) target" by auto
  have "unat (of_nat m :: 32 word) = m" using m(2) g by (intro unat_word_of_nat) (simp add: good_block_def block_layout_length)
  moreover obtain it1 where 1: "SeekToRestartPoint le' it m = Some it1" "iter_before le I es (m * I) it1"
    using SeekToRestartPoint_iter [OF g it m(2)] by blast
  moreover have "\<forall>i < m * I. less (fst (es ! i)) target"
  proof (intro allI impI)
    fix i assume i: "i < m * I"
    then have "0 < m" by (cases m) auto
    with m(3) have lt: "less (fst (es ! (m * I))) target" by simp
    have mI: "m * I < length es" using regions_mult [OF I m(2)] i by (cases "length es") auto
    then have "less (fst (es ! i)) (fst (es ! (m * I)))" using sorted_wrt_nth_less [OF es(2), of i "m * I"] i by simp
    moreover have "valid (fst (es ! i))" "valid (fst (es ! (m * I)))" using es(1) i mI by (auto simp: split_beta)
    ultimately show "less (fst (es ! i)) target" using lt t less_trans by blast
  qed
  ultimately show ?thesis
    using linear_loop_iter [OF g es(1) t 1(2)] m(1) by (simp add: Iter_Seek_def)
qed

lemma iter_step_cursor:
  assumes g: "good_block le I es" and es: "\<forall>(k, v) \<in> set es. valid k" "sorted_wrt less (map fst es)"
    and it: "iter_at le I es i it" and step: "cursor_step valid less es op i = Some j"
  shows "\<exists>it'. iter_step le' compare op it = Some it' \<and> iter_at le I es j it'"
proof -
  have "iter_of le I es it" using it by (simp add: iter_at_def)
  then show ?thesis
    using step Iter_SeekToFirst_at [OF g, of it le'] Iter_SeekToLast_at [OF g, of it le'] Iter_Seek_at [OF g es, of _ it le']
      Iter_Next_at [OF g it, of le'] Iter_Prev_at [OF g it, of le']
    by (cases op) (auto split: if_splits)
qed

lemma iter_run_cursor:
  assumes g: "good_block le I es" and es: "\<forall>(k, v) \<in> set es. valid k" "sorted_wrt less (map fst es)"
  shows "iter_at le I es i it \<Longrightarrow> cursor_run valid less es ops i = Some j \<Longrightarrow>
     \<exists>it'. iter_run le' compare ops it = Some it' \<and> iter_at le I es j it'"
proof (induction ops arbitrary: i it)
  case (Cons op ops)
  then obtain k where k: "cursor_step valid less es op i = Some k" "cursor_run valid less es ops k = Some j"
    by (auto split: Option.bind_splits)
  from iter_step_cursor [OF g es Cons.prems(1) k(1), of le'] Cons.IH [OF _ k(2)] show ?case by fastforce
qed simp

lemma block_cursor:
  assumes "0 < I" "\<forall>(k, v) \<in> set es. valid k \<and> length k < 2 ^ 32" "sorted_wrt less (map fst es)"
  shows "\<exists>c. build_block le compare I es = Some c \<and>
     (length c < 2 ^ 32 \<longrightarrow> (\<exists>b it. new_Block le' c = Some b \<and> NewIterator le' b = Some (Iter it) \<and>
       (\<forall>ops i. cursor_run valid less es ops (length es) = Some i \<longrightarrow>
          (\<exists>it'. iter_run le' compare ops it = Some it' \<and> it_status it' = StatusOK \<and> (Iter_Valid it' \<longleftrightarrow> i < length es) \<and>
             (i < length es \<longrightarrow> Iter_key it' = Some (fst (es ! i)) \<and> Iter_value it' = Some (snd (es ! i)))))))"
proof -
  have es: "\<forall>(k, v) \<in> set es. valid k" using assms(2) by auto
  have build: "build_block le compare I es = Some (block_layout le I es)" by (rule build_block_layout [OF assms(1) es assms(3)])
  show ?thesis
  proof (intro exI [of _ "block_layout le I es"] conjI impI build)
    assume "length (block_layout le I es) < 2 ^ 32"
    then have g: "good_block le I es" using assms(1,2) by (auto simp: good_block_def)
    from NewIterator_layout [OF g, of le'] obtain b it where it: "new_Block le' (block_layout le I es) = Some b"
      "NewIterator le' b = Some (Iter it)" "iter_at le I es (length es) it" by blast
    have "\<exists>it'. iter_run le' compare ops it = Some it' \<and> it_status it' = StatusOK \<and> (Iter_Valid it' \<longleftrightarrow> i < length es) \<and>
             (i < length es \<longrightarrow> Iter_key it' = Some (fst (es ! i)) \<and> Iter_value it' = Some (snd (es ! i)))"
      if run: "cursor_run valid less es ops (length es) = Some i" for ops i
    proof -
      from iter_run_cursor [OF g es assms(3) it(3) run, of le'] obtain it' where
        it': "iter_run le' compare ops it = Some it'" "iter_at le I es i it'" by blast
      then show ?thesis
        using iter_at_Valid [OF g it'(2)] iter_at_entry [OF g it'(2)] by (auto simp: iter_at_def iter_of_def)
    qed
    with it(1,2) show "\<exists>b it. new_Block le' (block_layout le I es) = Some b \<and> NewIterator le' b = Some (Iter it) \<and>
       (\<forall>ops i. cursor_run valid less es ops (length es) = Some i \<longrightarrow>
          (\<exists>it'. iter_run le' compare ops it = Some it' \<and> it_status it' = StatusOK \<and> (Iter_Valid it' \<longleftrightarrow> i < length es) \<and>
             (i < length es \<longrightarrow> Iter_key it' = Some (fst (es ! i)) \<and> Iter_value it' = Some (snd (es ! i)))))"
      by blast
  qed
qed

end

lemma internal_Compare_order: "internal_Compare le = internal_Compare le'"
  by (intro ext) (simp only: internal_Compare_def DecodeFixed64_le)

text \<open>
  C2. A block iterator is a cursor over the entries the block was built from.  For every restart interval and every
  strictly sorted list of internal keys with values, the builder's assertions hold and it produces a block; on that block,
  read by a machine of any byte order, every sequence of \<open>SeekToFirst\<close>, \<open>SeekToLast\<close>, \<open>Seek\<close>, \<open>Next\<close> and \<open>Prev\<close> that
  respects their preconditions is safe, reports no corruption and ends at the entry the sorted list has at that position:
  the prefix compression, the restart points and the binary search are invisible.  Blocks are smaller than four
  gigabytes, offsets having 32 bits.
\<close>

theorem block_iterator_refines_cursor:
  assumes "0 < I" "\<forall>(k, v) \<in> set es. key_valid k \<and> length k < 2 ^ 32" "sorted_wrt (internal_less bytes_less) (map fst es)"
  shows "\<exists>c. build_block le (internal_Compare le bytewise_Compare) I es = Some c \<and>
     (length c < 2 ^ 32 \<longrightarrow> (\<exists>b it. new_Block le' c = Some b \<and> NewIterator le' b = Some (Iter it) \<and>
       (\<forall>ops i. cursor_run key_valid (internal_less bytes_less) es ops (length es) = Some i \<longrightarrow>
          (\<exists>it'. iter_run le' (internal_Compare le' bytewise_Compare) ops it = Some it' \<and> it_status it' = StatusOK \<and>
             (Iter_Valid it' \<longleftrightarrow> i < length es) \<and>
             (i < length es \<longrightarrow> Iter_key it' = Some (fst (es ! i)) \<and> Iter_value it' = Some (snd (es ! i)))))))"
  unfolding internal_Compare_order [of le' le] by (rule bytewise.internal.block_cursor [OF assms])

definition example_entries :: "(bytes \<times> bytes) list" where
  "example_entries =
     [([97, 98, 0, 0, 0, 0, 0, 0, 0, 0], [1]), ([97, 99, 0, 0, 0, 0, 0, 0, 0, 0], [2, 2]), ([97, 100, 0, 0, 0, 0, 0, 0, 0, 0], [])]"

theorem block_iterator_refines_cursor_witness:
  "\<exists>c b it it'. build_block True (internal_Compare True bytewise_Compare) 2 example_entries = Some c \<and> length c = 53 \<and>
     new_Block False c = Some b \<and> NewIterator False b = Some (Iter it) \<and>
     iter_run False (internal_Compare False bytewise_Compare) [Seek [97, 99, 0, 0, 0, 0, 0, 0, 0, 0], Next, Prev] it = Some it' \<and>
     Iter_value it' = Some [2, 2]"
proof -
  have len: "map_option length (build_block True (internal_Compare True bytewise_Compare) 2 example_entries) = Some 53"
    by code_simp
  have run: "cursor_run key_valid (internal_less bytes_less) example_entries
      [Seek [97, 99, 0, 0, 0, 0, 0, 0, 0, 0], Next, Prev] (length example_entries) = Some 1"
    by code_simp
  have es: "\<forall>(k, v) \<in> set example_entries. key_valid k \<and> length k < 2 ^ 32"
      "sorted_wrt (internal_less bytes_less) (map fst example_entries)" "length example_entries = 3" "example_entries ! 1 = ([97, 99, 0, 0, 0, 0, 0, 0, 0, 0], [2, 2])"
    by (simp add: example_entries_def key_valid_def) (code_simp, code_simp, code_simp)
  obtain c b it where c: "build_block True (internal_Compare True bytewise_Compare) 2 example_entries = Some c" "length c = 53"
      "new_Block False c = Some b" "NewIterator False b = Some (Iter it)" 
      "\<forall>ops i. cursor_run key_valid (internal_less bytes_less) example_entries ops (length example_entries) = Some i \<longrightarrow>
          (\<exists>it'. iter_run False (internal_Compare False bytewise_Compare) ops it = Some it' \<and> it_status it' = StatusOK \<and>
             (Iter_Valid it' \<longleftrightarrow> i < length example_entries) \<and>
             (i < length example_entries \<longrightarrow> Iter_key it' = Some (fst (example_entries ! i)) \<and> Iter_value it' = Some (snd (example_entries ! i))))"
    using block_iterator_refines_cursor [of 2 example_entries True False] es(1,2) len by auto
  with run es(3,4) show ?thesis by (metis one_less_numeral_iff semiring_norm(77) snd_conv)
qed

text \<open>
  C36. The bounds check of \<open>DecodeEntry\<close> adds two 32-bit lengths and may wrap around: there is a corrupted block of
  sixteen bytes that is accepted, and whose first entry makes the iterator copy four gigabytes from behind it.
\<close>

theorem block_entry_check_wraps:
  "\<exists>c b it. length c = 16 \<and> new_Block True c = Some b \<and> NewIterator True b = Some (Iter it) \<and>
     DecodeEntry (it_data it) 0 (unat (it_restarts it)) = Some (7, 0, 2 ^ 32 - 1, 2) \<and> Iter_SeekToFirst True it = None"
proof -
  let ?c = "[0, 255, 255, 255, 255, 15, 2, 7, 0, 0, 0, 0, 1, 0, 0, 0] :: bytes"
  let ?it = "\<lparr>it_data = ?c, it_restarts = 8, it_num_restarts = 1, it_current = 8, it_restart_index = 1, it_key = [],
      it_value = None, it_status = StatusOK\<rparr>"
  have "new_Block True ?c = Some \<lparr>block_data = ?c, block_size = 16, block_restart_offset = 8\<rparr>" by code_simp
  moreover have "NewIterator True \<lparr>block_data = ?c, block_size = 16, block_restart_offset = 8\<rparr> = Some (Iter ?it)" by code_simp
  moreover have d: "DecodeEntry ?c 0 8 = Some (7, 0, 2 ^ 32 - 1, 2)" by code_simp
  moreover have "SeekToRestartPoint True ?it 0 = Some (?it\<lparr>it_restart_index := 0, it_value := Some (0, 0)\<rparr>)" by code_simp
  then have "Iter_SeekToFirst True ?it = None"
    using d by (simp add: Iter_SeekToFirst_def ParseNextKey_def NextEntryOffset_def mem_read_def)
  ultimately show ?thesis by (intro exI [of _ ?c]) auto
qed

end
