(* ===== verification/Spec2Isabelle.thy ===== *)
theory Spec2Isabelle
  imports Glob DictScan T_set WriteBatch VersionEdit LogReader FilterBlock Block
begin

text \<open>
  A verification development for the storage code of this repository: the in-memory containers of
  redis 5.0 (\<open>src/redis-5.0\<close>) and the on-disk formats of leveldb 1.20 (\<open>src/leveldb-1.20\<close>).

  \<^bold>\<open>Conventions.\<close>  Memory is a list of bytes (\<open>8 word\<close>); a read or write outside an allocation, a failing
  assertion and undefined behaviour are \<open>None\<close>, so a theorem that gives \<open>Some\<close> states memory safety as well.
  Machine integers keep their width where the code computes with it: unsigned arithmetic wraps, a conversion
  to \<open>int\<close> keeps the low 32 bits, and the overflow of signed arithmetic is \<open>None\<close>.  Byte order is a boolean argument
  (\<open>le\<close>).  System calls, the clock, the random source, hash functions, type callbacks and optional
  libraries are arguments of the definitions.  Loops are total functions with a termination proof, or
  \<open>partial_function (option)\<close>, and then the theorems prove that they return.

  \<^bold>\<open>Shared theories.\<close>
  \<^item> \<open>Prelude\<close>: byte lists, \<open>memcpy\<close>/\<open>memmove\<close>, words, little-endian layout, pieces of flattened lists.
  \<^item> \<open>Interfaces\<close>: the contracts \<open>set_store\<close>, \<open>map_store\<close>, \<open>map_as_set\<close>, \<open>partial_codec\<close>, \<open>prefix_codec\<close> and
    \<open>codec_pair\<close>, with the lemmas their clients use.  Each is interpreted on the model: intsets, hash
    tables and set objects are sets or maps, the encoders and decoders of leveldb are codecs.

  \<^bold>\<open>Redis.\<close>
  \<^item> \<open>Util\<close>, \<open>Glob\<close> (\<open>util.c\<close>): \<open>digits10\<close>, \<open>ll2string\<close>, \<open>string2ll\<close>, \<open>string2l\<close>, \<open>stringmatchlen\<close>.  Shown: decimal
    conversion is correct and strict, the round trip, and that the matcher computes the token semantics of
    glob patterns inside its buffers and terminates.
  \<^item> \<open>Intset\<close> (\<open>intset.c\<close>): the byte-level structure with its three encodings and 32-bit sizes.  Shown: the
    well-formedness invariant, each operation, the refinement of finite sets, and the size at which
    \<open>intsetResize\<close> wraps.
  \<^item> \<open>Dict\<close>, \<open>DictIter\<close>, \<open>DictScan\<close> (\<open>dict.c\<close>): two tables of chains with incremental rehashing, iterators, random
    entries and the cursor scan.  Shown: the invariant, refinement of maps, that rehashing never loses
    entries, and that a full \<open>dictScan\<close> returns every key that stays in the table, however the table is
    resized between the calls.
  \<^item> \<open>T_set\<close> (\<open>t_set.c\<close>): set objects that start as intsets and turn into hash tables.  It builds on \<open>Intset\<close>
    (through \<open>set_store\<close>) and \<open>Dict\<close> (through \<open>map_as_set\<close>).  Shown: refinement of sets of strings across the
    conversion, complete iteration, and the one integer (\<open>LLONG_MIN\<close>) that the conversion to strings cannot handle.

  \<^bold>\<open>Leveldb.\<close>
  \<^item> \<open>Coding\<close> (\<open>util/coding.cc\<close>): fixed and variable-length integers, length-prefixed slices.  Shown: round trips in
    both byte orders, the base-128 format.
  \<^item> \<open>Crc\<close>, \<open>Crc32c\<close> (\<open>util/crc32c.cc\<close>): the bitwise CRC as the specification; the table-driven, four-way
    interleaved \<open>Extend\<close> computes it.  The tables are checked against the polynomial.
  \<^item> \<open>EnvPosix\<close> (\<open>util/env_posix.cc\<close>): the buffered writable file and the sequential file over scripted system
    calls, as the contracts \<open>writable_file\<close> and \<open>sequential_file\<close>.
  \<^item> \<open>LogWriter\<close>, \<open>LogReader\<close> (\<open>db/log_writer.cc\<close>, \<open>db/log_reader.cc\<close>): the write-ahead log over these contracts.  Shown:
    the reader returns the records the writer added, and on any file it terminates.
  \<^item> \<open>WriteBatch\<close> (\<open>db/write_batch.cc\<close>), \<open>VersionEdit\<close> (\<open>db/version_edit.cc\<close>): the records of the log and of the manifest.
    Shown: round trips, the effect of a batch on a memtable, and which inputs are rejected.
  \<^item> \<open>Comparator\<close> (\<open>util/comparator.cc\<close>, \<open>db/dbformat.cc\<close>): the contract \<open>comparator\<close>; the bytewise comparator keeps
    it, and internal keys inherit it from any comparator of user keys (\<open>user_comparator\<close>).  Shown: separators and
    successors, packing of internal keys, and what a lookup at a snapshot finds.
  \<^item> \<open>Bloom\<close>, \<open>FilterBlock\<close> (\<open>util/bloom.cc\<close>, \<open>table/filter_block.cc\<close>): the contract \<open>filter_policy\<close>, kept by the Bloom filter
    and by its wrapper for internal keys.  Shown: no false negatives, for a filter and for a filter block.
  \<^item> \<open>Block\<close> (\<open>table/block_builder.cc\<close>, \<open>table/block.cc\<close>): prefix-compressed blocks over any \<open>comparator\<close>.  Shown: the
    iterator is a cursor over the entries of the block; a corrupted block can defeat its bounds check.

  \<^bold>\<open>Bounds.\<close>  Theorems about 32-bit offsets assume that a block, a filter block or an intset is smaller than
  four gigabytes, so an intset has fewer than \<open>2 ^ 29 - 1\<close> elements; counters of type \<open>int\<close> (updates of a batch,
  lengths of keys of a set, steps of a rehash) stay below \<open>2 ^ 31\<close>; a dictionary has fewer than \<open>2 ^ 61\<close> entries.
  Each theorem states the bounds it uses, and the theorems named in the findings show what happens
  beyond.  \<open>random()\<close> returns 31-bit numbers.  No definition uses fuel.

  \<^bold>\<open>Not modelled.\<close>  The rest of redis (server, network, persistence, cluster, the other encodings) and of leveldb
  (tables, memtables, versions, compaction, caches) is not translated yet.  libevent, muduo, sofa-pbrpc, libco, coroutine, gin,
  groupcache, grpc-go, inject and the Go helper packages are frameworks around sockets, threads,
  goroutines, context switches, reflection or generated code, and the lock-free containers of boost are
  about weak memory; they are left out.  Inside the modelled files, debug output, statistics and
  REDIS_TEST drivers are left out, as is the fingerprint check of unsafe iterators, a hash of pointers.
\<close>

end
